(* ===== verification/Prelude.thy ===== *)
theory Prelude
  imports Main "HOL-Library.Word"
begin

text \<open>
  Shared vocabulary of the development: the names of the machine types the
  compiler uses, the two result types (a panic is \<^term>\<open>None\<close>, a diagnostic is
  \<open>Inl\<close>), list and arithmetic facts that several components need, and the
  named collections of rewrite rules the component theories fill.
\<close>

section \<open>Type names\<close>

text \<open>
  \<^item> \<open>name\<close> is \<^verbatim>\<open>StrId\<close> (\<^verbatim>\<open>crates/utilities/src/handle.rs\<close>): an interned byte
    string. The interner gives equal text an equal handle (theory
    \<^verbatim>\<open>Handle_Store\<close> proves it), so a name is its text everywhere else.
  \<^item> \<open>byte\<close> is \<^verbatim>\<open>u8\<close> as a number below 256 where bytes are classified,
    \<open>usize\<close> is the 64-bit machine word where wrap-around matters;
    a \<^verbatim>\<open>usize\<close> that only counts or indexes is a \<^typ>\<open>nat\<close>.
  \<^item> \<open>i64\<close> literals are carried, never computed with, so they are \<^typ>\<open>int\<close>;
    an \<^verbatim>\<open>f64\<close> is its bit pattern.
\<close>

type_synonym name = string
type_synonym usize = "64 word"
type_synonym i64 = int
type_synonym f64 = "64 word"

section \<open>Rule collections\<close>

named_theorems store_simps \<open>behaviour of the handle stores\<close>
named_theorems layout_simps \<open>sizes and alignments of C kinds\<close>
named_theorems core_simps \<open>children, binders and free names of Core nodes\<close>
named_theorems ir_simps \<open>traversals of the IR\<close>

section \<open>Panicking list access\<close>

text \<open>
  Indexing a Rust slice out of range panics; here it is \<^term>\<open>None\<close>.
\<close>

definition nth_opt :: "'a list \<Rightarrow> nat \<Rightarrow> 'a option" where
  "nth_opt xs i = (if i < length xs then Some (xs ! i) else None)"

lemma nth_opt_Some_iff [simp]: "nth_opt xs i = Some x \<longleftrightarrow> i < length xs \<and> xs ! i = x"
  by (simp add: nth_opt_def)

lemma nth_opt_None_iff [simp]: "nth_opt xs i = None \<longleftrightarrow> length xs \<le> i"
  by (simp add: nth_opt_def)

lemma nth_opt_append_left: "i < length xs \<Longrightarrow> nth_opt (xs @ ys) i = nth_opt xs i"
  by (simp add: nth_opt_def nth_append)

lemma nth_opt_snoc: "nth_opt (xs @ [x]) (length xs) = Some x"
  by simp

lemma map_eq_in_set: "map g xs = ys \<Longrightarrow> x \<in> set xs \<Longrightarrow> g x \<in> set ys"
  by auto

lemma map_eq_nth: "map g xs = ys \<Longrightarrow> i < length xs \<Longrightarrow> ys ! i = g (xs ! i)"
  by auto

lemma map_eq_length: "map g xs = ys \<Longrightarrow> length ys = length xs"
  by auto

lemma nth_opt_in_set: "nth_opt xs i = Some x \<Longrightarrow> x \<in> set xs"
  by auto

lemma those_map_Some:
  "(\<And>x. x \<in> set xs \<Longrightarrow> f x = Some (g x)) \<Longrightarrow> those (map f xs) = Some (map g xs)"
  by (induction xs) auto

lemma those_map_length: "those (map f xs) = Some ys \<Longrightarrow> length ys = length xs"
  by (induction xs arbitrary: ys) (auto split: option.splits)

lemma those_map_nth: "those (map f xs) = Some ys \<Longrightarrow> i < length xs \<Longrightarrow> f (xs ! i) = Some (ys ! i)"
proof (induction xs arbitrary: ys i)
  case (Cons x xs)
  then show ?case by (cases i) (auto split: option.splits)
qed simp

lemma those_map_all2:
  "\<forall>a \<in> set as. \<exists>r. f a = Some r \<and> P a r \<Longrightarrow> \<exists>rs. those (map f as) = Some rs \<and> list_all2 P as rs"
proof (induction as)
  case (Cons a as)
  then obtain r rs where "f a = Some r" "P a r" "those (map f as) = Some rs" "list_all2 P as rs" by auto
  then show ?case by auto
qed simp

end
