(* ===== verification/Handle_Store.thy ===== *)
theory Handle_Store
  imports Prelude
begin

text \<open>
  The handle-addressed storage of \<^verbatim>\<open>crates/utilities/src/handle.rs\<close>: stores
  whose elements are reached through tagged handles, parallel side tables, and
  the process-wide string interner with its per-thread mirror. A panic of the
  source (a handle used with the wrong store, an index out of range, the
  interner's \<open>2 ^ 32\<close> limit) is the value \<^term>\<open>None\<close>.
\<close>

section \<open>Handles and stores\<close>

text \<open>
  A handle is the tag of its store and an index; the source's phantom element
  type only serves Rust's type checker.
\<close>

datatype aol = Aol (aol_tag: nat) (aol_index: nat)

datatype slice = Slice (slice_tag: nat) (slice_start: nat) (slice_len: nat)

record 'a store =
  store_tag :: nat
  items :: "'a list"

text \<open>
  \<^verbatim>\<open>fresh_tag\<close>: the global counter starts at 1 and \<^verbatim>\<open>fetch_add\<close> wraps at the
  width of \<^verbatim>\<open>usize\<close>. It returns the old value and leaves the next one.
\<close>

definition fresh_tag :: "usize \<Rightarrow> nat \<times> usize" where
  "fresh_tag next = (unat next, next + 1)"

definition store_new :: "usize \<Rightarrow> 'a store \<times> usize" where
  "store_new next = (let (t, next') = fresh_tag next in (\<lparr>store_tag = t, items = []\<rparr>, next'))"

definition store_len :: "'a store \<Rightarrow> nat" where
  "store_len s = length (items s)"

definition store_is_empty :: "'a store \<Rightarrow> bool" where
  "store_is_empty s = (items s = [])"

definition create :: "'a store \<Rightarrow> 'a \<Rightarrow> 'a store \<times> aol" where
  "create s val =
     (s\<lparr>items := items s @ [val]\<rparr>, Aol (store_tag s) (length (items s)))"

definition create_slice :: "'a store \<Rightarrow> 'a list \<Rightarrow> 'a store \<times> slice" where
  "create_slice s vals =
     (let start = length (items s); its = items s @ vals
      in (s\<lparr>items := its\<rparr>, Slice (store_tag s) start (length its - start)))"

definition handle_at :: "'a store \<Rightarrow> nat \<Rightarrow> aol option" where
  "handle_at s i = (if i < length (items s) then Some (Aol (store_tag s) i) else None)"

definition store_truncate :: "'a store \<Rightarrow> nat \<Rightarrow> 'a store" where
  "store_truncate s n = s\<lparr>items := take n (items s)\<rparr>"

definition check_tag :: "'a store \<Rightarrow> nat \<Rightarrow> bool" where
  "check_tag s t = (t = store_tag s)"

definition store_lookup :: "'a store \<Rightarrow> aol \<Rightarrow> 'a option" where
  "store_lookup s h = (if check_tag s (aol_tag h) then nth_opt (items s) (aol_index h) else None)"

definition commit :: "'a store \<Rightarrow> aol \<Rightarrow> 'a \<Rightarrow> 'a store option" where
  "commit s h val =
     (if check_tag s (aol_tag h) \<and> aol_index h < length (items s)
      then Some (s\<lparr>items := (items s)[aol_index h := val]\<rparr>) else None)"

definition lookup_slice :: "'a store \<Rightarrow> slice \<Rightarrow> 'a list option" where
  "lookup_slice s sl =
     (if check_tag s (slice_tag sl) \<and> slice_start sl + slice_len sl \<le> length (items s)
      then Some (take (slice_len sl) (drop (slice_start sl) (items s))) else None)"

text \<open>\<^verbatim>\<open>lookup_mut\<close> hands out the slot; the model applies the caller's update to it.\<close>

definition lookup_mut :: "'a store \<Rightarrow> aol \<Rightarrow> ('a \<Rightarrow> 'a) \<Rightarrow> 'a store option" where
  "lookup_mut s h f =
     (case store_lookup s h of None \<Rightarrow> None | Some v \<Rightarrow> commit s h (f v))"

section \<open>Side tables\<close>

type_synonym 'v secondary_map = "'v option list"

definition sm_new :: "'v secondary_map" where
  "sm_new = []"

definition sm_insert :: "'v secondary_map \<Rightarrow> aol \<Rightarrow> 'v \<Rightarrow> 'v secondary_map" where
  "sm_insert m h v =
     (let i = aol_index h;
          m' = (if length m \<le> i then m @ replicate (i + 1 - length m) None else m)
      in m'[i := Some v])"

definition sm_get :: "'v secondary_map \<Rightarrow> aol \<Rightarrow> 'v option" where
  "sm_get m h = (case nth_opt m (aol_index h) of None \<Rightarrow> None | Some v \<Rightarrow> v)"

section \<open>The interner\<close>

text \<open>
  The state behind \<^verbatim>\<open>STRINGS\<close>: the texts by id, the dedup table, the length of the
  unused tail of the current chunk, and the size of the last chunk. The leaked
  chunks themselves are only ever read back through \<^verbatim>\<open>texts\<close>.
\<close>

type_synonym bytes = string

record strings =
  texts :: "bytes list"
  dedup :: "bytes \<rightharpoonup> nat"
  free_len :: nat
  chunk :: nat

definition CHUNK_MIN :: nat where "CHUNK_MIN = 4 * 2 ^ 10"
definition CHUNK_MAX :: nat where "CHUNK_MAX = 2 ^ 20"

definition strings_default :: strings where
  "strings_default = \<lparr>texts = [], dedup = Map.empty, free_len = 0, chunk = 0\<rparr>"

definition clamp_chunk :: "nat \<Rightarrow> nat" where
  "clamp_chunk n = max CHUNK_MIN (min CHUNK_MAX n)"

text \<open>
  \<^verbatim>\<open>Strings::store\<close>: take the bytes from the tail of the chunk, allocating a new
  chunk first when it is too short. \<^term>\<open>None\<close> is \<^verbatim>\<open>split_at_mut\<close> out of range.
\<close>

definition strings_store :: "strings \<Rightarrow> bytes \<Rightarrow> (strings \<times> bytes) option" where
  "strings_store t bs =
     (let t1 = (if length bs > free_len t
                then (let c = clamp_chunk (chunk t * 2)
                      in t\<lparr>chunk := c, free_len := max c (length bs)\<rparr>)
                else t)
      in if length bs \<le> free_len t1
         then Some (t1\<lparr>free_len := free_len t1 - length bs\<rparr>, bs) else None)"

definition intern_bytes :: "strings \<Rightarrow> bytes \<Rightarrow> (strings \<times> nat) option" where
  "intern_bytes t bs =
     (case dedup t bs of
        Some i \<Rightarrow> Some (t, i)
      | None \<Rightarrow>
          (if length (texts t) < 2 ^ 32
           then (case strings_store t bs of
                   None \<Rightarrow> None
                 | Some (t1, stored) \<Rightarrow>
                     (let i = length (texts t)
                      in Some (t1\<lparr>texts := texts t1 @ [stored],
                                 dedup := (dedup t1)(stored \<mapsto> i)\<rparr>, i)))
           else None))"

text \<open>
  \<^verbatim>\<open>StrId::bytes\<close>: read the thread's mirror \<open>seen\<close>, extending it from the
  shared table when the id is not in it yet.
\<close>

definition strid_bytes :: "strings \<Rightarrow> bytes list \<Rightarrow> nat \<Rightarrow> (bytes list \<times> bytes) option" where
  "strid_bytes t seen i =
     (if i < length seen then Some (seen, seen ! i)
      else if length seen \<le> length (texts t)
           then (let seen' = seen @ drop (length seen) (texts t)
                 in case nth_opt seen' i of None \<Rightarrow> None | Some b \<Rightarrow> Some (seen', b))
           else None)"

section \<open>Contract of an append-only table\<close>

text \<open>
  What every client of a handle table relies on: a value just added is read back
  through its handle, and adding never disturbs a handle already given out.
\<close>

primrec add_all :: "('s \<Rightarrow> 'v \<Rightarrow> 's \<times> 'h) \<Rightarrow> 's \<Rightarrow> 'v list \<Rightarrow> 's \<times> 'h list" where
  "add_all add s [] = (s, [])"
| "add_all add s (v # vs) =
     (let (s1, h) = add s v; (s2, hs) = add_all add s1 vs in (s2, h # hs))"

locale handle_table =
  fixes add :: "'s \<Rightarrow> 'v \<Rightarrow> 's \<times> 'h"
    and get :: "'s \<Rightarrow> 'h \<Rightarrow> 'v option"
  assumes get_added: "add s v = (s', h) \<Longrightarrow> get s' h = Some v"
    and get_kept: "add s v = (s', h) \<Longrightarrow> get s k = Some w \<Longrightarrow> get s' k = Some w"
begin

lemma add_all_kept:
  "add_all add s vs = (s', hs) \<Longrightarrow> get s k = Some w \<Longrightarrow> get s' k = Some w"
  by (induction vs arbitrary: s hs) (auto split: prod.splits dest: get_kept)

lemma add_all_get:
  "add_all add s vs = (s', hs) \<Longrightarrow> list_all2 (\<lambda>h v. get s' h = Some v) hs vs"
proof (induction vs arbitrary: s s' hs)
  case Nil
  then show ?case by simp
next
  case (Cons v vs)
  obtain s1 h where a: "add s v = (s1, h)" by fastforce
  obtain s2 hs2 where r: "add_all add s1 vs = (s2, hs2)" by fastforce
  from Cons.prems a r have eq: "s' = s2" "hs = h # hs2" by auto
  have "get s2 h = Some v"
    using add_all_kept [OF r] get_added [OF a] by blast
  with Cons.IH [OF r] eq show ?case by simp
qed

end

lemma store_lookup_create:
  "create s v = (s', h) \<Longrightarrow> store_lookup s' h = Some v"
  by (auto simp: create_def store_lookup_def check_tag_def)

lemma store_lookup_Some [store_simps]:
  "store_lookup s h = Some v \<longleftrightarrow>
     aol_tag h = store_tag s \<and> aol_index h < length (items s) \<and> items s ! aol_index h = v"
  by (simp add: store_lookup_def check_tag_def)

lemma store_lookup_create_old:
  assumes "create s v = (s', h)" and "store_lookup s k = Some w"
  shows "store_lookup s' k = Some w"
proof -
  from assms(1) have "store_tag s' = store_tag s" "items s' = items s @ [v]"
    by (auto simp: create_def)
  with assms(2) show ?thesis by (simp add: store_simps nth_append)
qed

interpretation node_store: handle_table "create :: 'a store \<Rightarrow> 'a \<Rightarrow> 'a store \<times> aol" store_lookup
  by unfold_locales (blast intro: store_lookup_create, blast intro: store_lookup_create_old)

section \<open>Stores are append-only\<close>

text \<open>The operations a builder performs on a store, and a run of them.\<close>

datatype 'a store_op = Create 'a | CreateSlice "'a list"

primrec run_op :: "'a store_op \<Rightarrow> 'a store \<Rightarrow> 'a store" where
  "run_op (Create v) s = fst (create s v)"
| "run_op (CreateSlice vs) s = fst (create_slice s vs)"

definition store_ext :: "'a store \<Rightarrow> 'a store \<Rightarrow> bool" where
  "store_ext s s' \<longleftrightarrow> store_tag s' = store_tag s \<and> (\<exists>ys. items s' = items s @ ys)"

lemma store_ext_refl [simp]: "store_ext s s"
  by (simp add: store_ext_def)

lemma store_ext_trans: "store_ext a b \<Longrightarrow> store_ext b c \<Longrightarrow> store_ext a c"
  by (auto simp: store_ext_def)

lemma run_op_ext: "store_ext s (run_op op s)"
  by (cases op) (auto simp: store_ext_def create_def create_slice_def Let_def)

lemma run_ops_ext: "store_ext s (fold run_op ops s)"
  by (induction ops arbitrary: s) (auto intro: store_ext_trans run_op_ext)

lemma lookup_ext: "store_ext s s' \<Longrightarrow> store_lookup s h = Some v \<Longrightarrow> store_lookup s' h = Some v"
  by (auto simp: store_ext_def store_lookup_def check_tag_def nth_append split: if_splits)

lemma lookup_slice_ext:
  "store_ext s s' \<Longrightarrow> lookup_slice s sl = Some vs \<Longrightarrow> lookup_slice s' sl = Some vs"
  by (auto simp: store_ext_def lookup_slice_def check_tag_def split: if_splits)

lemma lookup_slice_created:
  "create_slice s vs = (s', sl) \<Longrightarrow> lookup_slice s' sl = Some vs"
  by (auto simp: create_slice_def lookup_slice_def check_tag_def Let_def)

text \<open>
  C20: A handle and a slice handle stay readable, with the value stored through
  them, across any later sequence of creations in the same store; a handle
  whose tag is another store's never reads anything.
\<close>

theorem handles_stay_valid:
  assumes "create s v = (s1, h)" and "create_slice s1 vs = (s2, sl)"
    and "store_tag other \<noteq> store_tag s"
  shows "store_lookup (fold run_op ops s2) h = Some v
       \<and> lookup_slice (fold run_op ops s2) sl = Some vs
       \<and> store_lookup other h = None"
proof -
  have ext: "store_ext s2 (fold run_op ops s2)" by (rule run_ops_ext)
  have "store_ext s1 s2" using run_op_ext [of s1 "CreateSlice vs"] assms(2) by simp
  then have "store_lookup s2 h = Some v"
    using assms(1) by (blast intro: lookup_ext store_lookup_create)
  then have "store_lookup (fold run_op ops s2) h = Some v" by (rule lookup_ext [OF ext])
  moreover have "lookup_slice (fold run_op ops s2) sl = Some vs"
    by (rule lookup_slice_ext [OF ext]) (rule lookup_slice_created [OF assms(2)])
  moreover have "store_lookup other h = None"
    using assms(1,3) by (auto simp: create_def store_lookup_def check_tag_def)
  ultimately show ?thesis by blast
qed

section \<open>Side tables\<close>

lemma sm_get_insert_same: "sm_get (sm_insert m h v) h = Some v"
  by (simp add: sm_get_def sm_insert_def nth_opt_def Let_def)

lemma sm_get_insert_other:
  "aol_index k \<noteq> aol_index h \<Longrightarrow> sm_get (sm_insert m h v) k = sm_get m k"
  by (auto simp: sm_get_def sm_insert_def nth_opt_def nth_append Let_def split: option.splits if_splits)

lemma sm_get_insert [store_simps]:
  "sm_get (sm_insert m h v) k = (if aol_index k = aol_index h then Some v else sm_get m k)"
  using sm_get_insert_same [of m h v] sm_get_insert_other [of k h m v]
  by (auto simp: sm_get_def)

lemma sm_get_new [store_simps]: "sm_get sm_new k = None"
  by (simp add: sm_get_def sm_new_def nth_opt_def)

section \<open>Interning\<close>

definition strings_ok :: "strings \<Rightarrow> bool" where
  "strings_ok t \<longleftrightarrow> (\<forall>b i. dedup t b = Some i \<longleftrightarrow> i < length (texts t) \<and> texts t ! i = b)
                   \<and> length (texts t) \<le> 2 ^ 32"

lemma strings_ok_default: "strings_ok strings_default"
  by (simp add: strings_ok_def strings_default_def)

lemma strings_store_succeeds:
  "\<exists>t1. strings_store t bs = Some (t1, bs) \<and> texts t1 = texts t \<and> dedup t1 = dedup t"
  by (auto simp: strings_store_def Let_def)

lemma intern_bytes_total:
  assumes "length (texts t) < 2 ^ 32 \<or> dedup t bs \<noteq> None"
  shows "\<exists>t' i. intern_bytes t bs = Some (t', i)"
  using assms strings_store_succeeds [of t bs]
  by (auto simp: intern_bytes_def Let_def split: option.splits)

lemma intern_bytes_ok:
  assumes ok: "strings_ok t" and run: "intern_bytes t bs = Some (t', i)"
  shows "strings_ok t'" and "\<exists>ys. texts t' = texts t @ ys"
    and "i < length (texts t')" and "texts t' ! i = bs"
proof -
  have *: "strings_ok t' \<and> (\<exists>ys. texts t' = texts t @ ys) \<and> i < length (texts t') \<and> texts t' ! i = bs"
  proof (cases "dedup t bs")
    case (Some j)
    with run ok show ?thesis by (auto simp: intern_bytes_def strings_ok_def)
  next
    case None
    obtain t1 where t1: "strings_store t bs = Some (t1, bs)" "texts t1 = texts t" "dedup t1 = dedup t"
      using strings_store_succeeds by blast
    from None run t1 have lim: "length (texts t) < 2 ^ 32"
      and t': "t' = t1\<lparr>texts := texts t @ [bs], dedup := (dedup t)(bs \<mapsto> length (texts t))\<rparr>"
      and i: "i = length (texts t)"
      by (auto simp: intern_bytes_def Let_def split: if_splits)
    from ok have inv: "\<And>b k. dedup t b = Some k \<longleftrightarrow> k < length (texts t) \<and> texts t ! k = b"
      by (simp add: strings_ok_def)
    have fresh: "texts t ! k \<noteq> bs" if "k < length (texts t)" for k
      using inv [of bs k] that None by simp
    have "dedup t' b = Some k \<longleftrightarrow> k < length (texts t') \<and> texts t' ! k = b" for b k
      using fresh inv [of b k] by (cases "k < length (texts t)") (auto simp: t' nth_append)
    moreover have "length (texts t') \<le> 2 ^ 32"
      using lim by (simp add: t')
    ultimately have "strings_ok t'" by (simp add: strings_ok_def)
    with t' i show ?thesis by simp
  qed
  then show "strings_ok t'" "\<exists>ys. texts t' = texts t @ ys" "i < length (texts t')" "texts t' ! i = bs"
    by auto
qed

lemma strings_ok_inj:
  assumes "strings_ok t" "i < length (texts t)" "j < length (texts t)" "texts t ! i = texts t ! j"
  shows "i = j"
  using assms unfolding strings_ok_def by (metis option.inject)

primrec intern_all :: "strings \<Rightarrow> bytes list \<Rightarrow> (strings \<times> nat list) option" where
  "intern_all t [] = Some (t, [])"
| "intern_all t (b # bs) =
     (case intern_bytes t b of
        None \<Rightarrow> None
      | Some (t1, i) \<Rightarrow> map_option (\<lambda>(t2, is). (t2, i # is)) (intern_all t1 bs))"

lemma intern_all_ok:
  assumes "strings_ok t" and "intern_all t bs = Some (t', is)"
  shows "strings_ok t' \<and> (\<exists>ys. texts t' = texts t @ ys)
         \<and> list_all2 (\<lambda>i b. i < length (texts t') \<and> texts t' ! i = b) is bs"
  using assms
proof (induction bs arbitrary: t "is")
  case Nil
  then show ?case by simp
next
  case (Cons b bs)
  from Cons.prems(2) obtain t1 i js where
    b: "intern_bytes t b = Some (t1, i)" and r: "intern_all t1 bs = Some (t', js)" and "is": "is = i # js"
    by (auto split: option.splits)
  note one = intern_bytes_ok [OF Cons.prems(1) b]
  from Cons.IH [OF one(1) r] one "is" show ?case by (auto simp: nth_append)
qed

text \<open>
  C21: Interning is injective: in any run of interning operations from a
  well-formed table (the empty one in particular), two handles are equal exactly
  when the texts they were made from are equal, whatever was interned between
  them, and every handle reads back its text.
\<close>

theorem intern_injective:
  assumes "strings_ok t" and "intern_all t bs = Some (t', is)"
    and "m < length bs" and "n < length bs"
  shows "(is ! m = is ! n \<longleftrightarrow> bs ! m = bs ! n) \<and> texts t' ! (is ! m) = bs ! m"
proof -
  from intern_all_ok [OF assms(1,2)] have ok: "strings_ok t'"
    and at: "\<And>k. k < length bs \<Longrightarrow> is ! k < length (texts t') \<and> texts t' ! (is ! k) = bs ! k"
    by (auto simp: list_all2_conv_all_nth)
  show ?thesis
    using at [OF assms(3)] at [OF assms(4)] strings_ok_inj [OF ok] by metis
qed

text \<open>
  C22: A thread whose mirror is any prefix of the shared table, however stale,
  reads for every id of the table the text the table holds, and its mirror stays
  such a prefix.
\<close>

theorem stale_mirror_reads_table:
  assumes "texts t = seen @ rest" and "i < length (texts t)"
  shows "\<exists>seen' rest'. strid_bytes t seen i = Some (seen', texts t ! i) \<and> texts t = seen' @ rest'"
proof (cases "i < length seen")
  case True
  then have "strid_bytes t seen i = Some (seen, texts t ! i)"
    using assms(1) by (simp add: strid_bytes_def nth_append)
  with assms(1) show ?thesis by blast
next
  case False
  then have "strid_bytes t seen i = Some (texts t, texts t ! i)"
    using assms by (simp add: strid_bytes_def nth_opt_def Let_def)
  then show ?thesis by auto
qed

section \<open>Witnesses\<close>

definition demo_store :: "nat store" where
  "demo_store = \<lparr>store_tag = 1, items = []\<rparr>"

theorem handles_stay_valid_witness:
  "store_lookup (fold run_op [Create 9] (fst (create_slice (fst (create demo_store 4)) [5, 6])))
     (snd (create demo_store 4)) = Some 4"
  using handles_stay_valid [OF prod.collapse [symmetric] prod.collapse [symmetric],
      where s = demo_store and v = 4 and vs = "[5, 6]" and ops = "[Create 9]"
        and other = "demo_store\<lparr>store_tag := 2\<rparr>"]
  by (simp add: demo_store_def)

theorem intern_injective_witness:
  "\<exists>t is. intern_all strings_default [''a'', ''b'', ''a''] = Some (t, is) \<and> is ! 0 = is ! 2"
proof -
  obtain t "is" where run: "intern_all strings_default [''a'', ''b'', ''a''] = Some (t, is)"
    by (simp add: intern_bytes_def strings_store_def strings_default_def clamp_chunk_def
        CHUNK_MIN_def CHUNK_MAX_def Let_def)
  have "is ! 0 = is ! 2"
    using intern_injective [OF strings_ok_default run, where m = 0 and n = 2] by simp
  with run show ?thesis by blast
qed

theorem stale_mirror_reads_table_witness:
  "strid_bytes (strings_default\<lparr>texts := [''a'', ''b'']\<rparr>) [''a''] 1 = Some ([''a'', ''b''], ''b'')"
  using stale_mirror_reads_table [of "strings_default\<lparr>texts := [''a'', ''b'']\<rparr>" "[''a'']" "[''b'']" 1]
  by (simp add: strid_bytes_def nth_opt_def)

end
