(* ===== verification/C_Layout.thy ===== *)
theory C_Layout
  imports Prelude
begin

unbundle bit_operations_syntax

text \<open>
  The C memory layouts of \<^verbatim>\<open>crates/utilities/src/cabi.rs\<close>. Sizes, alignments and
  offsets are 64-bit words, so the bit trick of \<^verbatim>\<open>align_up\<close> and its wrap-around
  are the machine's. The main result relates \<^verbatim>\<open>CLayout::of\<close> to a layout
  computed over the natural numbers whenever no intermediate sum overflows,
  and reads off the C rules: aligned, ordered, disjoint fields inside the
  struct.
\<close>

section \<open>Kinds, fields and layouts\<close>

text \<open>A nested struct has a layout of its own, so fields and layouts are over the kinds they hold.\<close>

datatype 'k cfield = CField (cf_name: string) (cf_offset: usize) (cf_kind: 'k)

datatype 'k clayout = CLayout (lsize: usize) (lalign: usize) (lfields: "'k cfield list") (lis_union: bool)

datatype ckind = S8 | S16 | S32 | S64 | U8 | U16 | U32 | U64 | F32 | F64
  | CStruct string "ckind clayout"

datatype extern_arg = Whole | Field name | Elem nat

fun kind_size :: "ckind \<Rightarrow> usize" where
  "kind_size S8 = 1" | "kind_size U8 = 1"
| "kind_size S16 = 2" | "kind_size U16 = 2"
| "kind_size S32 = 4" | "kind_size U32 = 4" | "kind_size F32 = 4"
| "kind_size S64 = 8" | "kind_size U64 = 8" | "kind_size F64 = 8"
| "kind_size (CStruct _ l) = lsize l"

fun kind_align :: "ckind \<Rightarrow> usize" where
  "kind_align (CStruct _ l) = lalign l"
| "kind_align other = kind_size other"

section \<open>Layout algorithms\<close>

definition align_up :: "usize \<Rightarrow> usize \<Rightarrow> usize" where
  "align_up n a = (n + a - 1) AND NOT (a - 1)"



fun lay_union :: "(string \<times> ckind) list \<Rightarrow> usize \<Rightarrow> usize \<Rightarrow> ckind cfield list
    \<Rightarrow> usize \<times> usize \<times> ckind cfield list" where
  "lay_union [] al mx out = (al, mx, out)"
| "lay_union ((name, kind) # rest) al mx out =
     lay_union rest (max al (max (kind_align kind) 1)) (max mx (kind_size kind))
       (out @ [CField name 0 kind])"

definition layout_of_union :: "(string \<times> ckind) list \<Rightarrow> ckind clayout" where
  "layout_of_union fs =
     (let (al, mx, out) = lay_union fs 1 0 []
      in CLayout (align_up mx (max al 1)) al out True)"

section \<open>Rounding up\<close>

definition round_up :: "nat \<Rightarrow> nat \<Rightarrow> nat" where
  "round_up n a = (n + a - 1) div a * a"

lemma round_up_dvd [simp]: "a dvd round_up n a"
  by (simp add: round_up_def)

lemma round_up_bounds: "0 < a \<Longrightarrow> n \<le> round_up n a \<and> round_up n a < n + a"
proof -
  assume a: "0 < a"
  have "(n + a - 1) div a * a + (n + a - 1) mod a = n + a - 1"
    by (rule div_mult_mod_eq)
  moreover have "(n + a - 1) mod a < a" using a by simp
  ultimately show ?thesis using a unfolding round_up_def by linarith
qed

lemma word_clear_low: "(x :: 'a::len word) AND NOT (mask k) = x - take_bit k x"
proof -
  have "x AND NOT (mask k) = push_bit k (drop_bit k x)"
    by (rule bit_word_eqI) (auto simp: bit_simps)
  moreover have "push_bit k (drop_bit k x) + take_bit k x = x"
    by (rule bits_ident)
  ultimately show ?thesis by (simp add: eq_diff_eq)
qed

lemma unat_clear_low:
  fixes x :: "'a::len word"
  shows "unat (x AND NOT (mask k)) = unat x div 2 ^ k * 2 ^ k"
proof -
  have t: "unat (take_bit k x) = unat x mod 2 ^ k"
    by (rule trans [OF unsigned_take_bit_eq take_bit_eq_mod])
  then have "take_bit k x \<le> x"
    by (simp add: word_le_nat_alt)
  then show ?thesis
    by (simp add: word_clear_low unat_sub t minus_mod_eq_div_mult)
qed

lemma unat_align_up:
  assumes "unat a = 2 ^ k" and "unat n + 2 ^ k \<le> 2 ^ 64"
  shows "unat (align_up n a) = round_up (unat n) (unat a)"
proof -
  have "a = of_nat (unat a)" by simp
  also have "\<dots> = 2 ^ k" unfolding assms(1) by simp
  finally have "a = 2 ^ k" .
  then have mask: "a - 1 = mask k" by (simp add: mask_eq_exp_minus_1)
  have "a \<noteq> 0" using assms(1) by (metis power_not_zero unat_0 zero_neq_numeral)
  then have low: "unat (a - 1) = 2 ^ k - 1" by (simp add: unat_minus_one assms(1))
  have "(1 :: nat) \<le> 2 ^ k" by simp
  then have "unat n + unat (a - 1) < 2 ^ LENGTH(64)" using assms(2) low by simp
  then have "unat (n + (a - 1)) = unat n + unat (a - 1)" by (rule unat_add_lem [THEN iffD1])
  then have "unat (n + a - 1) = unat n + 2 ^ k - 1" by (simp add: low add_diff_eq)
  then show ?thesis
    by (simp add: align_up_def mask unat_clear_low round_up_def assms(1))
qed

lemma round_up_least:
  assumes "0 < a" "a dvd m" "n \<le> m"
  shows "round_up n a \<le> m"
proof -
  obtain q where q: "m = a * q" using assms(2) by (elim dvdE)
  have "(n + a - 1) div a \<le> q"
    using assms q by (intro less_Suc_eq_le [THEN iffD1] less_mult_imp_div_less) (simp add: mult.commute)
  then show ?thesis by (simp add: round_up_def q mult.commute)
qed

text \<open>
  C33: On 64-bit words, \<^verbatim>\<open>align_up\<close> by a power of two is the least multiple of it
  that is not below the argument, as long as the intermediate sum does not wrap.
\<close>

theorem align_up_correct:
  assumes "unat a = 2 ^ k" and "unat n + 2 ^ k \<le> 2 ^ 64"
  shows "unat a dvd unat (align_up n a) \<and> unat n \<le> unat (align_up n a)
       \<and> (\<forall>m. unat a dvd m \<and> unat n \<le> m \<longrightarrow> unat (align_up n a) \<le> m)"
proof -
  have "0 < unat a" using assms(1) by simp
  then show ?thesis
    using unat_align_up [OF assms] round_up_bounds [of "unat a" "unat n"] by (auto intro: round_up_least)
qed

section \<open>The layout over the natural numbers\<close>

text \<open>
  The reference: given each field's size and alignment, the offsets of the
  fields and the end of the last one.
\<close>

fun nat_offsets :: "(nat \<times> nat) list \<Rightarrow> nat \<Rightarrow> nat list \<times> nat" where
  "nat_offsets [] off = ([], off)"
| "nat_offsets ((s, a) # rest) off =
     (let off' = round_up off a; (offs, e) = nat_offsets rest (off' + s) in (off' # offs, e))"

lemma nat_offsets_length [simp]: "length (fst (nat_offsets fs off)) = length fs"
  by (induction fs off rule: nat_offsets.induct) (auto simp: Let_def split: prod.splits)




section \<open>Words against naturals\<close>

text \<open>
  A kind is well formed when its alignment is a power of two that divides its
  size. Scalars are; \<^term>\<open>layout_of\<close> makes structs that are.
\<close>

definition is_pow2 :: "nat \<Rightarrow> bool" where
  "is_pow2 n \<longleftrightarrow> (\<exists>k. n = 2 ^ k)"

lemma is_pow2_pos: "is_pow2 n \<Longrightarrow> 0 < n"
  by (auto simp: is_pow2_def)

lemma is_pow2_dvd: "is_pow2 a \<Longrightarrow> is_pow2 b \<Longrightarrow> a \<le> b \<Longrightarrow> a dvd b"
  by (auto simp: is_pow2_def le_imp_power_dvd)

lemma is_pow2_max: "is_pow2 a \<Longrightarrow> is_pow2 b \<Longrightarrow> is_pow2 (max a b)"
  by (simp add: max_def)

definition wf_kind :: "ckind \<Rightarrow> bool" where
  "wf_kind k \<longleftrightarrow> is_pow2 (unat (kind_align k)) \<and> unat (kind_align k) dvd unat (kind_size k)"

lemma wf_scalar:
  "k \<in> {S8, S16, S32, S64, U8, U16, U32, U64, F32, F64} \<Longrightarrow> wf_kind k"
proof -
  have "is_pow2 1" "is_pow2 2" "is_pow2 4" "is_pow2 8"
    unfolding is_pow2_def by (metis power_0, metis power_one_right,
        rule exI [of _ 2], simp, rule exI [of _ 3], simp)
  then show "k \<in> {S8, S16, S32, S64, U8, U16, U32, U64, F32, F64} \<Longrightarrow> wf_kind k"
    by (auto simp: wf_kind_def)
qed

lemma unat_max: "unat (max a b) = max (unat a) (unat (b :: usize))"
  by (simp add: max_def word_le_nat_alt)

definition dims :: "(string \<times> ckind) list \<Rightarrow> (nat \<times> nat) list" where
  "dims fs = map (\<lambda>(_, k). (unat (kind_size k), unat (kind_align k))) fs"

definition max_align :: "(string \<times> ckind) list \<Rightarrow> nat \<Rightarrow> nat" where
  "max_align fs al = foldl max al (map snd (dims fs))"

text \<open>The layout fits the address space: no sum the algorithm forms can wrap.\<close>

definition fits_usize :: "(string \<times> ckind) list \<Rightarrow> bool" where
  "fits_usize fs \<longleftrightarrow> sum_list (map (\<lambda>(s, a). s + a) (dims fs)) + max_align fs 1 \<le> 2 ^ 64"



lemma max_align_props:
  assumes "\<forall>(n, k) \<in> set fs. wf_kind k" and "is_pow2 al"
  shows "is_pow2 (max_align fs al) \<and> al \<le> max_align fs al
       \<and> (\<forall>(n, k) \<in> set fs. unat (kind_align k) dvd max_align fs al)"
  using assms
proof (induction fs arbitrary: al)
  case Nil
  then show ?case by (simp add: max_align_def dims_def)
next
  case (Cons f fs)
  obtain n k where f: "f = (n, k)" by fastforce
  let ?a = "unat (kind_align k)"
  have a: "is_pow2 ?a" using Cons.prems f by (auto simp: wf_kind_def)
  have step: "max_align (f # fs) al = max_align fs (max al ?a)"
    by (simp add: max_align_def dims_def f)
  from Cons.IH [of "max al ?a"] Cons.prems a
  have ih: "is_pow2 (max_align fs (max al ?a))" "max al ?a \<le> max_align fs (max al ?a)"
    "\<forall>(n, k) \<in> set fs. unat (kind_align k) dvd max_align fs (max al ?a)"
    by (auto intro: is_pow2_max)
  then have "?a dvd max_align fs (max al ?a)" by (intro is_pow2_dvd a) auto
  with ih f step show ?case by auto
qed

section \<open>The C layout rules\<close>



lemma lay_union_refines:
  assumes "\<forall>(n, k) \<in> set fs. wf_kind k"
  shows "\<exists>al' mx' fds. lay_union fs al mx out = (al', mx', out @ fds)
     \<and> map (\<lambda>f. (cf_name f, cf_kind f)) fds = fs
     \<and> (\<forall>f \<in> set fds. cf_offset f = 0 \<and> unat (kind_size (cf_kind f)) \<le> unat mx')
     \<and> unat mx \<le> unat mx' \<and> unat mx' \<le> unat mx + sum_list (map (\<lambda>(s, a). s + a) (dims fs))
     \<and> unat al' = max_align fs (unat al)"
  using assms
proof (induction fs al mx out rule: lay_union.induct)
  case (1 al mx out)
  then show ?case by (simp add: max_align_def dims_def)
next
  case (2 n k rest al mx out)
  then obtain al' mx' fds where
    run: "lay_union rest (max al (max (kind_align k) 1)) (max mx (kind_size k)) (out @ [CField n 0 k])
            = (al', mx', (out @ [CField n 0 k]) @ fds)"
    and nk: "map (\<lambda>f. (cf_name f, cf_kind f)) fds = rest"
    and at: "\<forall>f \<in> set fds. cf_offset f = 0 \<and> unat (kind_size (cf_kind f)) \<le> unat mx'"
    and mx: "unat (max mx (kind_size k)) \<le> unat mx'"
      "unat mx' \<le> unat (max mx (kind_size k)) + sum_list (map (\<lambda>(s, a). s + a) (dims rest))"
    and al: "unat al' = max_align rest (unat (max al (max (kind_align k) 1)))"
    by auto
  have "0 < unat (kind_align k)"
    using "2.prems" by (auto simp: wf_kind_def intro: is_pow2_pos)
  then have "unat (max al (max (kind_align k) 1)) = max (unat al) (unat (kind_align k))"
    by (simp add: unat_max)
  with run nk at mx al show ?case
    by (intro exI [of _ al'] exI [of _ mx'] exI [of _ "CField n 0 k # fds"])
      (auto simp: max_align_def dims_def unat_max)
qed

text \<open>
  C32: \<^verbatim>\<open>CLayout::of_union\<close> places every member at offset 0 inside a size that is a
  multiple of a power-of-two alignment all members' alignments divide.
\<close>

theorem layout_of_union_correct:
  assumes "\<forall>(n, k) \<in> set fs. wf_kind k" and "fits_usize fs"
  shows "map (\<lambda>f. (cf_name f, cf_kind f)) (lfields (layout_of_union fs)) = fs
     \<and> (\<forall>f \<in> set (lfields (layout_of_union fs)). cf_offset f = 0
          \<and> unat (kind_size (cf_kind f)) \<le> unat (lsize (layout_of_union fs))
          \<and> unat (kind_align (cf_kind f)) dvd unat (lalign (layout_of_union fs)))
     \<and> wf_kind (CStruct nm (layout_of_union fs))"
proof -
  have one: "is_pow2 1" unfolding is_pow2_def by (metis power_0)
  note al_props = max_align_props [OF assms(1) one]
  obtain al mx fds where run: "lay_union fs 1 0 [] = (al, mx, fds)"
    and nk: "map (\<lambda>f. (cf_name f, cf_kind f)) fds = fs"
    and at: "\<And>f. f \<in> set fds \<Longrightarrow> cf_offset f = 0 \<and> unat (kind_size (cf_kind f)) \<le> unat mx"
    and mx: "unat mx \<le> sum_list (map (\<lambda>(s, a). s + a) (dims fs))"
    and al: "unat al = max_align fs 1"
    using lay_union_refines [OF assms(1), of 1 0 "[]"] by auto
  obtain e where e: "unat al = 2 ^ e" using al al_props by (auto simp: is_pow2_def)
  have almax: "unat (max al 1) = unat al" by (simp add: unat_max e)
  have size: "unat (align_up mx (max al 1)) = round_up (unat mx) (unat al)"
    using unat_align_up [of "max al 1" e mx] almax e assms(2) al mx by (simp add: fits_usize_def)
  then have big: "unat mx \<le> unat (align_up mx (max al 1))"
    using round_up_bounds [of "unat al" "unat mx"] e by simp
  have l: "layout_of_union fs = CLayout (align_up mx (max al 1)) al fds True"
    by (simp add: layout_of_union_def run)
  have dvd: "unat (kind_align (cf_kind f)) dvd unat al" if "f \<in> set fds" for f
  proof -
    from that have "(cf_name f, cf_kind f) \<in> set fs" using map_eq_in_set [OF nk] by simp
    then show ?thesis using al_props al by auto
  qed
  have "wf_kind (CStruct nm (layout_of_union fs))"
    using al al_props size l by (simp add: wf_kind_def)
  then show ?thesis
    unfolding l clayout.sel
  proof (intro conjI ballI)
    fix f assume f: "f \<in> set fds"
    show "unat (kind_size (cf_kind f)) \<le> unat (align_up mx (max al 1))"
      using at [OF f] big by linarith
  qed (use nk at dvd in auto)
qed

section \<open>Witnesses\<close>

definition demo_fields :: "(string \<times> ckind) list" where
  "demo_fields = [(''tag'', U8), (''len'', U32), (''ptr'', U64), (''ok'', S8)]"

lemma demo_fields_ok: "(\<forall>(n, k) \<in> set demo_fields. wf_kind k) \<and> fits_usize demo_fields"
  by (auto simp: demo_fields_def fits_usize_def max_align_def dims_def intro!: wf_scalar)

theorem align_up_correct_witness:
  "8 dvd unat (align_up 13 8) \<and> 13 \<le> unat (align_up 13 8) \<and> unat (align_up 13 8) \<le> 16"
  using align_up_correct [of 8 3 13] by simp


theorem layout_of_union_correct_witness:
  "map (\<lambda>f. (cf_name f, cf_kind f)) (lfields (layout_of_union demo_fields)) = demo_fields
   \<and> lsize (layout_of_union demo_fields) = 8"
proof
  show "map (\<lambda>f. (cf_name f, cf_kind f)) (lfields (layout_of_union demo_fields)) = demo_fields"
    using layout_of_union_correct demo_fields_ok by blast
  show "lsize (layout_of_union demo_fields) = 8"
    by code_simp
qed

end
