(* ===== verification/Usefulness.thy ===== *)
theory Usefulness
  imports Prelude "HOL-Library.Monad_Syntax"
begin

text \<open>
  Exhaustiveness and redundancy of matches, \<^verbatim>\<open>crates/frontend/src/typing/usefulness.rs\<close>:
  patterns over a small algebra of constructors, the column normalization, and the search
  for a value that a vector of patterns matches and no earlier row does. An index out of
  range and the \<^verbatim>\<open>unreachable!\<close> arm panic, so the search is an option; \<^verbatim>\<open>mixed\<close>, which the
  source passes by reference, is threaded. The bounds of an \<^verbatim>\<open>i128\<close> are far outside those of
  the integer types, so ranges are integers.
\<close>

section \<open>Patterns\<close>

datatype product_kind = StructKind name | TupleKind | RecordKind | TensorKind nat

datatype ctor =
    Variant (union_of: name) nat "(name \<times> nat) list"
  | CBool bool
  | SeqEmpty
  | SeqMore
  | Lit string
  | CInt int int "int \<times> int"
  | CProduct product_kind "name list"

datatype dpat = Wild | Opaque | DCtor ctor "dpat list" | DProduct product_kind "(name \<times> dpat) list"

definition SEQ_UNION :: "name \<times> name \<times> name" where
  "SEQ_UNION = (''List'', ''Nil'', ''Cons'')"

fun arity :: "ctor \<Rightarrow> nat option" where
  "arity (Variant _ index siblings) = map_option snd (nth_opt siblings index)"
| "arity (CBool _) = Some 0"
| "arity SeqEmpty = Some 0"
| "arity (Lit _) = Some 0"
| "arity (CInt _ _ _) = Some 0"
| "arity SeqMore = Some 2"
| "arity (CProduct _ fs) = Some (length fs)"

fun same :: "ctor \<Rightarrow> ctor \<Rightarrow> bool" where
  "same (Variant u i _) (Variant v j _) \<longleftrightarrow> u = v \<and> i = j"
| "same (CBool a) (CBool b) \<longleftrightarrow> a = b"
| "same SeqEmpty SeqEmpty \<longleftrightarrow> True"
| "same SeqMore SeqMore \<longleftrightarrow> True"
| "same (Lit a) (Lit b) \<longleftrightarrow> a = b"
| "same (CInt a b _) (CInt c d _) \<longleftrightarrow> a = c \<and> b = d"
| "same (CProduct _ _) (CProduct _ _) \<longleftrightarrow> True"
| "same _ _ \<longleftrightarrow> False"

fun same_family :: "ctor \<Rightarrow> ctor \<Rightarrow> bool" where
  "same_family (Variant u _ _) (Variant v _ _) \<longleftrightarrow> u = v"
| "same_family (CBool _) (CBool _) \<longleftrightarrow> True"
| "same_family (Lit _) (Lit _) \<longleftrightarrow> True"
| "same_family (CInt _ _ _) (CInt _ _ _) \<longleftrightarrow> True"
| "same_family SeqEmpty SeqEmpty \<longleftrightarrow> True"
| "same_family SeqEmpty SeqMore \<longleftrightarrow> True"
| "same_family SeqMore SeqEmpty \<longleftrightarrow> True"
| "same_family SeqMore SeqMore \<longleftrightarrow> True"
| "same_family (CProduct _ _) (CProduct _ _) \<longleftrightarrow> True"
| "same_family _ _ \<longleftrightarrow> False"

fun signature :: "ctor \<Rightarrow> ctor list option" where
  "signature (Variant u _ siblings) = Some (map (\<lambda>i. Variant u i siblings) [0..<length siblings])"
| "signature (CBool _) = Some [CBool True, CBool False]"
| "signature SeqEmpty = Some [SeqEmpty, SeqMore]"
| "signature SeqMore = Some [SeqEmpty, SeqMore]"
| "signature (CProduct k fs) = Some [CProduct k fs]"
| "signature (Lit _) = None"
| "signature (CInt _ _ _) = None"

section \<open>Columns\<close>

text \<open>A row with its first column apart; indexing an empty row panics.\<close>

type_synonym drow = "dpat \<times> dpat list"

fun first_column :: "dpat list list \<Rightarrow> drow list option" where
  "first_column [] = Some []"
| "first_column ([] # rows) = None"
| "first_column ((p # ps) # rows) = map_option ((#) (p, ps)) (first_column rows)"

fun seq_variant_clash :: "ctor \<Rightarrow> ctor \<Rightarrow> name option" where
  "seq_variant_clash (Variant u _ _) SeqEmpty = Some u"
| "seq_variant_clash (Variant u _ _) SeqMore = Some u"
| "seq_variant_clash SeqEmpty (Variant u _ _) = Some u"
| "seq_variant_clash SeqMore (Variant u _ _) = Some u"
| "seq_variant_clash _ _ = None"

text \<open>The facts the first loop of \<^verbatim>\<open>normalize_column\<close> gathers: field names, the first product kind, the first variant of the list union.\<close>

definition column_names :: "dpat list \<Rightarrow> name list" where
  "column_names ps = fold (\<lambda>p names. case p of
       DProduct _ fs \<Rightarrow> fold (\<lambda>(n, _) ns. if n \<in> set ns then ns else ns @ [n]) fs names
     | _ \<Rightarrow> names) ps []"

definition column_kind :: "dpat list \<Rightarrow> product_kind option" where
  "column_kind ps = (case List.find (\<lambda>p. case p of DProduct _ _ \<Rightarrow> True | _ \<Rightarrow> False) ps of
     Some (DProduct k _) \<Rightarrow> Some k | _ \<Rightarrow> None)"

definition column_list :: "dpat list \<Rightarrow> ctor option" where
  "column_list ps = (case List.find (\<lambda>p. case p of DCtor (Variant u _ _) _ \<Rightarrow> u = fst SEQ_UNION | _ \<Rightarrow> False) ps of
     Some (DCtor c _) \<Rightarrow> Some c | _ \<Rightarrow> None)"

fun index_where :: "('a \<Rightarrow> bool) \<Rightarrow> 'a list \<Rightarrow> nat option" where
  "index_where P [] = None"
| "index_where P (x # xs) = (if P x then Some 0 else map_option Suc (index_where P xs))"

definition list_step :: "ctor option \<Rightarrow> name \<Rightarrow> dpat list \<Rightarrow> dpat \<Rightarrow> dpat" where
  "list_step lst tag args p =
     (case lst of
        Some (Variant u _ siblings) \<Rightarrow>
          (case index_where (\<lambda>(t, n). t = tag \<and> n = length args) siblings of
             Some i \<Rightarrow> DCtor (Variant u i siblings) args
           | None \<Rightarrow> Opaque)
      | _ \<Rightarrow> p)"

text \<open>The closure \<^verbatim>\<open>fix\<close>; a product always finds the kind of its column.\<close>

fun fix_head :: "name list \<Rightarrow> product_kind option \<Rightarrow> ctor option \<Rightarrow> dpat \<Rightarrow> dpat option" where
  "fix_head names kind lst (DProduct k fs) =
     map_option (\<lambda>k. DCtor (CProduct k names) (map (\<lambda>n. case map_of fs n of None \<Rightarrow> Wild | Some p \<Rightarrow> p) names)) kind"
| "fix_head names kind lst (DCtor SeqEmpty args) = Some (list_step lst (fst (snd SEQ_UNION)) args (DCtor SeqEmpty args))"
| "fix_head names kind lst (DCtor SeqMore args) = Some (list_step lst (snd (snd SEQ_UNION)) args (DCtor SeqMore args))"
| "fix_head names kind lst p = Some p"

definition column_family :: "dpat list \<Rightarrow> ctor option" where
  "column_family ps = (case List.find (\<lambda>p. case p of DCtor _ _ \<Rightarrow> True | _ \<Rightarrow> False) ps of
     Some (DCtor c _) \<Rightarrow> Some c | _ \<Rightarrow> None)"

text \<open>The closure \<^verbatim>\<open>fits\<close>, with the union it may note.\<close>

fun fits :: "ctor option \<Rightarrow> dpat \<Rightarrow> name option \<Rightarrow> bool \<times> name option" where
  "fits (Some f) (DCtor c _) mixed =
     (if same_family c f then (True, mixed)
      else (False, case mixed of None \<Rightarrow> seq_variant_clash c f | Some u \<Rightarrow> Some u))"
| "fits _ Opaque mixed = (False, mixed)"
| "fits _ _ mixed = (True, mixed)"

fun keep_fitting :: "ctor option \<Rightarrow> drow list \<Rightarrow> name option \<Rightarrow> drow list \<times> name option" where
  "keep_fitting family [] mixed = ([], mixed)"
| "keep_fitting family (r # rows) mixed =
     (let (ok, m1) = fits family (fst r) mixed; (kept, m2) = keep_fitting family rows m1
      in (if ok then r # kept else kept, m2))"

definition normalize_column :: "drow list \<Rightarrow> dpat \<Rightarrow> name option \<Rightarrow> (drow list \<times> dpat \<times> name option) option" where
  "normalize_column rows head mixed = do {
     let all = map fst rows @ [head];
     let fix = fix_head (column_names all) (column_kind all) (column_list all);
     rows1 \<leftarrow> those (map (\<lambda>(p, ps). map_option (\<lambda>q. (q, ps)) (fix p)) rows);
     head1 \<leftarrow> fix head;
     let family = column_family (map fst rows1 @ [head1]);
     let (rows2, m1) = keep_fitting family rows1 mixed;
     let (ok, m2) = fits family head1 m1;
     Some (rows2, if ok then head1 else Wild, m2)
   }"

section \<open>Integer columns\<close>

definition int_domain :: "dpat list \<Rightarrow> (int \<times> int) option" where
  "int_domain ps = (case List.find (\<lambda>p. case p of DCtor (CInt _ _ _) _ \<Rightarrow> True | _ \<Rightarrow> False) ps of
     Some (DCtor (CInt _ _ d) _) \<Rightarrow> Some d | _ \<Rightarrow> None)"

definition int_ranges :: "drow list \<Rightarrow> (int \<times> int) list" where
  "int_ranges rows = List.map_filter (\<lambda>r. case fst r of DCtor (CInt lo hi _) _ \<Rightarrow> Some (lo, hi) | _ \<Rightarrow> None) rows"

definition segments :: "int \<times> int \<Rightarrow> (int \<times> int) list \<Rightarrow> (int \<times> int) list" where
  "segments span ranges = (case span of (lo, hi) \<Rightarrow>
     let cuts = remdups_adj (sort ([lo, hi + 1] @ concat (map (\<lambda>(a, b). filter (\<lambda>c. lo < c \<and> c \<le> hi) [a, b + 1]) ranges)))
     in map (\<lambda>(x, y). (x, y - 1)) (zip cuts (tl cuts)))"

definition segment_order :: "int \<times> int \<Rightarrow> int \<times> int \<Rightarrow> nat" where
  "segment_order d seg =
     (case (fst seg = fst d, snd seg = snd d) of (False, False) \<Rightarrow> 0 | (False, True) \<Rightarrow> 1 | _ \<Rightarrow> 2)"

definition rows_on_segment :: "drow list \<Rightarrow> int \<times> int \<Rightarrow> dpat list list" where
  "rows_on_segment rows seg = map snd (filter (\<lambda>r. case fst r of
       DCtor (CInt lo hi _) _ \<Rightarrow> lo \<le> fst seg \<and> snd seg \<le> hi | _ \<Rightarrow> True) rows)"

section \<open>Specialization\<close>

fun specialize :: "drow list \<Rightarrow> ctor \<Rightarrow> dpat list list option" where
  "specialize [] c = Some []"
| "specialize ((p, ps) # rows) c = do {
     rest \<leftarrow> specialize rows c;
     (case p of
        DCtor d args \<Rightarrow> Some (if same d c then (args @ ps) # rest else rest)
      | _ \<Rightarrow> do { n \<leftarrow> arity c; Some ((replicate n Wild @ ps) # rest) })
   }"

definition rebuild :: "ctor \<Rightarrow> dpat list \<Rightarrow> dpat list option" where
  "rebuild c w = do {
     n \<leftarrow> arity c;
     if n \<le> length w then Some (DCtor c (take n w) # drop n w) else None
   }"

definition default_rows :: "drow list \<Rightarrow> dpat list list" where
  "default_rows rows = map snd (filter (\<lambda>r. fst r = Wild) rows)"

definition head_ctors :: "drow list \<Rightarrow> ctor list" where
  "head_ctors rows = List.map_filter (\<lambda>r. case fst r of DCtor c _ \<Rightarrow> Some c | _ \<Rightarrow> None) rows"

definition full_signature :: "ctor list \<Rightarrow> ctor list option" where
  "full_signature heads = (case heads of [] \<Rightarrow> None | c # _ \<Rightarrow> signature c)"

definition missing_ctors :: "ctor list \<Rightarrow> ctor list" where
  "missing_ctors heads = (case full_signature heads of
     None \<Rightarrow> [] | Some sig \<Rightarrow> filter (\<lambda>c. \<not> list_ex (\<lambda>h. same h c) heads) sig)"

text \<open>A search result: the witness, if any, and the union noted; a panic is \<open>None\<close>.\<close>

type_synonym search = "(dpat list option \<times> name option) option"

definition on_witness :: "(dpat list \<Rightarrow> dpat list option) \<Rightarrow> search \<Rightarrow> search" where
  "on_witness f r = do {
     (w, m) \<leftarrow> r;
     (case w of None \<Rightarrow> Some (None, m) | Some ps \<Rightarrow> map_option (\<lambda>qs. (Some qs, m)) (f ps))
   }"

text \<open>The loops that return the first witness.\<close>

fun try_each :: "('a \<Rightarrow> name option \<Rightarrow> search) \<Rightarrow> 'a list \<Rightarrow> name option \<Rightarrow> search" where
  "try_each f [] mixed = Some (None, mixed)"
| "try_each f (x # xs) mixed = do {
     (w, m) \<leftarrow> f x mixed;
     (case w of None \<Rightarrow> try_each f xs m | Some _ \<Rightarrow> Some (w, m))
   }"

lemma try_each_cong [fundef_cong]:
  assumes "xs = ys" "m = m'" "\<And>x m. x \<in> set ys \<Longrightarrow> f x m = g x m"
  shows "try_each f xs m = try_each g ys m'"
  using assms(3) unfolding assms(1,2) by (induction ys arbitrary: m') (auto split: option.splits bind_splits)

lemma on_witness_cong [fundef_cong]: "r = r' \<Longrightarrow> (\<And>ps m. r' = Some (Some ps, m) \<Longrightarrow> f ps = g ps) \<Longrightarrow> on_witness f r = on_witness g r'"
  by (auto simp: on_witness_def split: bind_splits option.splits)

section \<open>Sizes\<close>

fun psize :: "dpat \<Rightarrow> nat" where
  "psize Wild = 0"
| "psize Opaque = 0"
| "psize (DCtor _ args) = 1 + sum_list (map psize args)"
| "psize (DProduct _ fs) = 1 + sum_list (map (\<lambda>(_, p). psize p) fs)"

abbreviation psizes :: "dpat list \<Rightarrow> nat" where
  "psizes ps \<equiv> sum_list (map psize ps)"

definition rsize :: "dpat list list \<Rightarrow> nat" where
  "rsize rows = sum_list (map psizes rows)"

definition row_of :: "drow \<Rightarrow> dpat list" where
  "row_of r = fst r # snd r"

lemma rsize_simps [simp]: "rsize [] = 0" "rsize (r # rows) = psizes r + rsize rows"
  by (simp_all add: rsize_def)

lemma sum_zeros [simp]: "sum_list (replicate n (0 :: nat)) = 0"
  by (simp add: sum_list_replicate)

lemma first_column_rows: "first_column rows = Some cols \<Longrightarrow> rows = map row_of cols"
  by (induction rows arbitrary: cols rule: first_column.induct) (auto simp: row_of_def)

lemma fold_names_distinct: "distinct ns \<Longrightarrow> distinct (fold (\<lambda>(n, _) ns. if n \<in> set ns then ns else ns @ [n]) fs ns)"
  by (induction fs arbitrary: ns) auto

lemma column_names_distinct: "distinct (column_names ps)"
proof -
  have "distinct ns \<Longrightarrow> distinct (fold (\<lambda>p names. case p of
       DProduct _ fs \<Rightarrow> fold (\<lambda>(n, _) ns. if n \<in> set ns then ns else ns @ [n]) fs names
     | _ \<Rightarrow> names) ps ns)" for ns
    by (induction ps arbitrary: ns) (auto split: dpat.split intro: fold_names_distinct)
  then show ?thesis by (simp add: column_names_def)
qed

lemma named_size:
  "distinct names \<Longrightarrow> (\<Sum>n\<leftarrow>names. psize (case map_of fs n of None \<Rightarrow> Wild | Some p \<Rightarrow> p)) \<le> (\<Sum>(_, p)\<leftarrow>fs. psize p)"
proof (induction fs arbitrary: names)
  case (Cons f fs)
  obtain k p where f: "f = (k, p)" by force
  have cut: "(\<Sum>n\<leftarrow>names. psize (case map_of (f # fs) n of None \<Rightarrow> Wild | Some p \<Rightarrow> p))
      \<le> psize p + (\<Sum>n\<leftarrow>removeAll k names. psize (case map_of fs n of None \<Rightarrow> Wild | Some p \<Rightarrow> p))"
    using Cons.prems unfolding f by (induction names) (auto simp: removeAll_id intro: sum_list_mono)
  have "distinct (removeAll k names)" using Cons.prems by (rule distinct_removeAll)
  from Cons.IH [OF this] cut show ?case unfolding f by simp
qed simp

lemma list_step_size: "psize (list_step lst tag args p) \<le> max (psize p) (1 + psizes args)"
  by (auto simp: list_step_def split: option.split ctor.split)

lemma fix_head_size:
  assumes "fix_head names kind lst p = Some q" "distinct names"
  shows "psize q \<le> psize p"
proof (cases p)
  case (DProduct k fs)
  then show ?thesis using assms named_size [OF assms(2), of fs] by (auto simp: comp_def)
next
  case (DCtor c args)
  then show ?thesis using assms(1) list_step_size [of lst "fst (snd SEQ_UNION)" args p] list_step_size [of lst "snd (snd SEQ_UNION)" args p]
    by (cases c) auto
qed (use assms in auto)

lemma fixed_rows_size:
  assumes "those (map (\<lambda>(p, ps). map_option (\<lambda>q. (q, ps)) (fix_head names kind lst p)) rows) = Some rows1" "distinct names"
  shows "rsize (map row_of rows1) \<le> rsize (map row_of rows)"
  using assms(1)
proof (induction rows arbitrary: rows1)
  case (Cons r rows)
  obtain p ps where r: "r = (p, ps)" by force
  obtain q rest where q: "fix_head names kind lst p = Some q"
    and rest: "those (map (\<lambda>(p, ps). map_option (\<lambda>q. (q, ps)) (fix_head names kind lst p)) rows) = Some rest"
    and rows1: "rows1 = (q, ps) # rest"
    using Cons.prems unfolding r by (auto split: option.splits)
  show ?case using Cons.IH [OF rest] fix_head_size [OF q assms(2)] unfolding rows1 r by (simp add: row_of_def)
qed simp

lemma fits_any: "fst (fits family p m) = fst (fits family p None)"
  by (cases "(family, p, m)" rule: fits.cases) auto

lemma keep_fitting_rows: "fst (keep_fitting family rows m) = filter (\<lambda>r. fst (fits family (fst r) None)) rows"
proof (induction rows arbitrary: m)
  case (Cons r rows)
  show ?case using fits_any [of family "fst r" m] Cons.IH [of "snd (fits family (fst r) m)"]
    by (cases "fits family (fst r) m") (auto simp: Let_def split: prod.splits)
qed simp

lemma rsize_filter: "rsize (map row_of (filter P rows)) \<le> rsize (map row_of rows)"
  by (induction rows) auto

lemma normalize_size:
  assumes "normalize_column rows head m = Some (rs, h, m')"
  shows "rsize (map row_of rs) \<le> rsize (map row_of rows)" "psize h \<le> psize head"
proof -
  let ?all = "map fst rows @ [head]"
  let ?fix = "fix_head (column_names ?all) (column_kind ?all) (column_list ?all)"
  obtain rows1 head1 where
    rows1: "those (map (\<lambda>(p, ps). map_option (\<lambda>q. (q, ps)) (?fix p)) rows) = Some rows1" and
    head1: "?fix head = Some head1" and
    rs: "rs = fst (keep_fitting (column_family (map fst rows1 @ [head1])) rows1 m)" and
    h: "h = head1 \<or> h = Wild"
    using assms by (auto simp: normalize_column_def Let_def split: bind_splits prod.splits if_splits)
  show "rsize (map row_of rs) \<le> rsize (map row_of rows)"
    using fixed_rows_size [OF rows1 column_names_distinct] rsize_filter unfolding rs keep_fitting_rows
    by (meson order_trans)
  show "psize h \<le> psize head" using fix_head_size [OF head1 column_names_distinct] h by auto
qed

lemma specialize_size:
  assumes "specialize rows c = Some spec"
  shows "rsize spec + length (head_ctors rows) \<le> rsize (map row_of rows)"
  using assms
proof (induction rows c arbitrary: spec rule: specialize.induct)
  case (2 p ps rows c)
  from "2.prems" obtain rest where rest: "specialize rows c = Some rest" by (auto split: bind_splits)
  show ?case
    using "2.IH" [OF rest] "2.prems" rest
    by (cases p) (auto simp: head_ctors_def row_of_def map_filter_simps split: bind_splits if_splits)
qed (simp add: head_ctors_def map_filter_simps)

lemma snd_rows_size: "rsize (map snd (filter P rows)) \<le> rsize (map row_of rows)"
  by (induction rows) (auto simp: row_of_def)

definition head_range :: "dpat \<Rightarrow> int \<times> int \<Rightarrow> int \<times> int" where
  "head_range head d = (case head of DCtor (CInt lo hi _) _ \<Rightarrow> (lo, hi) | _ \<Rightarrow> d)"

definition missing_head :: "ctor list \<Rightarrow> dpat option" where
  "missing_head heads = (case missing_ctors heads of
     [] \<Rightarrow> Some Wild | c # _ \<Rightarrow> map_option (\<lambda>n. DCtor c (replicate n Wild)) (arity c))"

lemma smaller_columns:
  assumes "first_column rows = Some cols" "normalize_column cols p mixed = Some (rs, head, m)"
  shows "rsize (map row_of rs) + psize head \<le> rsize rows + psize p"
  using first_column_rows [OF assms(1)] normalize_size [OF assms(2)] by simp

lemma default_rows_size: "rsize (map row_of rs) + k \<le> n \<Longrightarrow> rsize (default_rows rs) \<noteq> n \<Longrightarrow> rsize (default_rows rs) < n"
  using snd_rows_size [of "\<lambda>r. fst r = Wild" rs] by (simp add: default_rows_def)

lemma segment_rows_size: "rsize (map row_of rs) + k \<le> n \<Longrightarrow> rsize (rows_on_segment rs seg) \<noteq> n \<Longrightarrow> rsize (rows_on_segment rs seg) < n"
  using snd_rows_size [of _ rs] unfolding rows_on_segment_def by (meson add_leD1 order_trans order_le_neq_trans)

lemma specialize_less:
  "specialize rs c = Some spec \<Longrightarrow> Suc (rsize (map row_of rs) + k) \<le> n \<Longrightarrow> rsize spec + k < n"
  using specialize_size [of rs c spec] by simp

lemma specialize_smaller:
  "specialize rs c = Some spec \<Longrightarrow> full_signature (head_ctors rs) = Some sig \<Longrightarrow> rsize (map row_of rs) \<le> n \<Longrightarrow> rsize spec < n"
  using specialize_size [of rs c spec] by (cases "head_ctors rs") (auto simp: full_signature_def)

text \<open>\<^verbatim>\<open>useful\<close>, with \<^verbatim>\<open>useful_ints\<close> as its case of integer columns.\<close>

function useful :: "dpat list list \<Rightarrow> dpat list \<Rightarrow> name option \<Rightarrow> search" where
  "useful rows [] mixed = Some (if rows = [] then Some [] else None, mixed)"
| "useful rows (p # rest) mixed =
     Option.bind (first_column rows) (\<lambda>cols.
     Option.bind (normalize_column cols p mixed) (\<lambda>(rs, head, m).
       case int_domain (map fst rs @ [head]) of
         Some d \<Rightarrow>
           try_each (\<lambda>seg m. on_witness (\<lambda>w. Some (DCtor (CInt (fst seg) (snd seg) d) [] # w))
               (useful (rows_on_segment rs seg) rest m))
             (sort_key (segment_order d) (segments (head_range head d) (int_ranges rs))) m
       | None \<Rightarrow>
           (case head of
              DCtor c args \<Rightarrow>
                Option.bind (specialize rs c) (\<lambda>spec. on_witness (rebuild c) (useful spec (args @ rest) m))
            | DProduct _ _ \<Rightarrow> None
            | _ \<Rightarrow>
                let heads = head_ctors rs in
                if full_signature heads \<noteq> None \<and> missing_ctors heads = [] then
                  try_each (\<lambda>c m.
                      Option.bind (specialize rs c) (\<lambda>spec.
                      Option.bind (arity c) (\<lambda>n.
                        on_witness (rebuild c) (useful spec (replicate n Wild @ rest) m))))
                    (the (full_signature heads)) m
                else
                  Option.bind (missing_head heads) (\<lambda>first.
                    on_witness (\<lambda>w. Some (first # w)) (useful (default_rows rs) rest m)))))"
  by pat_completeness auto

termination
  by (relation "inv_image (less_than <*lex*> less_than) (\<lambda>(rows, v, _). (rsize rows + psizes v, length v))")
    (auto dest!: smaller_columns dest: specialize_smaller specialize_less
      intro: segment_rows_size default_rows_size [where k = 0])

section \<open>Checking a match\<close>

datatype dead = Arm nat | Alt nat nat

record coverage_report =
  missing :: "dpat option"
  mixed_union :: "name option"
  unreachable :: "dead list"

text \<open>The loop over the alternatives of an arm: the dead ones, and the rows seen after them.\<close>

fun check_alts :: "dpat list list \<Rightarrow> nat \<Rightarrow> dpat list \<Rightarrow> (nat list \<times> dpat list list) option" where
  "check_alts seen j [] = Some ([], seen)"
| "check_alts seen j (p # ps) = do {
     (w, _) \<leftarrow> useful seen [p] None;
     (later, seen') \<leftarrow> check_alts (seen @ [[p]]) (j + 1) ps;
     Some (if w = None then j # later else later, seen')
   }"

fun check_arms :: "dpat list list \<Rightarrow> nat \<Rightarrow> (dpat list \<times> bool) list \<Rightarrow> (dead list \<times> dpat list list) option" where
  "check_arms rows i [] = Some ([], rows)"
| "check_arms rows i ((alts, guarded) # arms) = do {
     (gone, seen) \<leftarrow> check_alts rows 0 alts;
     (later, final) \<leftarrow> check_arms (if guarded then rows else seen) (i + 1) arms;
     Some ((if length gone = length alts then [Arm i] else map (Alt i) gone) @ later, final)
   }"

definition check :: "(dpat list \<times> bool) list \<Rightarrow> coverage_report option" where
  "check arms = do {
     (gone, rows) \<leftarrow> check_arms [] 0 arms;
     (w, m) \<leftarrow> useful rows [Wild] None;
     first \<leftarrow> (case w of None \<Rightarrow> Some None | Some [] \<Rightarrow> None | Some (p # _) \<Rightarrow> Some (Some p));
     Some \<lparr>missing = first, mixed_union = m, unreachable = gone\<rparr>
   }"

end
