(* ===== verification/Usefulness_Sound.thy ===== *)
theory Usefulness_Sound
  imports Usefulness
begin

text \<open>
  What the coverage check promises. Values, types and the matching of a value by a pattern
  are defined here, apart from the code: types are given by their shape and by the element
  type of their sequence view, and the view of a value is user code, so it is a parameter.
  An opaque pattern may or may not match, so a pattern matches a value possibly
  (\<open>matches T True\<close>) or certainly (\<open>matches T False\<close>). Values are finite.
\<close>

section \<open>Values and types\<close>

datatype dval =
    VVariant name nat "dval list"
  | VBool bool
  | VInt int
  | VLit string
  | VProd "(name \<times> dval) list"

datatype 'ty shape =
    Union name "(name \<times> 'ty list) list"
  | Bools
  | Ints "int \<times> int"
  | ProductOf "(name \<times> 'ty) list"
  | Plain

record 'ty types =
  shape :: "'ty \<Rightarrow> 'ty shape"
  elem :: "'ty \<Rightarrow> 'ty option"
  seqview :: "dval \<Rightarrow> (dval \<times> dval) option"

inductive has_ty :: "'ty types \<Rightarrow> dval \<Rightarrow> 'ty \<Rightarrow> bool" for T :: "'ty types" where
  variant: "shape T t = Union u vs \<Longrightarrow> i < length vs \<Longrightarrow> list_all2 (has_ty T) ws (snd (vs ! i)) \<Longrightarrow> has_ty T (VVariant u i ws) t"
| bool: "shape T t = Bools \<Longrightarrow> has_ty T (VBool b) t"
| int: "shape T t = Ints (lo, hi) \<Longrightarrow> lo \<le> n \<Longrightarrow> n \<le> hi \<Longrightarrow> has_ty T (VInt n) t"
| product: "shape T t = ProductOf fs \<Longrightarrow> map fst g = map fst fs \<Longrightarrow> list_all2 (has_ty T) (map snd g) (map snd fs) \<Longrightarrow> has_ty T (VProd g) t"
| plain: "shape T t = Plain \<Longrightarrow> has_ty T (VLit s) t"

inductive_cases has_ty_cases: "has_ty T v t"
inductive_simps has_ty_variant [simp]: "has_ty T (VVariant u i ws) t"

text \<open>
  What the check relies on: field names are distinct, a view yields an element and a rest of
  the viewed type, and the one union that shares a column with sequence steps is CORE's
  \<^verbatim>\<open>List\<close>, whose view is \<^verbatim>\<open>Empty\<close> on \<^verbatim>\<open>Nil\<close> and \<^verbatim>\<open>More\<close> on \<^verbatim>\<open>Cons\<close>.
\<close>

definition types_ok :: "'ty types \<Rightarrow> bool" where
  "types_ok T \<longleftrightarrow>
     (\<forall>t fs. shape T t = ProductOf fs \<longrightarrow> distinct (map fst fs)) \<and>
     (\<forall>v t e h r. has_ty T v t \<longrightarrow> elem T t = Some e \<longrightarrow> seqview T v = Some (h, r) \<longrightarrow> has_ty T h e \<and> has_ty T r t) \<and>
     (\<forall>t vs. shape T t = Union ''List'' vs \<longrightarrow>
        (\<exists>e. elem T t = Some e \<and> vs = [(''Nil'', []), (''Cons'', [e, t])])) \<and>
     seqview T (VVariant ''List'' 0 []) = None \<and>
     (\<forall>h r. seqview T (VVariant ''List'' 1 [h, r]) = Some (h, r))"

section \<open>Matching\<close>

text \<open>The parts of a value under a constructor, if it is built by it.\<close>

fun ctor_vals :: "'ty types \<Rightarrow> ctor \<Rightarrow> dval \<Rightarrow> dval list option" where
  "ctor_vals T (Variant u i _) v = (case v of VVariant w j vs \<Rightarrow> if u = w \<and> i = j then Some vs else None | _ \<Rightarrow> None)"
| "ctor_vals T (CBool b) v = (if v = VBool b then Some [] else None)"
| "ctor_vals T SeqEmpty v = (case seqview T v of None \<Rightarrow> Some [] | Some _ \<Rightarrow> None)"
| "ctor_vals T SeqMore v = (case seqview T v of None \<Rightarrow> None | Some (h, r) \<Rightarrow> Some [h, r])"
| "ctor_vals T (Lit s) v = (if v = VLit s then Some [] else None)"
| "ctor_vals T (CInt lo hi _) v = (case v of VInt n \<Rightarrow> if lo \<le> n \<and> n \<le> hi then Some [] else None | _ \<Rightarrow> None)"
| "ctor_vals T (CProduct _ names) v = (case v of VProd g \<Rightarrow> those (map (map_of g) names) | _ \<Rightarrow> None)"

lemma zip_size [termination_simp]: "(a, b) \<in> set (zip xs ys) \<Longrightarrow> size a < Suc (size_list size xs)"
  by (auto dest!: set_zip_leftD simp: less_Suc_eq_le size_list_estimation')

fun matches :: "'ty types \<Rightarrow> bool \<Rightarrow> dpat \<Rightarrow> dval \<Rightarrow> bool" where
  "matches T b Wild v \<longleftrightarrow> True"
| "matches T b Opaque v \<longleftrightarrow> b"
| "matches T b (DCtor c args) v \<longleftrightarrow>
     (case ctor_vals T c v of
        None \<Rightarrow> False
      | Some ws \<Rightarrow> length args = length ws \<and> list_all (\<lambda>(p, w). matches T b p w) (zip args ws))"
| "matches T b (DProduct k fs) v \<longleftrightarrow>
     (case v of
        VProd g \<Rightarrow> list_all (\<lambda>(n, p). case map_of g n of None \<Rightarrow> False | Some w \<Rightarrow> matches T b p w) fs
      | _ \<Rightarrow> False)"

section \<open>Well-typed patterns\<close>

fun ctor_types :: "'ty types \<Rightarrow> ctor \<Rightarrow> 'ty \<Rightarrow> 'ty list option" where
  "ctor_types T (Variant u i siblings) t =
     (case shape T t of
        Union w vs \<Rightarrow> if u = w \<and> siblings = map (\<lambda>(n, ts). (n, length ts)) vs \<and> i < length vs then Some (snd (vs ! i)) else None
      | _ \<Rightarrow> None)"
| "ctor_types T (CBool _) t = (case shape T t of Bools \<Rightarrow> Some [] | _ \<Rightarrow> None)"
| "ctor_types T SeqEmpty t = (case elem T t of None \<Rightarrow> None | Some _ \<Rightarrow> Some [])"
| "ctor_types T SeqMore t = (case elem T t of None \<Rightarrow> None | Some e \<Rightarrow> Some [e, t])"
| "ctor_types T (Lit _) t = (case shape T t of Plain \<Rightarrow> Some [] | _ \<Rightarrow> None)"
| "ctor_types T (CInt lo hi d) t = (case shape T t of Ints d' \<Rightarrow> if d = d' then Some [] else None | _ \<Rightarrow> None)"
| "ctor_types T (CProduct _ names) t = (case shape T t of ProductOf fs \<Rightarrow> those (map (map_of fs) names) | _ \<Rightarrow> None)"

definition is_product :: "ctor \<Rightarrow> bool" where
  "is_product c \<longleftrightarrow> (case c of CProduct _ _ \<Rightarrow> True | _ \<Rightarrow> False)"

fun pat_ok :: "'ty types \<Rightarrow> dpat \<Rightarrow> 'ty \<Rightarrow> bool" where
  "pat_ok T Wild t \<longleftrightarrow> True"
| "pat_ok T Opaque t \<longleftrightarrow> True"
| "pat_ok T (DCtor c args) t \<longleftrightarrow> \<not> is_product c \<and>
     (case ctor_types T c t of
        None \<Rightarrow> False
      | Some ts \<Rightarrow> length args = length ts \<and> list_all (\<lambda>(p, t). pat_ok T p t) (zip args ts))"
| "pat_ok T (DProduct k fs) t \<longleftrightarrow>
     (case shape T t of
        ProductOf tfs \<Rightarrow> distinct (map fst fs) \<and>
          list_all (\<lambda>(n, p). case map_of tfs n of None \<Rightarrow> False | Some s \<Rightarrow> pat_ok T p s) fs
      | _ \<Rightarrow> False)"


lemma zip_all2: "(length xs = length ys \<and> list_all (\<lambda>(x, y). P x y) (zip xs ys)) = list_all2 P xs ys"
  by (simp add: list_all2_iff list_all_iff)

declare matches.simps(3) [simp del] pat_ok.simps(3) [simp del]

lemma matches_DCtor [simp]:
  "matches T b (DCtor c args) v \<longleftrightarrow> (\<exists>ws. ctor_vals T c v = Some ws \<and> list_all2 (matches T b) args ws)"
  by (auto simp: matches.simps(3) zip_all2 split: option.splits)

lemma pat_ok_DCtor [simp]:
  "pat_ok T (DCtor c args) t \<longleftrightarrow> \<not> is_product c \<and> (\<exists>ts. ctor_types T c t = Some ts \<and> list_all2 (pat_ok T) args ts)"
  by (auto simp: pat_ok.simps(3) zip_all2 split: option.splits)

lemma those_Some_iff: "those xs = Some ys \<longleftrightarrow> xs = map Some ys"
  by (induction xs arbitrary: ys) (auto split: option.splits)

lemma product_field:
  assumes "map fst g = map fst fs" "list_all2 P (map snd g) (map snd fs)" "map_of fs n = Some s"
  shows "\<exists>w. map_of g n = Some w \<and> P w s"
  using assms
proof (induction fs arbitrary: g)
  case (Cons f fs)
  then show ?case by (cases g) (auto split: if_splits)
qed simp

lemma view_typed:
  "types_ok T \<Longrightarrow> has_ty T v t \<Longrightarrow> elem T t = Some e \<Longrightarrow> seqview T v = Some (h, r) \<Longrightarrow> has_ty T h e \<and> has_ty T r t"
  unfolding types_ok_def by blast

lemma fields_distinct: "types_ok T \<Longrightarrow> shape T t = ProductOf fs \<Longrightarrow> distinct (map fst fs)"
  unfolding types_ok_def by blast

lemma list_union:
  assumes "types_ok T" "shape T t = Union ''List'' vs"
  obtains e where "elem T t = Some e" "vs = [(''Nil'', []), (''Cons'', [e, t])]"
  using assms unfolding types_ok_def by blast

lemma list_view: "types_ok T \<Longrightarrow> seqview T (VVariant ''List'' 0 []) = None"
    "types_ok T \<Longrightarrow> seqview T (VVariant ''List'' (Suc 0) [h, r]) = Some (h, r)"
  unfolding types_ok_def by simp_all

lemma ctor_vals_typed:
  assumes ok: "types_ok T" and v: "has_ty T v t" and ts: "ctor_types T c t = Some ts" and ws: "ctor_vals T c v = Some ws"
  shows "list_all2 (has_ty T) ws ts"
proof (cases c)
  case (Variant u i siblings)
  then show ?thesis using v ts ws by (auto split: shape.splits if_splits dval.splits)
next
  case SeqMore
  then show ?thesis using ts ws view_typed [OF ok v] by (auto split: option.splits)
next
  case (CProduct k names)
  then obtain g fs where g: "v = VProd g" "map (map_of g) names = map Some ws" and
    fs: "shape T t = ProductOf fs" "map (map_of fs) names = map Some ts"
    using ts ws by (auto simp: those_Some_iff split: dval.splits shape.splits)
  have typed: "map fst g = map fst fs" "list_all2 (has_ty T) (map snd g) (map snd fs)"
    using v fs(1) unfolding g(1) by (auto elim: has_ty_cases)
  have "length ws = length names" "length ts = length names"
    using arg_cong [OF g(2), of length] arg_cong [OF fs(2), of length] by simp_all
  moreover have "has_ty T (ws ! j) (ts ! j)" if "j < length names" for j
    using product_field [OF typed, of "names ! j" "ts ! j"] arg_cong [OF g(2), of "\<lambda>xs. xs ! j"]
      arg_cong [OF fs(2), of "\<lambda>xs. xs ! j"] that calculation by simp
  ultimately show ?thesis by (simp add: list_all2_conv_all_nth)
qed (use ts ws in \<open>auto split: option.splits shape.splits if_splits dval.splits\<close>)

section \<open>Constructors\<close>

lemma ctor_types_arity: "ctor_types T c t = Some ts \<Longrightarrow> arity c = Some (length ts)"
  by (cases c) (auto simp: those_Some_iff nth_opt_Some_iff case_prod_unfold dest: map_eq_imp_length_eq split: shape.splits option.splits if_splits)

lemma product_vals:
  assumes "has_ty T v t" "ctor_types T (CProduct k names) t = Some ts"
  shows "\<exists>ws. ctor_vals T (CProduct k names) v = Some ws"
proof -
  obtain fs where fs: "shape T t = ProductOf fs" "map (map_of fs) names = map Some ts"
    using assms(2) by (auto simp: those_Some_iff split: shape.splits)
  obtain g where g: "v = VProd g" "map fst g = map fst fs" "list_all2 (has_ty T) (map snd g) (map snd fs)"
    using assms(1) fs(1) by (auto elim: has_ty_cases)
  have "\<exists>w. map_of g n = Some w" if "n \<in> set names" for n
  proof -
    have "map_of fs n \<in> set (map Some ts)" using that fs(2) by (metis imageI list.set_map)
    then show ?thesis using product_field [OF g(2,3)] by auto
  qed
  then have "map (map_of g) names = map Some (map (\<lambda>n. the (map_of g n)) names)" by auto
  then show ?thesis unfolding g(1) ctor_vals.simps dval.simps those_Some_iff by (rule exI)
qed

lemma signature_types:
  assumes "ctor_types T c t = Some ts" "signature c = Some sig" "c' \<in> set sig"
  shows "\<exists>ts. ctor_types T c' t = Some ts"
  using assms by (cases c) (auto split: shape.splits option.splits if_splits)

lemma signature_complete:
  assumes "has_ty T v t" "ctor_types T c t = Some ts" "signature c = Some sig"
  shows "\<exists>c' \<in> set sig. \<exists>ws. ctor_vals T c' v = Some ws"
proof (cases c)
  case (CProduct k names)
  then show ?thesis using product_vals [OF assms(1)] assms(2,3) by auto
next
  case (Variant u i siblings)
  then show ?thesis using assms by (auto split: shape.splits if_splits elim!: has_ty_cases)
next
  case (CBool b)
  then show ?thesis using assms by (auto split: shape.splits if_splits elim!: has_ty_cases)
qed (use assms in \<open>auto split: option.splits\<close>)

lemma same_ctor:
  assumes "same d c" "ctor_types T d t = Some ts" "ctor_types T c t = Some ts'"
    and "\<And>k fs k' fs'. d = CProduct k fs \<Longrightarrow> c = CProduct k' fs' \<Longrightarrow> fs = fs'"
  shows "ts = ts'" "ctor_vals T d v = ctor_vals T c v"
proof -
  have "ts = ts' \<and> ctor_vals T d v = ctor_vals T c v"
    using assms(1) by (cases rule: same.elims(2)) (use assms in \<open>auto split: shape.splits if_splits option.splits\<close>)
  then show "ts = ts'" "ctor_vals T d v = ctor_vals T c v" by simp_all
qed

lemma find_SomeD: "List.find P xs = Some x \<Longrightarrow> P x \<and> x \<in> set xs"
  by (induction xs) (auto split: if_splits)

section \<open>A normalized column\<close>

definition head_ok :: "'ty types \<Rightarrow> name list \<Rightarrow> dpat \<Rightarrow> 'ty \<Rightarrow> bool" where
  "head_ok T names p t \<longleftrightarrow> p = Wild \<or>
     (\<exists>c args ts. p = DCtor c args \<and> ctor_types T c t = Some ts \<and> list_all2 (pat_ok T) args ts \<and>
        (\<forall>k fs. c = CProduct k fs \<longrightarrow> fs = names))"

lemma head_ok_Wild [simp]: "head_ok T names Wild t"
  by (simp add: head_ok_def)

lemma column_list_ok:
  assumes "\<forall>p \<in> set ps. pat_ok T p t" "column_list ps = Some c"
  shows "\<exists>i vs. c = Variant ''List'' i (map (\<lambda>(n, ts). (n, length ts)) vs) \<and> shape T t = Union ''List'' vs"
proof -
  obtain q where find: "List.find (\<lambda>p. case p of DCtor (Variant u _ _) _ \<Rightarrow> u = fst SEQ_UNION | _ \<Rightarrow> False) ps = Some q"
    and q: "(case q of DCtor c _ \<Rightarrow> Some c | _ \<Rightarrow> None) = Some c"
    using assms(2) unfolding column_list_def by (cases "List.find (\<lambda>p. case p of DCtor (Variant u _ _) _ \<Rightarrow> u = fst SEQ_UNION | _ \<Rightarrow> False) ps") simp_all
  obtain u i siblings args where p: "DCtor (Variant u i siblings) args \<in> set ps" "u = ''List''" "c = Variant u i siblings"
    using find_SomeD [OF find] q by (cases q; cases c) (simp_all add: SEQ_UNION_def)
  then have "pat_ok T (DCtor (Variant u i siblings) args) t" using assms(1) by blast
  then show ?thesis using p(2,3) by (auto split: shape.splits if_splits)
qed

lemma column_kind_some: "DProduct k fs \<in> set ps \<Longrightarrow> \<exists>k. column_kind ps = Some k"
  by (auto simp: column_kind_def find_None_iff find_Some_iff split: option.splits dpat.splits)

lemma fold_names_set: "set (fold (\<lambda>(n, _) ns. if n \<in> set ns then ns else ns @ [n]) fs ns) = set ns \<union> fst ` set fs"
  by (induction fs arbitrary: ns) (auto split: if_splits)

lemma column_names_mem: "n \<in> set (column_names ps) \<longleftrightarrow> (\<exists>k fs. DProduct k fs \<in> set ps \<and> n \<in> fst ` set fs)"
proof -
  have "n \<in> set (fold (\<lambda>p names. case p of
       DProduct _ fs \<Rightarrow> fold (\<lambda>(n, _) ns. if n \<in> set ns then ns else ns @ [n]) fs names
     | _ \<Rightarrow> names) ps ns) \<longleftrightarrow> n \<in> set ns \<or> (\<exists>k fs. DProduct k fs \<in> set ps \<and> n \<in> fst ` set fs)" for ns
  proof (induction ps arbitrary: ns)
    case (Cons p ps)
    show ?case by (cases p) (simp_all add: Cons.IH fold_names_set, blast)
  qed simp
  then show ?thesis by (simp add: column_names_def)
qed

lemma column_names_typed:
  assumes "\<forall>p \<in> set ps. pat_ok T p t" "shape T t = ProductOf tfs" "n \<in> set (column_names ps)"
  shows "\<exists>s. map_of tfs n = Some s"
proof -
  obtain k fs p where p: "DProduct k fs \<in> set ps" "(n, p) \<in> set fs" using assms(3) by (auto simp: column_names_mem image_iff)
  then have "pat_ok T (DProduct k fs) t" using assms(1) by blast
  then show ?thesis using p(2) assms(2) by (auto simp: list_all_iff split: option.splits)
qed

lemma field_of_product:
  assumes "pat_ok T (DProduct k fs) t" "shape T t = ProductOf tfs" "map_of fs n = Some p" "map_of tfs n = Some s"
  shows "pat_ok T p s"
  using assms by (fastforce simp: list_all_iff dest: map_of_SomeD)

lemma product_matches:
  assumes "distinct (map fst fs)" "fst ` set fs \<subseteq> set names" "\<forall>n \<in> set names. \<exists>w. map_of g n = Some w"
  shows "matches T b (DCtor (CProduct k names) (map (\<lambda>n. case map_of fs n of None \<Rightarrow> Wild | Some p \<Rightarrow> p) names)) (VProd g)
     = matches T b (DProduct k' fs) (VProd g)"
proof -
  let ?arg = "\<lambda>n. case map_of fs n of None \<Rightarrow> Wild | Some p \<Rightarrow> p"
  have "those (map (map_of g) names) = Some (map (\<lambda>n. the (map_of g n)) names)"
    using assms(3) by (auto simp: those_Some_iff)
  then have "matches T b (DCtor (CProduct k names) (map ?arg names)) (VProd g)
      \<longleftrightarrow> (\<forall>n \<in> set names. matches T b (?arg n) (the (map_of g n)))"
    by (simp add: list_all2_map1 list_all2_map2 list_all2_same)
  also have "\<dots> \<longleftrightarrow> (\<forall>(n, p) \<in> set fs. matches T b p (the (map_of g n)))"
  proof (intro iffI ballI)
    fix f assume "\<forall>n \<in> set names. matches T b (?arg n) (the (map_of g n))" "f \<in> set fs"
    then show "case f of (n, p) \<Rightarrow> matches T b p (the (map_of g n))"
      using assms(1,2) by (cases f) (force dest: map_of_is_SomeI)
  next
    fix n assume "\<forall>(n, p) \<in> set fs. matches T b p (the (map_of g n))"
    then show "matches T b (?arg n) (the (map_of g n))"
      by (auto split: option.split dest: map_of_SomeD)
  qed
  also have "\<dots> \<longleftrightarrow> matches T b (DProduct k' fs) (VProd g)"
    unfolding matches.simps dval.simps list_all_iff
  proof (rule ball_cong [OF refl])
    fix f assume "f \<in> set fs"
    then obtain w where "map_of g (fst f) = Some w" using assms(2,3) by blast
    then show "(case f of (n, p) \<Rightarrow> matches T b p (the (map_of g n)))
        = (case f of (n, p) \<Rightarrow> case map_of g n of None \<Rightarrow> False | Some w \<Rightarrow> matches T b p w)"
      by (simp add: case_prod_unfold)
  qed
  finally show ?thesis .
qed

definition fixed :: "'ty types \<Rightarrow> name list \<Rightarrow> 'ty \<Rightarrow> dpat \<Rightarrow> dpat \<Rightarrow> bool" where
  "fixed T names t p q \<longleftrightarrow> (q = Opaque \<longleftrightarrow> p = Opaque) \<and> (q \<noteq> Opaque \<longrightarrow> head_ok T names q t) \<and>
     (\<forall>v b. has_ty T v t \<longrightarrow> matches T b q v = matches T b p v)"

lemma fixed_product:
  assumes all: "\<forall>p \<in> set ps. pat_ok T p t" and p: "DProduct k fs \<in> set ps"
  shows "fixed T (column_names ps) t (DProduct k fs)
    (DCtor (CProduct k' (column_names ps)) (map (\<lambda>n. case map_of fs n of None \<Rightarrow> Wild | Some p \<Rightarrow> p) (column_names ps)))"
proof -
  let ?names = "column_names ps"
  have ok: "pat_ok T (DProduct k fs) t" using all p by blast
  then obtain tfs where tfs: "shape T t = ProductOf tfs" and fs: "distinct (map fst fs)" by (auto split: shape.splits)
  have named: "fst ` set fs \<subseteq> set ?names" using p unfolding column_names_mem subset_iff by blast
  have types: "map (map_of tfs) ?names = map Some (map (\<lambda>n. the (map_of tfs n)) ?names)"
    using column_names_typed [OF all tfs] by fastforce
  have ctor: "ctor_types T (CProduct k' ?names) t = Some (map (\<lambda>n. the (map_of tfs n)) ?names)"
    using types by (simp add: tfs those_Some_iff del: map_map)
  have args: "pat_ok T (case map_of fs n of None \<Rightarrow> Wild | Some p \<Rightarrow> p) (the (map_of tfs n))" if "n \<in> set ?names" for n
    using column_names_typed [OF all tfs that] field_of_product [OF ok tfs] by (auto split: option.splits)
  have vals: "matches T b (DCtor (CProduct k' ?names) (map (\<lambda>n. case map_of fs n of None \<Rightarrow> Wild | Some p \<Rightarrow> p) ?names)) v
      = matches T b (DProduct k fs) v" if v: "has_ty T v t" for v b
  proof -
    obtain g where g: "v = VProd g" "map fst g = map fst tfs" "list_all2 (has_ty T) (map snd g) (map snd tfs)"
      using v tfs by (auto elim: has_ty_cases)
    have "\<forall>n \<in> set ?names. \<exists>w. map_of g n = Some w"
      using column_names_typed [OF all tfs] product_field [OF g(2,3)] by blast
    then show ?thesis unfolding g(1) by (rule product_matches [OF fs named])
  qed
  show ?thesis using ctor args vals
    by (auto simp: fixed_def head_ok_def list_all2_map1 list_all2_map2 list_all2_same simp del: matches_DCtor matches.simps)
qed

lemma list_vals:
  assumes "types_ok T" "has_ty T v t" "shape T t = Union ''List'' vs"
  shows "ctor_vals T SeqEmpty v = ctor_vals T (Variant ''List'' 0 siblings) v"
    "ctor_vals T SeqMore v = ctor_vals T (Variant ''List'' (Suc 0) siblings) v"
proof -
  obtain e where e: "elem T t = Some e" "vs = [(''Nil'', []), (''Cons'', [e, t])]"
    using list_union [OF assms(1,3)] .
  consider "v = VVariant ''List'' 0 []" | h r where "v = VVariant ''List'' (Suc 0) [h, r]"
    using assms(2,3) unfolding e(2)
    by (auto elim!: has_ty_cases simp: less_Suc_eq list_all2_Cons2)
  then have "ctor_vals T SeqEmpty v = ctor_vals T (Variant ''List'' 0 siblings) v \<and>
      ctor_vals T SeqMore v = ctor_vals T (Variant ''List'' (Suc 0) siblings) v"
    by cases (simp_all add: list_view [OF assms(1)])
  then show "ctor_vals T SeqEmpty v = ctor_vals T (Variant ''List'' 0 siblings) v"
    "ctor_vals T SeqMore v = ctor_vals T (Variant ''List'' (Suc 0) siblings) v" by simp_all
qed

lemma fixed_self:
  assumes "pat_ok T p t" "\<And>k fs. p \<noteq> DProduct k fs"
  shows "fixed T names t p p"
proof -
  have "head_ok T names p t" if "p \<noteq> Opaque"
  proof (cases p)
    case (DCtor c args)
    obtain ts where "ctor_types T c t = Some ts" "list_all2 (pat_ok T) args ts" and c: "\<not> is_product c"
      using assms(1) unfolding DCtor pat_ok_DCtor by blast
    moreover have "\<forall>k fs. c = CProduct k fs \<longrightarrow> fs = names" using c by (simp add: is_product_def split: ctor.splits)
    ultimately show ?thesis unfolding head_ok_def DCtor by blast
  qed (use that assms(2) in \<open>auto simp: head_ok_def\<close>)
  then show ?thesis by (simp add: fixed_def)
qed

lemma fixed_list_step:
  assumes ok: "types_ok T" and all: "\<forall>p \<in> set ps. pat_ok T p t" and p: "pat_ok T (DCtor c args) t"
    and c: "c = SeqEmpty \<and> tag = ''Nil'' \<or> c = SeqMore \<and> tag = ''Cons''"
  shows "fixed T names t (DCtor c args) (list_step (column_list ps) tag args (DCtor c args))"
proof (cases "column_list ps")
  case None
  then show ?thesis using fixed_self [OF p] by (simp add: list_step_def)
next
  case (Some d)
  obtain i vs where d: "d = Variant ''List'' i (map (\<lambda>(n, ts). (n, length ts)) vs)" and t: "shape T t = Union ''List'' vs"
    using column_list_ok [OF all Some] by blast
  obtain e where e: "elem T t = Some e" "vs = [(''Nil'', []), (''Cons'', [e, t])]"
    using list_union [OF ok t] .
  let ?siblings = "[(''Nil'', 0), (''Cons'', Suc (Suc 0))]"
  define j where "j = (if c = SeqEmpty then 0 else Suc 0)"
  have step: "list_step (column_list ps) tag args (DCtor c args) = DCtor (Variant ''List'' j ?siblings) args"
    using p c unfolding Some d e(2) by (auto simp: list_step_def j_def e(1) list_all2_Cons2)
  have types: "ctor_types T (Variant ''List'' j ?siblings) t = ctor_types T c t"
    using c by (auto simp: t e j_def)
  have vals: "ctor_vals T (Variant ''List'' j ?siblings) v = ctor_vals T c v" if "has_ty T v t" for v
    using c list_vals [OF ok that t] unfolding j_def by (elim disjE conjE) (simp_all del: ctor_vals.simps)
  show ?thesis
    using p types vals unfolding step by (auto simp: fixed_def head_ok_def)
qed

lemma fix_head_ok:
  assumes ok: "types_ok T" and all: "\<forall>p \<in> set ps. pat_ok T p t" and p: "p \<in> set ps"
  shows "\<exists>q. fix_head (column_names ps) (column_kind ps) (column_list ps) p = Some q \<and> fixed T (column_names ps) t p q"
proof (cases p)
  case (DProduct k fs)
  then show ?thesis using column_kind_some fixed_product [OF all] p by fastforce
next
  case (DCtor c args)
  have typed: "pat_ok T (DCtor c args) t" using all p DCtor by blast
  note step = fixed_list_step [OF ok all typed]
  have "fix_head names kind lst p = Some p" if "c \<noteq> SeqEmpty" "c \<noteq> SeqMore" for names kind lst
    using that DCtor by (cases c) simp_all
  then show ?thesis using step fixed_self [OF typed] DCtor
    by (cases "c = SeqEmpty \<or> c = SeqMore") (auto simp: SEQ_UNION_def)
qed (auto intro: fixed_self)

definition column_ok :: "'ty types \<Rightarrow> 'ty \<Rightarrow> name list \<Rightarrow> ctor \<Rightarrow> dpat list \<Rightarrow> bool" where
  "column_ok T t names f ps \<longleftrightarrow>
     (\<forall>p \<in> set ps. head_ok T names p t) \<and> (\<forall>c args. DCtor c args \<in> set ps \<longrightarrow> same_family c f)"

lemma fits_head_ok:
  assumes "fixed T names t p q" "fst (fits family q m)"
  shows "head_ok T names q t"
  using assms by (cases "(family, q, m)" rule: fits.cases) (auto simp: fixed_def)

lemma fits_family: "fst (fits (Some f) (DCtor c args) m) \<Longrightarrow> same_family c f"
  by (simp split: if_splits)

lemma column_family_none: "column_family ps = None \<Longrightarrow> DCtor c args \<notin> set ps"
  by (fastforce simp: column_family_def find_None_iff dest!: find_SomeD split: option.splits dpat.splits)

lemma normalize_run:
  fixes cols :: "drow list" and p :: dpat
  defines "all \<equiv> map fst cols @ [p]"
  assumes fx: "\<And>q. q \<in> set all \<Longrightarrow> fix_head (column_names all) (column_kind all) (column_list all) q = Some (fx q)"
  defines "rows1 \<equiv> map (\<lambda>(q, qs). (fx q, qs)) cols"
  defines "fit \<equiv> \<lambda>q. fst (fits (column_family (map fst rows1 @ [fx p])) q None)"
  obtains m' where "normalize_column cols p m = Some (filter (\<lambda>r. fit (fst r)) rows1, if fit (fx p) then fx p else Wild, m')"
proof -
  let ?family = "column_family (map fst rows1 @ [fx p])"
  have "map_option (\<lambda>q. (q, snd r)) (fix_head (column_names all) (column_kind all) (column_list all) (fst r)) = Some (fx (fst r), snd r)"
    if "r \<in> set cols" for r
    using fx [of "fst r"] that by (simp add: all_def)
  then have those: "those (map (\<lambda>(q, qs). map_option (\<lambda>q. (q, qs)) (fix_head (column_names all) (column_kind all) (column_list all) q)) cols) = Some rows1"
    by (simp add: those_Some_iff rows1_def case_prod_unfold)
  obtain m1 where kept: "keep_fitting ?family rows1 m = (filter (\<lambda>r. fit (fst r)) rows1, m1)"
    using keep_fitting_rows [of ?family rows1 m] by (cases "keep_fitting ?family rows1 m") (simp add: fit_def)
  obtain m2 where "fits ?family (fx p) m1 = (fit (fx p), m2)"
    using fits_any [of ?family "fx p" m1] by (cases "fits ?family (fx p) m1") (simp add: fit_def)
  then show thesis
    using that [of m2] those kept fx [of p] unfolding normalize_column_def Let_def all_def [symmetric] by (simp add: all_def)
qed

lemma fitting_family:
  assumes "DCtor c args \<in> set ps" "fst (fits (column_family ps) (DCtor c args) m)"
  obtains f where "column_family ps = Some f" "same_family c f"
  using assms column_family_none [of ps c args] by (cases "column_family ps") (auto split: if_splits)

lemma normalize_ok:
  assumes ok: "types_ok T" and rows: "\<forall>r \<in> set cols. pat_ok T (fst r) t" and p: "pat_ok T p t"
  obtains rs head m' names f where "normalize_column cols p m = Some (rs, head, m')"
    "column_ok T t names f (map fst rs @ [head])"
    "\<And>r. r \<in> set rs \<Longrightarrow> \<exists>q. (q, snd r) \<in> set cols \<and> (\<forall>v. has_ty T v t \<longrightarrow> matches T False (fst r) v \<longrightarrow> matches T False q v)"
    "\<And>v. has_ty T v t \<Longrightarrow> matches T True p v \<Longrightarrow> matches T True head v"
proof -
  let ?all = "map fst cols @ [p]"
  have all: "\<forall>p \<in> set ?all. pat_ok T p t" using rows p by auto
  obtain fx where fx: "\<And>q. q \<in> set ?all \<Longrightarrow> fix_head (column_names ?all) (column_kind ?all) (column_list ?all) q = Some (fx q)"
    and fixed: "\<And>q. q \<in> set ?all \<Longrightarrow> fixed T (column_names ?all) t q (fx q)"
    using fix_head_ok [OF ok all] by metis
  define rows1 where "rows1 = map (\<lambda>(q, qs). (fx q, qs)) cols"
  define heads where "heads = map fst rows1 @ [fx p]"
  define fit where "fit q = fst (fits (column_family heads) q None)" for q
  define rs where "rs = filter (\<lambda>r. fit (fst r)) rows1"
  define head where "head = (if fit (fx p) then fx p else Wild)"
  obtain m' where run: "normalize_column cols p m = Some (rs, head, m')"
    using normalize_run [OF fx, of m] unfolding rs_def head_def fit_def heads_def rows1_def by blast
  have heads: "\<exists>q \<in> set ?all. h = fx q" if "h \<in> set heads" for h
    using that unfolding heads_def rows1_def by (force simp: case_prod_unfold)
  have kept: "h \<in> set heads \<and> fit h \<or> h = Wild" if "h \<in> set (map fst rs @ [head])" for h
    using that unfolding rs_def head_def heads_def by auto
  have "head_ok T (column_names ?all) h t" if "h \<in> set (map fst rs @ [head])" for h
    using kept [OF that] heads [of h] fits_head_ok [OF fixed] unfolding fit_def by (metis head_ok_Wild)
  moreover have "same_family c (the (column_family heads))" if "DCtor c args \<in> set (map fst rs @ [head])" for c args
    using kept [OF that] fitting_family [of c args heads None] by (force simp: fit_def)
  ultimately have "column_ok T t (column_names ?all) (the (column_family heads)) (map fst rs @ [head])"
    by (simp add: column_ok_def)
  moreover have "\<exists>q. (q, snd r) \<in> set cols \<and> (\<forall>v. has_ty T v t \<longrightarrow> matches T False (fst r) v \<longrightarrow> matches T False q v)"
    if "r \<in> set rs" for r
  proof -
    obtain q where "(q, snd r) \<in> set cols" "fst r = fx q" using \<open>r \<in> set rs\<close> by (auto simp: rs_def rows1_def)
    moreover from this have "fixed T (column_names ?all) t q (fx q)" by (intro fixed) force
    ultimately show ?thesis by (auto simp: fixed_def)
  qed
  moreover have "matches T True head v" if "has_ty T v t" "matches T True p v" for v
    using that fixed [of p] by (auto simp: head_def fixed_def)
  ultimately show ?thesis using that [OF run] by blast
qed

section \<open>Searches\<close>

text \<open>
  The rows cover the vector when they certainly match every well-typed value it may match; a
  search answers when it ends with a witness of the vector's length, or covers.
\<close>

definition covers :: "'ty types \<Rightarrow> dpat list list \<Rightarrow> dpat list \<Rightarrow> 'ty list \<Rightarrow> bool" where
  "covers T rows v ts \<longleftrightarrow> (\<forall>ws. list_all2 (has_ty T) ws ts \<longrightarrow> list_all2 (matches T True) v ws \<longrightarrow>
     (\<exists>r \<in> set rows. list_all2 (matches T False) r ws))"

definition found :: "nat \<Rightarrow> bool \<Rightarrow> search \<Rightarrow> bool" where
  "found n Q r \<longleftrightarrow> (\<exists>w m. r = Some (w, m) \<and> (case w of None \<Rightarrow> Q | Some qs \<Rightarrow> length qs = n))"

lemma found_mono: "found n P r \<Longrightarrow> (P \<Longrightarrow> Q) \<Longrightarrow> found n Q r"
  by (auto simp: found_def split: option.splits)

lemma found_on_witness:
  assumes "found n P r" "\<And>qs. length qs = n \<Longrightarrow> \<exists>qs'. f qs = Some qs' \<and> length qs' = n'"
  shows "found n' P (on_witness f r)"
proof -
  obtain w m where w: "r = Some (w, m)" "case w of None \<Rightarrow> P | Some qs \<Rightarrow> length qs = n"
    using assms(1) by (auto simp: found_def)
  show ?thesis using w assms(2) by (cases w) (auto simp: found_def on_witness_def, fastforce)
qed

lemma found_try_each:
  assumes "\<And>x m. x \<in> set xs \<Longrightarrow> found n (P x) (f x m)"
  shows "found n (\<forall>x \<in> set xs. P x) (try_each f xs m)"
  using assms
proof (induction xs arbitrary: m)
  case (Cons x xs)
  obtain w m' where w: "f x m = Some (w, m')" "case w of None \<Rightarrow> P x | Some qs \<Rightarrow> length qs = n"
    using Cons.prems [of x m] by (auto simp: found_def)
  show ?case
  proof (cases w)
    case None
    have "found n (\<forall>x \<in> set xs. P x) (try_each f xs m')" by (rule Cons.IH) (simp add: Cons.prems)
    then show ?thesis using w None by (auto elim: found_mono)
  next
    case (Some qs)
    then show ?thesis using w by (simp add: found_def)
  qed
qed (simp add: found_def)

lemma rebuild_length: "arity c = Some n \<Longrightarrow> length w = n + k \<Longrightarrow> \<exists>w'. rebuild c w = Some w' \<and> length w' = Suc k"
  by (simp add: rebuild_def)

section \<open>Each step covers\<close>

lemma covered_row:
  "(p, ps) \<in> set rs \<Longrightarrow> matches T b p v \<Longrightarrow> list_all2 (matches T b) ps vs \<Longrightarrow> \<exists>r \<in> set (map row_of rs). list_all2 (matches T b) r (v # vs)"
  by (force simp: row_of_def)

lemma covers_normalized:
  assumes "covers T (map row_of rs) (head # rest) (t # ts)" "rows = map row_of cols"
    and "\<And>r. r \<in> set rs \<Longrightarrow> \<exists>q. (q, snd r) \<in> set cols \<and> (\<forall>v. has_ty T v t \<longrightarrow> matches T False (fst r) v \<longrightarrow> matches T False q v)"
    and "\<And>v. has_ty T v t \<Longrightarrow> matches T True p v \<Longrightarrow> matches T True head v"
  shows "covers T rows (p # rest) (t # ts)"
  unfolding covers_def
proof (intro allI impI)
  fix ws assume typed: "list_all2 (has_ty T) ws (t # ts)" and hit: "list_all2 (matches T True) (p # rest) ws"
  obtain v vs where ws: "ws = v # vs" "has_ty T v t" using typed by (auto simp: list_all2_Cons2)
  have "list_all2 (matches T True) (head # rest) ws" using hit assms(4) ws by simp
  then obtain r where r: "r \<in> set rs" "list_all2 (matches T False) (row_of r) ws"
    using assms(1) typed unfolding covers_def by force
  obtain q where "(q, snd r) \<in> set cols" "matches T False q v"
    using assms(3) [OF r(1)] r(2) ws by (auto simp: row_of_def)
  moreover have "list_all2 (matches T False) (snd r) vs" using r(2) by (simp add: ws(1) row_of_def)
  ultimately show "\<exists>r \<in> set rows. list_all2 (matches T False) r ws"
    unfolding ws(1) assms(2) by (rule covered_row)
qed

lemma specialize_total: "arity c = Some n \<Longrightarrow> \<exists>spec. specialize rs c = Some spec"
proof (induction rs)
  case (Cons r rs)
  then show ?case by (cases r; cases "fst r") auto
qed simp

lemma specialize_mem:
  assumes "specialize rs c = Some spec" "arity c = Some n" "row \<in> set spec"
  obtains p ps where "(p, ps) \<in> set rs"
    "(\<exists>d args. p = DCtor d args \<and> same d c \<and> row = args @ ps) \<or> (\<nexists>d args. p = DCtor d args) \<and> row = replicate n Wild @ ps"
  using assms
proof (induction rs arbitrary: spec thesis)
  case (Cons r rs)
  obtain p ps where r: "r = (p, ps)" by force
  obtain rest where rest: "specialize rs c = Some rest" using Cons.prems(2) unfolding r by (auto split: bind_splits)
  show ?case
  proof (cases "row \<in> set rest")
    case True
    then show ?thesis using Cons.IH [OF _ rest assms(2)] Cons.prems(1) by (metis list.set_intros(2))
  next
    case False
    then show ?thesis using Cons.prems(1) [of p ps] Cons.prems(2-4) rest unfolding r
      by (cases p) (auto split: if_splits)
  qed
qed simp

lemma covers_ctor:
  assumes ok: "types_ok T" and spec: "specialize rs c = Some spec" and c: "ctor_types T c t = Some tys"
    and heads: "\<forall>r \<in> set rs. head_ok T names (fst r) t" and names: "\<forall>k fs. c = CProduct k fs \<longrightarrow> fs = names"
    and sub: "covers T spec (args @ rest) (tys @ ts)"
  shows "covers T (map row_of rs) (DCtor c args # rest) (t # ts)"
  unfolding covers_def
proof (intro allI impI)
  fix ws assume typed: "list_all2 (has_ty T) ws (t # ts)" and hit: "list_all2 (matches T True) (DCtor c args # rest) ws"
  obtain v vs us where ws: "ws = v # vs" "has_ty T v t" "list_all2 (has_ty T) vs ts"
      "ctor_vals T c v = Some us" "list_all2 (matches T True) args us" "list_all2 (matches T True) rest vs"
    using typed hit by (auto simp: list_all2_Cons2)
  have us: "list_all2 (has_ty T) us tys" using ctor_vals_typed [OF ok ws(2) c ws(4)] .
  obtain row where row: "row \<in> set spec" "list_all2 (matches T False) row (us @ vs)"
    using sub us ws unfolding covers_def by (meson list_all2_appendI)
  obtain p ps where p: "(p, ps) \<in> set rs"
    "(\<exists>d args. p = DCtor d args \<and> same d c \<and> row = args @ ps) \<or> (\<nexists>d args. p = DCtor d args) \<and> row = replicate (length tys) Wild @ ps"
    by (rule specialize_mem [OF spec ctor_types_arity [OF c] row(1)])
  have p_ok: "head_ok T names p t" using heads p(1) by force
  have "matches T False p v \<and> list_all2 (matches T False) ps vs"
    using p(2)
  proof (elim disjE exE conjE)
    fix d as assume d: "p = DCtor d as" "same d c" "row = as @ ps"
    obtain dts where dts: "ctor_types T d t = Some dts" "list_all2 (pat_ok T) as dts" "\<forall>k fs. d = CProduct k fs \<longrightarrow> fs = names"
      using p_ok d(1) by (auto simp: head_ok_def)
    note eq = same_ctor [OF d(2) dts(1) c]
    have "dts = tys" "ctor_vals T d v = Some us" using eq dts(3) names ws(4) by metis+
    then have "length as = length us" using dts(2) us by (simp add: list_all2_lengthD)
    then show ?thesis using row(2) d(1,3) \<open>ctor_vals T d v = Some us\<close> by (simp add: list_all2_append)
  next
    assume "\<nexists>d args. p = DCtor d args" "row = replicate (length tys) Wild @ ps"
    then show ?thesis using p_ok row(2) us by (auto simp: head_ok_def list_all2_append list_all2_lengthD)
  qed
  then show "\<exists>r \<in> set (map row_of rs). list_all2 (matches T False) r ws"
    unfolding ws(1) by (blast intro: covered_row [OF p(1)])
qed

lemma covers_signature:
  assumes c: "ctor_types T c t = Some tys" "signature c = Some sig"
    and each: "\<And>d n. d \<in> set sig \<Longrightarrow> arity d = Some n \<Longrightarrow> covers T rows (DCtor d (replicate n Wild) # rest) (t # ts)"
    and ok: "types_ok T"
  shows "covers T rows (h # rest) (t # ts)"
  unfolding covers_def
proof (intro allI impI)
  fix ws assume typed: "list_all2 (has_ty T) ws (t # ts)" and hit: "list_all2 (matches T True) (h # rest) ws"
  obtain v vs where ws: "ws = v # vs" "has_ty T v t" using typed by (auto simp: list_all2_Cons2)
  obtain d us where d: "d \<in> set sig" "ctor_vals T d v = Some us" using signature_complete [OF ws(2) c] by blast
  obtain dts where dts: "ctor_types T d t = Some dts" using signature_types [OF c d(1)] by blast
  have "length us = length dts" using ctor_vals_typed [OF ok ws(2) dts d(2)] by (rule list_all2_lengthD)
  then have "matches T True (DCtor d (replicate (length dts) Wild)) v"
    using d(2) by (simp add: list_all2_conv_all_nth)
  then show "\<exists>r \<in> set rows. list_all2 (matches T False) r ws"
    using each [OF d(1) ctor_types_arity [OF dts]] typed hit ws(1) unfolding covers_def by simp
qed

lemma covers_default:
  assumes "covers T (default_rows rs) rest ts"
  shows "covers T (map row_of rs) (h # rest) (t # ts)"
  unfolding covers_def
proof (intro allI impI)
  fix ws assume typed: "list_all2 (has_ty T) ws (t # ts)" and hit: "list_all2 (matches T True) (h # rest) ws"
  obtain v vs where ws: "ws = v # vs" "list_all2 (has_ty T) vs ts" "list_all2 (matches T True) rest vs"
    using typed hit by (auto simp: list_all2_Cons2)
  then obtain ps where "(Wild, ps) \<in> set rs" "list_all2 (matches T False) ps vs"
    using assms unfolding covers_def default_rows_def by force
  then show "\<exists>r \<in> set (map row_of rs). list_all2 (matches T False) r ws"
    unfolding ws(1) by (blast intro: covered_row matches.simps(1) [THEN iffD2])
qed

lemma adjacent_cut: "x \<le> (n :: int) \<Longrightarrow> n < last (x # xs) \<Longrightarrow> \<exists>(a, b) \<in> set (zip (x # xs) xs). a \<le> n \<and> n < b"
proof (induction xs arbitrary: x)
  case (Cons y xs)
  then show ?case by (cases "n < y") auto
qed simp

lemma sorted_ends: "sorted xs \<Longrightarrow> x \<in> set xs \<Longrightarrow> hd xs \<le> x \<and> x \<le> last xs" for x :: int
  by (induction xs) (auto split: if_splits)

lemma segments_cover:
  assumes "lo \<le> n" "n \<le> hi"
  obtains a b where "(a, b) \<in> set (segments (lo, hi) ranges)" "a \<le> n" "n \<le> b"
proof -
  define points where "points = [lo, hi + 1] @ concat (map (\<lambda>(a, b). filter (\<lambda>c. lo < c \<and> c \<le> hi) [a, b + 1]) ranges)"
  define cuts where "cuts = remdups_adj (sort points)"
  have "lo \<in> set points" "hi + 1 \<in> set points" by (simp_all add: points_def)
  then have mem: "lo \<in> set cuts" "hi + 1 \<in> set cuts" and "sorted cuts" by (simp_all add: cuts_def sorted_remdups_adj)
  then have ends: "hd cuts \<le> n" "n < last cuts" using sorted_ends [of cuts] assms by fastforce+
  obtain x xs where cuts: "cuts = x # xs" using mem by (cases cuts) auto
  obtain a b where "(a, b) \<in> set (zip cuts (tl cuts))" "a \<le> n" "n < b"
    using adjacent_cut [of x n xs] ends unfolding cuts by auto
  then have "(a, b - 1) \<in> set (segments (lo, hi) ranges)" "a \<le> n" "n \<le> b - 1"
    unfolding segments_def Let_def prod.case points_def [symmetric] cuts_def [symmetric] by force+
  then show thesis by (rule that)
qed

lemma int_column:
  assumes "column_ok T t names f ps" "int_domain ps = Some d"
  shows "shape T t = Ints d" "\<forall>p \<in> set ps. p = Wild \<or> (\<exists>lo hi. p = DCtor (CInt lo hi d) [])"
proof -
  obtain lo hi args where p: "DCtor (CInt lo hi d) args \<in> set ps"
    using assms(2) unfolding int_domain_def
    by (auto dest!: find_SomeD split: option.splits dpat.splits ctor.splits)
  have "head_ok T names (DCtor (CInt lo hi d) args) t" "same_family (CInt lo hi d) f"
    using assms(1) p unfolding column_ok_def by blast+
  then obtain a b e where f: "f = CInt a b e" and t: "shape T t = Ints d"
    by (cases f) (auto simp: head_ok_def split: shape.splits if_splits)
  show "shape T t = Ints d" by (rule t)
  show "\<forall>p \<in> set ps. p = Wild \<or> (\<exists>lo hi. p = DCtor (CInt lo hi d) [])"
  proof
    fix p assume p: "p \<in> set ps"
    then have "head_ok T names p t" "\<And>c args. p = DCtor c args \<Longrightarrow> same_family c f"
      using assms(1) unfolding column_ok_def by blast+
    then show "p = Wild \<or> (\<exists>lo hi. p = DCtor (CInt lo hi d) [])"
      unfolding head_ok_def f by (elim disjE exE conjE) (simp, rename_tac c args ts, case_tac c, auto simp: t split: if_splits)
  qed
qed

lemma covers_ints:
  assumes col: "column_ok T t names f (map fst rs @ [head])" "int_domain (map fst rs @ [head]) = Some d"
    and each: "\<And>seg. seg \<in> set (segments (head_range head d) (int_ranges rs)) \<Longrightarrow> covers T (rows_on_segment rs seg) rest ts"
  shows "covers T (map row_of rs) (head # rest) (t # ts)"
  unfolding covers_def
proof (intro allI impI)
  fix ws assume typed: "list_all2 (has_ty T) ws (t # ts)" and hit: "list_all2 (matches T True) (head # rest) ws"
  note ints = int_column [OF col]
  obtain v vs where ws: "ws = v # vs" "has_ty T v t" "list_all2 (has_ty T) vs ts" "matches T True head v" "list_all2 (matches T True) rest vs"
    using typed hit by (auto simp: list_all2_Cons2)
  obtain n where n: "v = VInt n" "fst d \<le> n" "n \<le> snd d" using ws(2) ints(1) by (cases d) (auto elim!: has_ty_cases)
  have "head = Wild \<or> (\<exists>lo hi. head = DCtor (CInt lo hi d) [])" using ints(2) by simp
  then have "fst (head_range head d) \<le> n" "n \<le> snd (head_range head d)"
    using ws(4) n by (auto simp: head_range_def split: if_splits)
  then obtain a b where seg: "(a, b) \<in> set (segments (head_range head d) (int_ranges rs))" "a \<le> n" "n \<le> b"
    using segments_cover [of "fst (head_range head d)" n "snd (head_range head d)"] by (metis prod.collapse)
  obtain ps where "ps \<in> set (rows_on_segment rs (a, b))" "list_all2 (matches T False) ps vs"
    using each [OF seg(1)] ws unfolding covers_def by blast
  then obtain p where p: "(p, ps) \<in> set rs" "case p of DCtor (CInt lo hi _) _ \<Rightarrow> lo \<le> a \<and> b \<le> hi | _ \<Rightarrow> True" "list_all2 (matches T False) ps vs"
    unfolding rows_on_segment_def fst_conv snd_conv by auto
  have "p = Wild \<or> (\<exists>lo hi. p = DCtor (CInt lo hi d) [])" using ints(2) p(1) by force
  then have "matches T False p v" using p(2) seg(2,3) n(1) by auto
  then show "\<exists>r \<in> set (map row_of rs). list_all2 (matches T False) r ws"
    unfolding ws(1) using covered_row [OF p(1)] p(3) by blast
qed

lemma first_column_total: "\<forall>r \<in> set rows. r \<noteq> [] \<Longrightarrow> \<exists>cols. first_column rows = Some cols"
  by (induction rows rule: first_column.induct) auto

lemma wild_args: "list_all2 (pat_ok T) (replicate (length ts) Wild) ts"
  by (simp add: list_all2_conv_all_nth)

lemma specialized_typed:
  assumes "specialize rs c = Some spec" "ctor_types T c t = Some tys" "row \<in> set spec"
    and "\<forall>r \<in> set rs. head_ok T names (fst r) t \<and> list_all2 (pat_ok T) (snd r) ts" "\<forall>k fs. c = CProduct k fs \<longrightarrow> fs = names"
  shows "list_all2 (pat_ok T) row (tys @ ts)"
proof -
  obtain p ps where p: "(p, ps) \<in> set rs"
    "(\<exists>d args. p = DCtor d args \<and> same d c \<and> row = args @ ps) \<or> (\<nexists>d args. p = DCtor d args) \<and> row = replicate (length tys) Wild @ ps"
    by (rule specialize_mem [OF assms(1) ctor_types_arity [OF assms(2)] assms(3)])
  have typed: "head_ok T names p t" "list_all2 (pat_ok T) ps ts" using assms(4) p(1) by force+
  from p(2) show ?thesis
  proof (elim disjE exE conjE)
    fix d args assume d: "p = DCtor d args" "same d c" "row = args @ ps"
    obtain dts where dts: "ctor_types T d t = Some dts" "list_all2 (pat_ok T) args dts" "\<forall>k fs. d = CProduct k fs \<longrightarrow> fs = names"
      using typed(1) d(1) by (auto simp: head_ok_def)
    have "dts = tys" using same_ctor(1) [OF d(2) dts(1) assms(2)] dts(3) assms(5) by metis
    then show ?thesis using dts(2) d(3) typed(2) by (simp add: list_all2_appendI)
  qed (use typed(2) in \<open>auto intro: list_all2_appendI wild_args\<close>)
qed

lemma signature_names:
  assumes "signature c = Some sig" "d \<in> set sig" "\<forall>k fs. c = CProduct k fs \<longrightarrow> fs = names"
  shows "\<forall>k fs. d = CProduct k fs \<longrightarrow> fs = names"
  using assms by (cases c) auto

lemma full_signature_ctor:
  assumes "column_ok T t names f (map fst rs @ [head])" "full_signature (head_ctors rs) = Some sig"
  obtains c tys where "ctor_types T c t = Some tys" "signature c = Some sig" "\<forall>k fs. c = CProduct k fs \<longrightarrow> fs = names"
proof -
  obtain c cs where heads: "head_ctors rs = c # cs" "signature c = Some sig"
    using assms(2) by (auto simp: full_signature_def split: list.splits)
  then have "c \<in> set (head_ctors rs)" by simp
  then obtain args where "DCtor c args \<in> set (map fst rs @ [head])"
    by (force simp: head_ctors_def List.map_filter_def split: dpat.splits)
  then have "head_ok T names (DCtor c args) t" using assms(1) unfolding column_ok_def by blast
  then show thesis using that heads(2) by (auto simp: head_ok_def)
qed

lemma missing_head_total:
  assumes "column_ok T t names f (map fst rs @ [head])"
  shows "\<exists>h. missing_head (head_ctors rs) = Some h"
proof (cases "missing_ctors (head_ctors rs)")
  case (Cons d ds)
  then obtain sig where sig: "full_signature (head_ctors rs) = Some sig" by (auto simp: missing_ctors_def split: option.splits)
  have "d \<in> set (missing_ctors (head_ctors rs))" using Cons by simp
  then have "d \<in> set sig" using sig by (simp add: missing_ctors_def)
  moreover obtain c tys where "ctor_types T c t = Some tys" "signature c = Some sig"
    by (rule full_signature_ctor [OF assms sig])
  ultimately obtain dts where "ctor_types T d t = Some dts" using signature_types [of T c t tys sig d] by blast
  then show ?thesis using ctor_types_arity [of T d t dts] Cons by (simp add: missing_head_def)
qed (simp add: missing_head_def)

lemma found_ctor:
  assumes ok: "types_ok T" and col: "column_ok T t names f (map fst rs @ [head])" and rows: "\<forall>r \<in> set rs. list_all2 (pat_ok T) (snd r) ts"
    and c: "ctor_types T c t = Some tys" "\<forall>k fs. c = CProduct k fs \<longrightarrow> fs = names" and args: "list_all2 (pat_ok T) args tys"
    and rest: "list_all2 (pat_ok T) rest ts"
    and sub: "\<And>spec. specialize rs c = Some spec \<Longrightarrow> \<forall>r \<in> set spec. list_all2 (pat_ok T) r (tys @ ts) \<Longrightarrow>
      list_all2 (pat_ok T) (args @ rest) (tys @ ts) \<Longrightarrow> found (length (args @ rest)) (covers T spec (args @ rest) (tys @ ts)) (search spec)"
  shows "found (Suc (length rest)) (covers T (map row_of rs) (DCtor c args # rest) (t # ts))
    (Option.bind (specialize rs c) (\<lambda>spec. on_witness (rebuild c) (search spec)))"
proof -
  obtain spec where spec: "specialize rs c = Some spec" using specialize_total [OF ctor_types_arity [OF c(1)]] by blast
  have heads: "\<forall>r \<in> set rs. head_ok T names (fst r) t" using col by (auto simp: column_ok_def)
  have "found (length (args @ rest)) (covers T spec (args @ rest) (tys @ ts)) (search spec)"
  proof (rule sub [OF spec])
    show "\<forall>r \<in> set spec. list_all2 (pat_ok T) r (tys @ ts)"
      using specialized_typed [OF spec c(1) _ _ c(2)] heads rows by blast
    show "list_all2 (pat_ok T) (args @ rest) (tys @ ts)" using args rest by (rule list_all2_appendI)
  qed
  then have "found (Suc (length rest)) (covers T spec (args @ rest) (tys @ ts)) (on_witness (rebuild c) (search spec))"
    by (rule found_on_witness) (use rebuild_length [OF ctor_types_arity [OF c(1)]] list_all2_lengthD [OF args] in auto)
  then show ?thesis using covers_ctor [OF ok spec c(1) heads c(2)] unfolding spec bind.bind_lunit by (rule found_mono)
qed

lemma found_ints:
  assumes col: "column_ok T t names f (map fst rs @ [head])" and d: "int_domain (map fst rs @ [head]) = Some d"
    and rows: "\<forall>r \<in> set rs. list_all2 (pat_ok T) (snd r) ts"
    and sub: "\<And>seg m. seg \<in> set (sort_key (segment_order d) (segments (head_range head d) (int_ranges rs))) \<Longrightarrow>
      \<forall>r \<in> set (rows_on_segment rs seg). list_all2 (pat_ok T) r ts \<Longrightarrow>
      found (length rest) (covers T (rows_on_segment rs seg) rest ts) (search (rows_on_segment rs seg) m)"
  shows "found (Suc (length rest)) (covers T (map row_of rs) (head # rest) (t # ts))
    (try_each (\<lambda>seg m. on_witness (\<lambda>w. Some (DCtor (CInt (fst seg) (snd seg) d) [] # w)) (search (rows_on_segment rs seg) m))
      (sort_key (segment_order d) (segments (head_range head d) (int_ranges rs))) m)"
proof (rule found_mono [OF found_try_each])
  fix seg m assume seg: "seg \<in> set (sort_key (segment_order d) (segments (head_range head d) (int_ranges rs)))"
  have "\<forall>r \<in> set (rows_on_segment rs seg). list_all2 (pat_ok T) r ts"
    using rows by (auto simp: rows_on_segment_def)
  then show "found (Suc (length rest)) (covers T (rows_on_segment rs seg) rest ts)
      (on_witness (\<lambda>w. Some (DCtor (CInt (fst seg) (snd seg) d) [] # w)) (search (rows_on_segment rs seg) m))"
    by (intro found_on_witness [OF sub [OF seg]]) simp_all
next
  assume "\<forall>seg \<in> set (sort_key (segment_order d) (segments (head_range head d) (int_ranges rs))). covers T (rows_on_segment rs seg) rest ts"
  then show "covers T (map row_of rs) (head # rest) (t # ts)" by (intro covers_ints [OF col d]) simp
qed

lemma found_signature:
  assumes ok: "types_ok T" and col: "column_ok T t names f (map fst rs @ [head])" and rows: "\<forall>r \<in> set rs. list_all2 (pat_ok T) (snd r) ts"
    and sig: "full_signature (head_ctors rs) = Some sig" and rest: "list_all2 (pat_ok T) rest ts"
    and sub: "\<And>c n spec tys m. c \<in> set sig \<Longrightarrow> specialize rs c = Some spec \<Longrightarrow> arity c = Some n \<Longrightarrow>
      \<forall>r \<in> set spec. list_all2 (pat_ok T) r (tys @ ts) \<Longrightarrow> list_all2 (pat_ok T) (replicate n Wild @ rest) (tys @ ts) \<Longrightarrow>
      found (length (replicate n Wild @ rest)) (covers T spec (replicate n Wild @ rest) (tys @ ts)) (search spec n m)"
  shows "found (Suc (length rest)) (covers T (map row_of rs) (h # rest) (t # ts))
    (try_each (\<lambda>c m. Option.bind (specialize rs c) (\<lambda>spec. Option.bind (arity c) (\<lambda>n. on_witness (rebuild c) (search spec n m)))) sig m)"
proof -
  obtain c tys where c: "ctor_types T c t = Some tys" "signature c = Some sig" "\<forall>k fs. c = CProduct k fs \<longrightarrow> fs = names"
    by (rule full_signature_ctor [OF col sig])
  let ?covered = "\<lambda>d. \<forall>n. arity d = Some n \<longrightarrow> covers T (map row_of rs) (DCtor d (replicate n Wild) # rest) (t # ts)"
  have "found (Suc (length rest)) (?covered d)
      (Option.bind (specialize rs d) (\<lambda>spec. Option.bind (arity d) (\<lambda>n. on_witness (rebuild d) (search spec n m))))"
    if d: "d \<in> set sig" for d m
  proof -
    obtain dts where dts: "ctor_types T d t = Some dts" using signature_types [OF c(1,2) d] by blast
    note n = ctor_types_arity [OF dts]
    have "found (Suc (length rest)) (covers T (map row_of rs) (DCtor d (replicate (length dts) Wild) # rest) (t # ts))
        (Option.bind (specialize rs d) (\<lambda>spec. on_witness (rebuild d) (search spec (length dts) m)))"
      by (rule found_ctor [OF ok col rows dts signature_names [OF c(2) d c(3)] wild_args rest]) (rule sub [OF d _ n])
    then show ?thesis by (simp add: n)
  qed
  then show ?thesis
    by (rule found_mono [OF found_try_each]) (assumption, rule covers_signature [OF c(1,2) _ ok], blast)
qed

lemma found_default:
  assumes col: "column_ok T t names f (map fst rs @ [head])" and sub: "found (length rest) (covers T (default_rows rs) rest ts) r"
  shows "found (Suc (length rest)) (covers T (map row_of rs) (h # rest) (t # ts))
    (Option.bind (missing_head (head_ctors rs)) (\<lambda>first. on_witness (\<lambda>w. Some (first # w)) r))"
proof -
  obtain first where first: "missing_head (head_ctors rs) = Some first" using missing_head_total [OF col] by blast
  have "found (Suc (length rest)) (covers T (default_rows rs) rest ts) (on_witness (\<lambda>w. Some (first # w)) r)"
    by (rule found_on_witness [OF sub]) simp
  then show ?thesis unfolding first bind.bind_lunit by (rule found_mono) (rule covers_default)
qed

lemma normalized_columns:
  assumes ok: "types_ok T" and rows: "\<forall>r \<in> set rows. list_all2 (pat_ok T) r (t # ts)" and p: "pat_ok T p t"
  obtains cols rs head m' names f where "first_column rows = Some cols" "normalize_column cols p m = Some (rs, head, m')"
    "column_ok T t names f (map fst rs @ [head])" "\<forall>r \<in> set rs. list_all2 (pat_ok T) (snd r) ts"
    "covers T (map row_of rs) (head # rest) (t # ts) \<longrightarrow> covers T rows (p # rest) (t # ts)"
proof -
  obtain cols where cols: "first_column rows = Some cols"
    using first_column_total [of rows] rows by fastforce
  note eq = first_column_rows [OF cols]
  have typed: "pat_ok T (fst r) t \<and> list_all2 (pat_ok T) (snd r) ts" if "r \<in> set cols" for r
    using rows that unfolding eq by (force simp: row_of_def)
  obtain rs head m' names f where norm: "normalize_column cols p m = Some (rs, head, m')"
    and col: "column_ok T t names f (map fst rs @ [head])"
    and bwd: "\<And>r. r \<in> set rs \<Longrightarrow> \<exists>q. (q, snd r) \<in> set cols \<and> (\<forall>v. has_ty T v t \<longrightarrow> matches T False (fst r) v \<longrightarrow> matches T False q v)"
    and fwd: "\<And>v. has_ty T v t \<Longrightarrow> matches T True p v \<Longrightarrow> matches T True head v"
    using normalize_ok [OF ok _ p, of cols m] typed by blast
  have "\<forall>r \<in> set rs. list_all2 (pat_ok T) (snd r) ts" using bwd typed by fastforce
  moreover have "covers T (map row_of rs) (head # rest) (t # ts) \<longrightarrow> covers T rows (p # rest) (t # ts)"
    using covers_normalized [OF _ eq bwd fwd] by blast
  ultimately show thesis using that [OF cols norm col] by blast
qed

lemma useful_ok:
  assumes ok: "types_ok T"
  shows "\<forall>r \<in> set rows. list_all2 (pat_ok T) r ts \<Longrightarrow> list_all2 (pat_ok T) v ts \<Longrightarrow>
    found (length v) (covers T rows v ts) (useful rows v m)"
proof (induction rows v m arbitrary: ts rule: useful.induct)
  case (1 rows mixed)
  then show ?case by (cases rows) (auto simp: found_def covers_def)
next
  case (2 rows p rest mixed)
  obtain t us where ts: "ts = t # us" "pat_ok T p t" and rest: "list_all2 (pat_ok T) rest us"
    using "2.prems"(2) by (auto simp: list_all2_Cons1)
  obtain cols rs head m' names f where cols: "first_column rows = Some cols" and norm: "normalize_column cols p mixed = Some (rs, head, m')"
    and col: "column_ok T t names f (map fst rs @ [head])" and rs: "\<forall>r \<in> set rs. list_all2 (pat_ok T) (snd r) us"
    and cov: "covers T (map row_of rs) (head # rest) (t # us) \<longrightarrow> covers T rows (p # rest) (t # us)"
    using normalized_columns [OF ok "2.prems"(1) [unfolded ts(1)] ts(2), of mixed rest] by blast
  note IH = "2.IH" [OF cols norm refl refl] and step = useful.simps(2) [of rows p rest mixed, unfolded cols norm bind.bind_lunit prod.case]
  let ?goal = "found (Suc (length rest)) (covers T (map row_of rs) (head # rest) (t # us)) (useful rows (p # rest) mixed)"
  have default: "\<forall>r \<in> set (default_rows rs). list_all2 (pat_ok T) r us" using rs by (auto simp: default_rows_def)
  have ?goal if d: "int_domain (map fst rs @ [head]) = Some d" for d
    unfolding step d option.case by (rule found_ints [OF col d rs]) (rule IH(6) [OF d _ _ rest])
  moreover have ?goal if none: "int_domain (map fst rs @ [head]) = None" and head: "head = DCtor c args"
      "ctor_types T c t = Some tys" "list_all2 (pat_ok T) args tys" "\<forall>k fs. c = CProduct k fs \<longrightarrow> fs = names" for c args tys
    unfolding step head(1) none [unfolded head(1)] option.case dpat.case
    by (rule found_ctor [OF ok col rs head(2,4,3) rest]) (rule IH(5) [OF none head(1)])
  moreover have ?goal if none: "int_domain (map fst rs @ [head]) = None" and head: "head = Wild"
  proof (cases "full_signature (head_ctors rs) \<noteq> None \<and> missing_ctors (head_ctors rs) = []")
    case True
    then obtain sig where sig: "full_signature (head_ctors rs) = Some sig" by blast
    show ?thesis unfolding step head none [unfolded head] option.case dpat.case Let_def if_P [OF True [unfolded sig]] sig option.sel
      by (rule found_signature [OF ok col rs sig rest]) (rule IH(1) [OF none head refl True], simp_all add: sig)
  next
    case False
    obtain first where "missing_head (head_ctors rs) = Some first" using missing_head_total [OF col] by blast
    from IH(2) [OF none head refl False this default rest] show ?thesis
      unfolding step head none [unfolded head] option.case dpat.case Let_def if_not_P [OF False] by (rule found_default [OF col])
  qed
  moreover have "head_ok T names head t" using col by (simp add: column_ok_def)
  ultimately have ?goal unfolding head_ok_def by (cases "int_domain (map fst rs @ [head])") blast+
  then show ?case unfolding ts(1) length_Cons by (rule found_mono) (use cov in blast)
qed

section \<open>The check of a match\<close>

declare useful.simps(2) [simp del]

lemma matches_mono: "matches T False p v \<Longrightarrow> matches T True p v"
proof (induction p arbitrary: v)
  case (DCtor c args)
  then show ?case by (auto elim!: list_all2_mono intro: list.rel_mono_strong)
next
  case (DProduct k fs)
  then show ?case by (fastforce simp: list_all_iff split: dval.splits option.splits)
qed simp_all

lemma covers_one:
  "covers T rows [p] [t] \<longleftrightarrow> (\<forall>v. has_ty T v t \<longrightarrow> matches T True p v \<longrightarrow> (\<exists>r \<in> set rows. list_all2 (matches T False) r [v]))"
proof
  assume cov: "covers T rows [p] [t]"
  show "\<forall>v. has_ty T v t \<longrightarrow> matches T True p v \<longrightarrow> (\<exists>r \<in> set rows. list_all2 (matches T False) r [v])"
    using cov [unfolded covers_def, rule_format, of "[_]"] by simp
next
  assume "\<forall>v. has_ty T v t \<longrightarrow> matches T True p v \<longrightarrow> (\<exists>r \<in> set rows. list_all2 (matches T False) r [v])"
  then show "covers T rows [p] [t]" unfolding covers_def by (auto simp: list_all2_Cons1)
qed

abbreviation alt_rows :: "dpat list \<Rightarrow> dpat list list" where
  "alt_rows ps \<equiv> map (\<lambda>p. [p]) ps"

lemma covers_all_alts:
  assumes "\<And>i. i < length ps \<Longrightarrow> covers T (rows @ alt_rows (take i ps)) [ps ! i] [t]" "i < length ps"
  shows "covers T rows [ps ! i] [t]"
  using assms(2)
proof (induction i rule: less_induct)
  case (less i)
  show ?case
    unfolding covers_one
  proof (intro allI impI)
    fix v assume v: "has_ty T v t" "matches T True (ps ! i) v"
    then obtain r where r: "r \<in> set (rows @ alt_rows (take i ps))" "list_all2 (matches T False) r [v]"
      using assms(1) [OF less.prems] unfolding covers_one by blast
    show "\<exists>r \<in> set rows. list_all2 (matches T False) r [v]"
    proof (cases "r \<in> set rows")
      case False
      then obtain l where "l < i" "r = [ps ! l]" using r(1) less.prems by (auto simp: in_set_conv_nth)
      then show ?thesis using less.IH [of l] less.prems r(2) v(1) matches_mono unfolding covers_one by fastforce
    qed (use r(2) in blast)
  qed
qed

definition one_ok :: "'ty types \<Rightarrow> 'ty \<Rightarrow> dpat list list \<Rightarrow> bool" where
  "one_ok T t rows \<longleftrightarrow> (\<forall>r \<in> set rows. list_all2 (pat_ok T) r [t])"

lemma useful_one:
  assumes "types_ok T" "one_ok T t rows" "pat_ok T p t"
  shows "\<exists>w m'. useful rows [p] m = Some (w, m') \<and> (w = None \<longrightarrow> covers T rows [p] [t]) \<and> (\<forall>qs. w = Some qs \<longrightarrow> length qs = 1)"
  using useful_ok [OF assms(1), of rows "[t]" "[p]" m] assms(2,3) by (auto simp: found_def one_ok_def split: option.splits)

lemma check_alts_ok:
  assumes "types_ok T" "one_ok T t seen" "\<forall>p \<in> set ps. pat_ok T p t"
  shows "\<exists>gone. check_alts seen j ps = Some (gone, seen @ alt_rows ps) \<and> length gone \<le> length ps \<and>
    (\<forall>n \<in> set gone. \<exists>i < length ps. n = j + i \<and> covers T (seen @ alt_rows (take i ps)) [ps ! i] [t]) \<and>
    (length gone = length ps \<longrightarrow> (\<forall>i < length ps. covers T (seen @ alt_rows (take i ps)) [ps ! i] [t]))"
  using assms(2,3)
proof (induction ps arbitrary: seen j)
  case (Cons p ps)
  obtain w m where w: "useful seen [p] None = Some (w, m)" "w = None \<longrightarrow> covers T seen [p] [t]"
    using useful_one [OF assms(1) Cons.prems(1), of p None] Cons.prems(2) by auto
  have "one_ok T t (seen @ [[p]])" using Cons.prems by (auto simp: one_ok_def)
  then obtain gone where gone: "check_alts (seen @ [[p]]) (j + 1) ps = Some (gone, (seen @ [[p]]) @ alt_rows ps)" "length gone \<le> length ps"
    "\<forall>n \<in> set gone. \<exists>i < length ps. n = j + 1 + i \<and> covers T ((seen @ [[p]]) @ alt_rows (take i ps)) [ps ! i] [t]"
    "length gone = length ps \<longrightarrow> (\<forall>i < length ps. covers T ((seen @ [[p]]) @ alt_rows (take i ps)) [ps ! i] [t])"
    using Cons.IH [of "seen @ [[p]]" "j + 1"] Cons.prems(2) by auto
  have later: "\<exists>i < Suc (length ps). n = j + i \<and> covers T (seen @ alt_rows (take i (p # ps))) [(p # ps) ! i] [t]" if n: "n \<in> set gone" for n
  proof -
    obtain i where "i < length ps" "n = j + 1 + i" "covers T ((seen @ [[p]]) @ alt_rows (take i ps)) [ps ! i] [t]" using gone(3) n by blast
    then show ?thesis by (intro exI [of _ "Suc i"]) simp
  qed
  have all: "covers T (seen @ alt_rows (take i (p # ps))) [(p # ps) ! i] [t]"
    if "w = None" "length gone = length ps" "i < Suc (length ps)" for i
    using that w(2) gone(4) by (cases i) auto
  show ?case
    using w(1,2) gone(1,2) later all by (cases w) (auto intro!: exI [of _ 0])
qed (auto simp: covers_def)

text \<open>The rows of the unguarded arms, and what a dead part of a match promises.\<close>

definition open_rows :: "(dpat list \<times> bool) list \<Rightarrow> dpat list list" where
  "open_rows arms = concat (map (\<lambda>(alts, guarded). if guarded then [] else alt_rows alts) arms)"

lemma open_rows_Cons: "open_rows ((alts, guarded) # arms) = (if guarded then [] else alt_rows alts) @ open_rows arms"
  by (simp add: open_rows_def)

fun dead_ok :: "'ty types \<Rightarrow> 'ty \<Rightarrow> dpat list list \<Rightarrow> nat \<Rightarrow> (dpat list \<times> bool) list \<Rightarrow> dead \<Rightarrow> bool" where
  "dead_ok T t rows i arms (Arm n) \<longleftrightarrow> (\<exists>k < length arms. n = i + k \<and>
     (\<forall>p \<in> set (fst (arms ! k)). covers T (rows @ open_rows (take k arms)) [p] [t]))"
| "dead_ok T t rows i arms (Alt n j) \<longleftrightarrow> (\<exists>k < length arms. n = i + k \<and> j < length (fst (arms ! k)) \<and>
     covers T (rows @ open_rows (take k arms) @ alt_rows (take j (fst (arms ! k)))) [fst (arms ! k) ! j] [t])"

lemma dead_ok_later:
  assumes "dead_ok T t (if guarded then rows else rows @ alt_rows alts) (Suc i) arms d"
  shows "dead_ok T t rows i ((alts, guarded) # arms) d"
  using assms
proof (cases d)
  case (Arm n)
  then obtain k where "k < length arms" "n = Suc i + k"
      "\<forall>p \<in> set (fst (arms ! k)). covers T ((if guarded then rows else rows @ alt_rows alts) @ open_rows (take k arms)) [p] [t]"
    using assms by auto
  then show ?thesis unfolding Arm dead_ok.simps by (intro exI [of _ "Suc k"]) (auto simp: open_rows_Cons split: if_splits)
next
  case (Alt n j)
  then obtain k where "k < length arms" "n = Suc i + k" "j < length (fst (arms ! k))"
      "covers T ((if guarded then rows else rows @ alt_rows alts) @ open_rows (take k arms) @ alt_rows (take j (fst (arms ! k)))) [fst (arms ! k) ! j] [t]"
    using assms by auto
  then show ?thesis unfolding Alt dead_ok.simps by (intro exI [of _ "Suc k"]) (auto simp: open_rows_Cons split: if_splits)
qed

lemma one_ok_append: "one_ok T t rows \<Longrightarrow> \<forall>p \<in> set ps. pat_ok T p t \<Longrightarrow> one_ok T t (rows @ alt_rows ps)"
  by (auto simp: one_ok_def)

lemma check_arms_ok:
  assumes ok: "types_ok T" and "one_ok T t rows" "\<forall>arm \<in> set arms. \<forall>p \<in> set (fst arm). pat_ok T p t"
  shows "\<exists>gone. check_arms rows i arms = Some (gone, rows @ open_rows arms) \<and> (\<forall>d \<in> set gone. dead_ok T t rows i arms d)"
  using assms(2,3)
proof (induction arms arbitrary: rows i)
  case Nil
  then show ?case by (simp add: open_rows_def)
next
  case (Cons arm arms)
  obtain alts guarded where arm: "arm = (alts, guarded)" by force
  have alts: "\<forall>p \<in> set alts. pat_ok T p t" using Cons.prems(2) by (simp add: arm)
  obtain gone where gone: "check_alts rows 0 alts = Some (gone, rows @ alt_rows alts)" "length gone \<le> length alts"
      "\<forall>n \<in> set gone. \<exists>i < length alts. n = i \<and> covers T (rows @ alt_rows (take i alts)) [alts ! i] [t]"
      "length gone = length alts \<longrightarrow> (\<forall>i < length alts. covers T (rows @ alt_rows (take i alts)) [alts ! i] [t])"
    using check_alts_ok [OF ok Cons.prems(1) alts, of 0] by auto
  let ?next = "if guarded then rows else rows @ alt_rows alts"
  have "one_ok T t ?next" using Cons.prems(1) one_ok_append [OF Cons.prems(1) alts] by simp
  then obtain later where later: "check_arms ?next (Suc i) arms = Some (later, ?next @ open_rows arms)"
      "\<forall>d \<in> set later. dead_ok T t ?next (Suc i) arms d"
    using Cons.IH [of ?next "Suc i"] Cons.prems(2) by auto
  have whole: "dead_ok T t rows i (arm # arms) (Arm i)" if "length gone = length alts"
    using that gone(4) covers_all_alts [of alts T rows t] by (auto simp: arm open_rows_def in_set_conv_nth intro!: exI [of _ 0])
  have part: "dead_ok T t rows i (arm # arms) (Alt i j)" if "j \<in> set gone" for j
    using that gone(3) by (auto simp: arm open_rows_def intro!: exI [of _ 0])
  show ?case
    using gone(1) later dead_ok_later [of T t guarded rows alts i arms] whole part
    by (auto simp: arm open_rows_Cons)
qed

lemma open_row_mem: "r \<in> set (open_rows arms) \<longleftrightarrow> (\<exists>alts q. (alts, False) \<in> set arms \<and> q \<in> set alts \<and> r = [q])"
  unfolding open_rows_def by (auto split: if_splits)

lemma open_hit:
  "(\<exists>r \<in> set (open_rows arms). list_all2 (matches T b) r [v]) \<longleftrightarrow> (\<exists>alts q. (alts, False) \<in> set arms \<and> q \<in> set alts \<and> matches T b q v)"
proof -
  have "list_all2 (matches T b) [q] [v] = matches T b q v" for q by simp
  then show ?thesis unfolding Bex_def open_row_mem by metis
qed

lemma alt_hit: "(\<exists>r \<in> set (alt_rows ps). list_all2 (matches T b) r [v]) \<longleftrightarrow> (\<exists>q \<in> set ps. matches T b q v)"
  by simp

lemma check_runs:
  assumes ok: "types_ok T" and arms: "\<forall>arm \<in> set arms. \<forall>p \<in> set (fst arm). pat_ok T p t"
  obtains report where "check arms = Some report"
    "missing report = None \<longrightarrow> covers T (open_rows arms) [Wild] [t]"
    "\<forall>d \<in> set (unreachable report). dead_ok T t [] 0 arms d"
proof -
  obtain gone where gone: "check_arms [] 0 arms = Some (gone, open_rows arms)" "\<forall>d \<in> set gone. dead_ok T t [] 0 arms d"
    using check_arms_ok [OF ok _ arms, of "[]" 0] by (auto simp: one_ok_def)
  have rows: "one_ok T t (open_rows arms)" using arms by (fastforce simp: one_ok_def open_row_mem)
  obtain w m where w: "useful (open_rows arms) [Wild] None = Some (w, m)" "w = None \<longrightarrow> covers T (open_rows arms) [Wild] [t]"
      "\<forall>qs. w = Some qs \<longrightarrow> length qs = 1"
    using useful_one [OF ok rows, of Wild None] by auto
  show thesis
  proof (cases w)
    case None
    then show thesis using that [of "\<lparr>missing = None, mixed_union = m, unreachable = gone\<rparr>"] gone w by (simp add: check_def)
  next
    case (Some qs)
    then obtain q where "qs = [q]" using w(3) by (auto simp: length_Suc_conv)
    then show thesis using that [of "\<lparr>missing = Some q, mixed_union = m, unreachable = gone\<rparr>"] gone w(1) Some by (simp add: check_def)
  qed
qed

section \<open>Properties\<close>

text \<open>
  C7: on well-typed patterns the coverage check never panics, and when it names no missing
  value every value of the scrutinee's type is certainly matched by an alternative of an
  unguarded arm: an opaque pattern, a guard or a union matched both by variants and by
  sequence steps never makes a match look complete.
\<close>

theorem check_exhaustive:
  assumes "types_ok T" and "\<forall>arm \<in> set arms. \<forall>p \<in> set (fst arm). pat_ok T p t"
  shows "\<exists>report. check arms = Some report \<and>
    (missing report = None \<longrightarrow>
      (\<forall>v. has_ty T v t \<longrightarrow> (\<exists>alts p. (alts, False) \<in> set arms \<and> p \<in> set alts \<and> matches T False p v)))"
proof -
  obtain report where run: "check arms = Some report" "missing report = None \<longrightarrow> covers T (open_rows arms) [Wild] [t]"
    by (rule check_runs [OF assms])
  have "\<exists>alts p. (alts, False) \<in> set arms \<and> p \<in> set alts \<and> matches T False p v"
    if "missing report = None" "has_ty T v t" for v
    unfolding open_hit [symmetric] using run(2) that unfolding covers_one by simp
  then show ?thesis using run(1) by blast
qed

text \<open>
  C8: a part of a match reported as unreachable is one: every value an alternative of a dead
  arm may match is certainly matched by an unguarded arm before it, and every value a dead
  alternative may match, by an unguarded arm before its own or an earlier alternative of it.
\<close>

theorem check_unreachable:
  assumes "types_ok T" and "\<forall>arm \<in> set arms. \<forall>p \<in> set (fst arm). pat_ok T p t"
    and "check arms = Some report" and "has_ty T v t"
  shows "(Arm i \<in> set (unreachable report) \<longrightarrow>
      (\<forall>p \<in> set (fst (arms ! i)). matches T True p v \<longrightarrow>
        (\<exists>alts q. (alts, False) \<in> set (take i arms) \<and> q \<in> set alts \<and> matches T False q v))) \<and>
    (Alt i j \<in> set (unreachable report) \<longrightarrow> matches T True (fst (arms ! i) ! j) v \<longrightarrow>
      (\<exists>alts q. (alts, False) \<in> set (take i arms) \<and> q \<in> set alts \<and> matches T False q v) \<or>
      (\<exists>q \<in> set (take j (fst (arms ! i))). matches T False q v))"
proof -
  obtain report' where "check arms = Some report'" "\<forall>d \<in> set (unreachable report'). dead_ok T t [] 0 arms d"
    by (rule check_runs [OF assms(1,2)])
  then have dead: "\<forall>d \<in> set (unreachable report). dead_ok T t [] 0 arms d" using assms(3) by simp
  have "\<exists>r \<in> set (open_rows (take i arms)). list_all2 (matches T False) r [v]"
    if "Arm i \<in> set (unreachable report)" "p \<in> set (fst (arms ! i))" "matches T True p v" for p
  proof -
    have "dead_ok T t [] 0 arms (Arm i)" using dead that(1) by blast
    then have "covers T (open_rows (take i arms)) [p] [t]" using that(2) by simp
    then show ?thesis using that(3) assms(4) unfolding covers_one by blast
  qed
  moreover have "\<exists>r \<in> set (open_rows (take i arms) @ alt_rows (take j (fst (arms ! i)))). list_all2 (matches T False) r [v]"
    if "Alt i j \<in> set (unreachable report)" "matches T True (fst (arms ! i) ! j) v"
  proof -
    have "dead_ok T t [] 0 arms (Alt i j)" using dead that(1) by blast
    then have "covers T (open_rows (take i arms) @ alt_rows (take j (fst (arms ! i)))) [fst (arms ! i) ! j] [t]" by simp
    then show ?thesis using that(2) assms(4) unfolding covers_one by blast
  qed
  ultimately show ?thesis unfolding set_append bex_Un open_hit alt_hit by blast
qed

text \<open>
  C38: a product pattern that names a field twice is read as its first mention only, so the
  check calls \<^verbatim>\<open>P.{ .x = _, .x = true }\<close> complete although it does not match a value whose
  field is false.
\<close>

theorem repeated_field_claims_coverage:
  "map_option missing (check [([DProduct (StructKind ''P'') [(''x'', Wild), (''x'', DCtor (CBool True) [])]], False)]) = Some None \<and>
   \<not> matches T True (DProduct (StructKind ''P'') [(''x'', Wild), (''x'', DCtor (CBool True) [])]) (VProd [(''x'', VBool False)])"
proof
  show "map_option missing (check [([DProduct (StructKind ''P'') [(''x'', Wild), (''x'', DCtor (CBool True) [])]], False)]) = Some None"
    by code_simp
qed simp

section \<open>An instance\<close>

text \<open>CORE's lists of booleans, with their view.\<close>

definition demo_types :: "nat types" where
  "demo_types = \<lparr>
     shape = (\<lambda>t. if t = 0 then Union ''List'' [(''Nil'', []), (''Cons'', [1, 0])] else Bools),
     elem = (\<lambda>t. if t = 0 then Some 1 else None),
     seqview = (\<lambda>v. case v of VVariant u (Suc 0) [h, r] \<Rightarrow> Some (h, r) | _ \<Rightarrow> None)\<rparr>"

definition demo_arms :: "(dpat list \<times> bool) list" where
  "demo_arms = (let siblings = [(''Nil'', 0), (''Cons'', 2)] in
     [([DCtor SeqEmpty []], False),
      ([DCtor SeqMore [DCtor (CBool True) [], Wild], DCtor (Variant ''List'' 0 siblings) []], False),
      ([Opaque], False),
      ([DCtor (Variant ''List'' 1 siblings) [Wild, Wild]], False),
      ([DCtor SeqEmpty [], Wild], True)])"

lemma demo_types_ok: "types_ok demo_types"
proof -
  have "has_ty demo_types h 1 \<and> has_ty demo_types r 0"
    if "has_ty demo_types v 0" "seqview demo_types v = Some (h, r)" for v h r
    using that by (auto simp: demo_types_def split: dval.splits nat.splits list.splits)
  then show ?thesis by (auto simp: types_ok_def demo_types_def split: if_splits)
qed

lemma demo_arms_ok: "\<forall>arm \<in> set demo_arms. \<forall>p \<in> set (fst arm). pat_ok demo_types p 0"
  by (simp add: demo_arms_def demo_types_def is_product_def Let_def)

lemma demo_check:
  "check demo_arms = Some \<lparr>missing = None, mixed_union = None, unreachable = [Alt 1 1, Arm 4]\<rparr>"
  by code_simp

theorem check_exhaustive_witness:
  "map_option missing (check demo_arms) = Some None \<and>
   (\<exists>alts p. (alts, False) \<in> set demo_arms \<and> p \<in> set alts \<and>
     matches demo_types False p (VVariant ''List'' 1 [VBool False, VVariant ''List'' 0 []]))"
proof -
  have "has_ty demo_types (VBool False) 1" by (rule has_ty.bool) (simp add: demo_types_def)
  then have "has_ty demo_types (VVariant ''List'' 1 [VBool False, VVariant ''List'' 0 []]) 0" by (simp add: demo_types_def)
  then show ?thesis using check_exhaustive [OF demo_types_ok demo_arms_ok] unfolding demo_check by simp
qed

theorem check_unreachable_witness:
  "\<exists>alts q. (alts, False) \<in> set (take 4 demo_arms) \<and> q \<in> set alts \<and> matches demo_types False q (VVariant ''List'' 0 [])"
proof -
  have "has_ty demo_types (VVariant ''List'' 0 []) 0" by (simp add: demo_types_def)
  note dead = check_unreachable [OF demo_types_ok demo_arms_ok demo_check this, of 4]
  have "Wild \<in> set (fst (demo_arms ! 4))" by (simp add: demo_arms_def Let_def)
  then show ?thesis using dead by fastforce
qed

end
