(* ===== verification/Core_Terms.thy ===== *)
theory Core_Terms
  imports Handle_Store C_Layout
begin

text \<open>
  The Core lambda calculus of \<^verbatim>\<open>crates/frontend/src/core.rs\<close>. A node type is
  polymorphic in what stands for a child: with handles it is the content of the
  \<^verbatim>\<open>Terms\<close> store, with trees it is the term a handle denotes. Nodes are immutable
  once added, so a pass that maps handles to handles is, on what they denote, a
  function on trees.
\<close>

section \<open>Nodes\<close>

datatype 'c pat =
    PWild
  | PVar name
  | PInt i64
  | PReal f64
  | PStr name
  | PBool bool
  | PTuple "'c pat list"
  | PVariant name "'c pat list"
  | PStruct "(name \<times> 'c pat) list" "name option"
  | PStrPrefix name bool "'c pat"
  | PRange 'c "'c option"
  | PHookEq 'c 'c
  | PSeqView 'c bool "'c pat list" "'c pat option"
  | PTensor nat "'c pat list" "'c pat option" "'c pat list"

datatype 'c arm = Arm (arm_pat: "'c pat") (arm_guard: "'c option") (arm_body: 'c)

datatype 'c clause =
  Clause (clause_effect: "name option") (clause_op: name) (clause_arg: name) (clause_body: 'c)

datatype 'c handler =
  Handler (continuation: name) (clauses: "'c clause list") (handler_default: "(name \<times> 'c) option")

datatype 'c core_term =
    TInt i64
  | TReal f64
  | TStr name
  | TBool bool
  | TUnit
  | TVar "name option" name
  | TApp 'c 'c
  | TLam name 'c
  | TLet name bool 'c 'c
  | TCase 'c "'c arm list" "'c option"
  | TTuple "'c list"
  | TStruct name "'c option" "(name \<times> 'c) list"
  | TVariant name name "'c list"
  | TField 'c name
  | THandle 'c "'c handler"
  | TDefer 'c 'c
  | TExtern name name name "name list" name
  | TFault string

text \<open>
  A tree of nodes, each carrying an annotation: \<^typ>\<open>unit\<close> before the indexing pass,
  the De Bruijn index of the side table \<^verbatim>\<open>CoreProgram::de_bruijn\<close> after it.
\<close>

datatype 'a tree = Tree (tree_ann: 'a) (tree_node: "'a tree core_term")

type_synonym utree = "unit tree"

abbreviation T :: "utree core_term \<Rightarrow> utree" where
  "T \<equiv> Tree ()"

section \<open>Patterns\<close>

fun pat_binders :: "'c pat \<Rightarrow> name list" where
  "pat_binders (PVar n) = [n]"
| "pat_binders (PTuple ps) = concat (map pat_binders ps)"
| "pat_binders (PVariant _ ps) = concat (map pat_binders ps)"
| "pat_binders (PStruct fs rest) =
     concat (map (\<lambda>(_, p). pat_binders p) fs) @ (case rest of None \<Rightarrow> [] | Some n \<Rightarrow> [n])"
| "pat_binders (PStrPrefix _ _ rest) = pat_binders rest"
| "pat_binders (PSeqView _ _ elems rest) =
     concat (map pat_binders elems) @ (case rest of None \<Rightarrow> [] | Some p \<Rightarrow> pat_binders p)"
| "pat_binders (PTensor _ front mid back) =
     concat (map pat_binders front) @ (case mid of None \<Rightarrow> [] | Some p \<Rightarrow> pat_binders p)
       @ concat (map pat_binders back)"
| "pat_binders _ = []"

fun map_terms :: "('c \<Rightarrow> 'd) \<Rightarrow> 'c pat \<Rightarrow> 'd pat" where
  "map_terms f PWild = PWild"
| "map_terms f (PVar n) = PVar n"
| "map_terms f (PInt k) = PInt k"
| "map_terms f (PReal r) = PReal r"
| "map_terms f (PStr s) = PStr s"
| "map_terms f (PBool b) = PBool b"
| "map_terms f (PTuple ps) = PTuple (map (map_terms f) ps)"
| "map_terms f (PVariant tag ps) = PVariant tag (map (map_terms f) ps)"
| "map_terms f (PStruct fs rest) = PStruct (map (\<lambda>(n, p). (n, map_terms f p)) fs) rest"
| "map_terms f (PStrPrefix pre back rest) = PStrPrefix pre back (map_terms f rest)"
| "map_terms f (PRange lo hi) = PRange (f lo) (map_option f hi)"
| "map_terms f (PHookEq eq v) = PHookEq (f eq) (f v)"
| "map_terms f (PSeqView view back elems rest) =
     PSeqView (f view) back (map (map_terms f) elems) (map_option (map_terms f) rest)"
| "map_terms f (PTensor len front mid back) =
     PTensor len (map (map_terms f) front) (map_option (map_terms f) mid) (map (map_terms f) back)"

text \<open>The embedded terms, in the order \<^verbatim>\<open>map_terms\<close> visits them.\<close>

fun pat_terms :: "'c pat \<Rightarrow> 'c list" where
  "pat_terms (PTuple ps) = concat (map pat_terms ps)"
| "pat_terms (PVariant _ ps) = concat (map pat_terms ps)"
| "pat_terms (PStruct fs _) = concat (map (\<lambda>(_, p). pat_terms p) fs)"
| "pat_terms (PStrPrefix _ _ rest) = pat_terms rest"
| "pat_terms (PRange lo hi) = lo # (case hi of None \<Rightarrow> [] | Some h \<Rightarrow> [h])"
| "pat_terms (PHookEq eq v) = [eq, v]"
| "pat_terms (PSeqView view _ elems rest) =
     view # concat (map pat_terms elems) @ (case rest of None \<Rightarrow> [] | Some p \<Rightarrow> pat_terms p)"
| "pat_terms (PTensor _ front mid back) =
     concat (map pat_terms front) @ (case mid of None \<Rightarrow> [] | Some p \<Rightarrow> pat_terms p)
       @ concat (map pat_terms back)"
| "pat_terms _ = []"

lemma map_terms_map_pat: "map_terms f p = map_pat f p"
  by (induction p) (auto intro: option.map_cong)

lemma set_pat_terms: "set (pat_terms p) = set_pat p"
  by (induction p) (auto split: option.splits)

lemma pat_binders_map [simp]: "pat_binders (map_pat f p) = pat_binders p"
proof (induction p)
  case (PStruct fs rest)
  have "map (\<lambda>q. pat_binders (map_pat f (snd q))) fs = map (\<lambda>q. pat_binders (snd q)) fs"
    using PStruct by (intro map_cong) (auto simp: prod_set_defs)
  then show ?case by (simp add: comp_def split_def del: map_eq_conv)
qed (auto simp: comp_def split: option.splits cong: map_cong)

section \<open>Children and binders\<close>

text \<open>
  Note [Core binder discipline]: the immediate subterms of a node in evaluation
  order, each with the names bound around it, innermost last
  (\<^verbatim>\<open>Terms::for_each_child\<close>).
\<close>

definition arm_children :: "'c arm \<Rightarrow> ('c \<times> name list) list" where
  "arm_children a =
     map (\<lambda>t. (t, [])) (pat_terms (arm_pat a))
     @ (case arm_guard a of None \<Rightarrow> [] | Some g \<Rightarrow> [(g, pat_binders (arm_pat a))])
     @ [(arm_body a, pat_binders (arm_pat a))]"

fun node_children :: "'c core_term \<Rightarrow> ('c \<times> name list) list" where
  "node_children (TApp f x) = [(f, []), (x, [])]"
| "node_children (TLam p b) = [(b, [p])]"
| "node_children (TLet x rec v b) = [(v, if rec then [x] else []), (b, [x])]"
| "node_children (TCase s arms d) =
     (s, []) #
     concat (map arm_children arms)
     @ (case d of None \<Rightarrow> [] | Some e \<Rightarrow> [(e, [])])"
| "node_children (TTuple ts) = map (\<lambda>t. (t, [])) ts"
| "node_children (TVariant _ _ ts) = map (\<lambda>t. (t, [])) ts"
| "node_children (TStruct _ base fs) =
     (case base of None \<Rightarrow> [] | Some b \<Rightarrow> [(b, [])]) @ map (\<lambda>(_, t). (t, [])) fs"
| "node_children (TField r _) = [(r, [])]"
| "node_children (THandle b h) =
     (b, []) # map (\<lambda>c. (clause_body c, [clause_arg c, continuation h])) (clauses h)
     @ (case handler_default h of None \<Rightarrow> [] | Some (x, e) \<Rightarrow> [(e, [x])])"
| "node_children (TDefer c b) = [(c, []), (b, [])]"
| "node_children _ = []"

text \<open>\<^verbatim>\<open>map_node\<close>: the node with each child replaced, the function seeing the binders.\<close>

definition map_arm_node :: "('c \<Rightarrow> name list \<Rightarrow> 'd) \<Rightarrow> 'c arm \<Rightarrow> 'd arm" where
  "map_arm_node f a =
     (let bound = pat_binders (arm_pat a)
      in Arm (map_terms (\<lambda>t. f t []) (arm_pat a)) (map_option (\<lambda>g. f g bound) (arm_guard a))
           (f (arm_body a) bound))"

fun map_node :: "('c \<Rightarrow> name list \<Rightarrow> 'd) \<Rightarrow> 'c core_term \<Rightarrow> 'd core_term" where
  "map_node f (TInt k) = TInt k"
| "map_node f (TReal r) = TReal r"
| "map_node f (TStr s) = TStr s"
| "map_node f (TBool b) = TBool b"
| "map_node f TUnit = TUnit"
| "map_node f (TVar m x) = TVar m x"
| "map_node f (TExtern abi symb lib args ret) = TExtern abi symb lib args ret"
| "map_node f (TFault msg) = TFault msg"
| "map_node f (TApp g x) = TApp (f g []) (f x [])"
| "map_node f (TLam p b) = TLam p (f b [p])"
| "map_node f (TLet x rec v b) = TLet x rec (f v (if rec then [x] else [])) (f b [x])"
| "map_node f (TCase s arms d) =
     TCase (f s [])
       (map (map_arm_node f) arms)
       (map_option (\<lambda>e. f e []) d)"
| "map_node f (TTuple ts) = TTuple (map (\<lambda>t. f t []) ts)"
| "map_node f (TVariant ty tag ts) = TVariant ty tag (map (\<lambda>t. f t []) ts)"
| "map_node f (TStruct n base fs) =
     TStruct n (map_option (\<lambda>b. f b []) base) (map (\<lambda>(l, t). (l, f t [])) fs)"
| "map_node f (TField r l) = TField (f r []) l"
| "map_node f (THandle b h) =
     THandle (f b [])
       (Handler (continuation h)
          (map (\<lambda>c. Clause (clause_effect c) (clause_op c) (clause_arg c)
                      (f (clause_body c) [clause_arg c, continuation h])) (clauses h))
          (map_option (\<lambda>(x, e). (x, f e [x])) (handler_default h)))"
| "map_node f (TDefer c b) = TDefer (f c []) (f b [])"

lemma set_arm_eq:
  "set_arm a = set_pat (arm_pat a) \<union> set_option (arm_guard a) \<union> {arm_body a}"
  by (cases a) auto

lemma set_clause_eq: "set_clause c = {clause_body c}"
  by (cases c) auto

lemma set_handler_eq:
  "set_handler h = clause_body ` set (clauses h) \<union> snd ` set_option (handler_default h)"
  by (cases h) (auto simp: set_clause_eq)

lemma set_node_children [core_simps]: "fst ` set (node_children n) = set_core_term n"
proof (cases n)
  case (TCase s arms d)
  then show ?thesis
    by (auto simp: arm_children_def set_arm_eq set_pat_terms image_iff split: option.splits) force+
next
  case (THandle b h)
  then show ?thesis
    by (cases "handler_default h") (auto simp: set_handler_eq image_iff)
qed (force split: option.splits)+

lemma node_children_sub: "(c, bs) \<in> set (node_children n) \<Longrightarrow> c \<in> set_core_term n"
  using set_node_children [of n] by force

lemma case_children:
  "(s, []) \<in> set (node_children (TCase s arms d))"
  "d = Some e \<Longrightarrow> (e, []) \<in> set (node_children (TCase s arms d))"
  "a \<in> set arms \<Longrightarrow> (arm_body a, pat_binders (arm_pat a)) \<in> set (node_children (TCase s arms d))"
  "a \<in> set arms \<Longrightarrow> arm_guard a = Some g \<Longrightarrow>
     (g, pat_binders (arm_pat a)) \<in> set (node_children (TCase s arms d))"
  "a \<in> set arms \<Longrightarrow> t \<in> set_pat (arm_pat a) \<Longrightarrow> (t, []) \<in> set (node_children (TCase s arms d))"
  by (simp, simp, force simp: arm_children_def, force simp: arm_children_def,
      force simp: arm_children_def set_pat_terms)

lemma handle_children:
  "(b, []) \<in> set (node_children (THandle b h))"
  "c \<in> set (clauses h) \<Longrightarrow>
     (clause_body c, [clause_arg c, continuation h]) \<in> set (node_children (THandle b h))"
  "handler_default h = Some (x, e) \<Longrightarrow> (e, [x]) \<in> set (node_children (THandle b h))"
  by auto

lemma map_arm_cong:
  assumes "\<And>t. t \<in> set_pat (arm_pat a) \<Longrightarrow> f t [] = g t []"
    and "\<And>x. arm_guard a = Some x \<Longrightarrow> f x (pat_binders (arm_pat a)) = g x (pat_binders (arm_pat a))"
    and "f (arm_body a) (pat_binders (arm_pat a)) = g (arm_body a) (pat_binders (arm_pat a))"
  shows "map_arm_node f a = map_arm_node g a"
  using assms unfolding map_arm_node_def
  by (cases "arm_guard a") (auto simp: map_terms_map_pat Let_def intro: pat.map_cong)

lemma map_node_cong [fundef_cong]:
  assumes "n = n'" and eq: "\<And>c bs. (c, bs) \<in> set (node_children n') \<Longrightarrow> f c bs = g c bs"
  shows "map_node f n = map_node g n'"
proof (cases n')
  case (TCase s arms d)
  note child = case_children [where s = s and arms = arms and d = d, folded TCase]
  have "map_option (\<lambda>e. f e []) d = map_option (\<lambda>e. g e []) d"
    using eq [OF child(2)] by (cases d) auto
  moreover have "f s [] = g s []" by (rule eq [OF child(1)])
  moreover have "map (map_arm_node f) arms = map (map_arm_node g) arms"
    by (intro map_cong refl map_arm_cong) (rule eq, erule child, assumption?)+
  ultimately show ?thesis using assms(1) TCase by simp
next
  case (THandle b h)
  have "map_option (\<lambda>(x, e). (x, f e [x])) (handler_default h)
      = map_option (\<lambda>(x, e). (x, g e [x])) (handler_default h)"
    using eq THandle by (cases "handler_default h") auto
  then show ?thesis using assms THandle by simp
next
  case (TStruct nm base fs)
  have "map_option (\<lambda>b. f b []) base = map_option (\<lambda>b. g b []) base"
    using eq TStruct by (cases base) auto
  then show ?thesis using assms TStruct by force
qed (use assms in \<open>auto split: option.splits\<close>)

lemma pat_terms_map: "pat_terms (map_pat f p) = map f (pat_terms p)"
proof (induction p)
  case (PStruct fs rest)
  have "map (\<lambda>q. pat_terms (map_pat f (snd q))) fs = map (\<lambda>q. map f (pat_terms (snd q))) fs"
    using PStruct by (intro map_cong) (auto simp: prod_set_defs)
  then show ?case by (simp add: comp_def map_concat split_def del: map_eq_conv)
qed (auto simp: comp_def map_concat split: option.splits cong: map_cong)

lemma arm_children_map_node:
  "arm_children (map_arm_node f a) = map (\<lambda>(c, bs). (f c bs, bs)) (arm_children a)"
  by (cases "arm_guard a")
    (auto simp: arm_children_def map_arm_node_def Let_def map_terms_map_pat pat_terms_map)

lemma node_children_map_node [core_simps]:
  "node_children (map_node f n) = map (\<lambda>(c, bs). (f c bs, bs)) (node_children n)"
  by (cases n) (auto simp: map_concat comp_def arm_children_map_node split: option.splits)

lemma map_node_comp: "map_node g (map_node f n) = map_node (\<lambda>c bs. g (f c bs) bs) n"
proof (cases n)
  case (THandle b h)
  then show ?thesis by (cases "handler_default h") auto
qed (auto simp: map_arm_node_def Let_def map_terms_map_pat pat.map_comp comp_def
    option.map_comp)

section \<open>Trees\<close>

definition subtree :: "('a tree \<times> 'a tree) set" where
  "subtree = {(c, t). c \<in> set_core_term (tree_node t)}"

lemma wf_subtree: "wf subtree"
proof (rule wfUNIVI)
  fix P :: "'a tree \<Rightarrow> bool" and t
  assume "\<forall>t. (\<forall>c. (c, t) \<in> subtree \<longrightarrow> P c) \<longrightarrow> P t"
  then show "P t"
    by (induction t) (auto simp: subtree_def)
qed

lemma subtree_Tree [simp]: "(c, Tree a n) \<in> subtree \<longleftrightarrow> c \<in> set_core_term n"
  by (simp add: subtree_def)

lemma tree_children_induct:
  assumes "\<And>a n. (\<And>c bs. (c, bs) \<in> set (node_children n) \<Longrightarrow> P c) \<Longrightarrow> P (Tree a n)"
  shows "P t"
  by (induction t) (meson assms node_children_sub)

definition is_atom :: "'a tree \<Rightarrow> bool" where
  "is_atom t = (case tree_node t of
       TInt _ \<Rightarrow> True | TReal _ \<Rightarrow> True | TStr _ \<Rightarrow> True | TBool _ \<Rightarrow> True | TUnit \<Rightarrow> True
     | TVar _ _ \<Rightarrow> True | TExtern _ _ _ _ _ \<Rightarrow> True | TLam _ _ \<Rightarrow> True | _ \<Rightarrow> False)"

text \<open>The name of an unqualified variable node.\<close>

fun local_var :: "'c core_term \<Rightarrow> name option" where
  "local_var (TVar None x) = Some x"
| "local_var _ = None"

text \<open>\<^verbatim>\<open>Terms::mentions\<close>: an unqualified occurrence anywhere, shadowing ignored.\<close>

function mentions :: "'a tree \<Rightarrow> name \<Rightarrow> bool" where
  "mentions (Tree a n) x =
     (case local_var n of Some y \<Rightarrow> y = x
      | None \<Rightarrow> (\<exists>(c, bs) \<in> set (node_children n). mentions c x))"
  by pat_completeness auto
termination
  by (relation "inv_image subtree fst") (auto simp: wf_subtree elim: node_children_sub)

text \<open>The free unqualified names, by the binder discipline.\<close>

function fv :: "'a tree \<Rightarrow> name set" where
  "fv (Tree a n) =
     (case local_var n of Some y \<Rightarrow> {y}
      | None \<Rightarrow> (\<Union>(c, bs) \<in> set (node_children n). fv c - set bs))"
  by pat_completeness auto
termination
  by (relation subtree) (auto simp: wf_subtree elim: node_children_sub)

section \<open>Fresh names\<close>

text \<open>
  \<^verbatim>\<open>FreshNames\<close>: a prefix, an optional tag, then the decimal of a counter, which the
  caller threads.
\<close>

definition digit_char :: "nat \<Rightarrow> char" where
  "digit_char d = char_of (48 + d)"

fun decimal :: "nat \<Rightarrow> string" where
  "decimal n = (if n < 10 then [digit_char n] else decimal (n div 10) @ [digit_char (n mod 10)])"

declare decimal.simps [simp del]

definition fresh_tagged :: "string \<Rightarrow> string \<Rightarrow> nat \<Rightarrow> name \<times> nat" where
  "fresh_tagged prefix tag next = (prefix @ tag @ decimal next, next + 1)"

definition fresh_name :: "string \<Rightarrow> nat \<Rightarrow> name \<times> nat" where
  "fresh_name prefix next = fresh_tagged prefix [] next"

fun undecimal :: "nat \<Rightarrow> string \<Rightarrow> nat" where
  "undecimal acc [] = acc"
| "undecimal acc (c # cs) = undecimal (acc * 10 + (of_char c - 48)) cs"

lemma undecimal_append: "undecimal acc (xs @ ys) = undecimal (undecimal acc xs) ys"
  by (induction xs arbitrary: acc) auto

lemma of_digit_char: "d < 10 \<Longrightarrow> of_char (digit_char d) = 48 + d"
  by (simp add: digit_char_def)

lemma undecimal_decimal: "undecimal 0 (decimal n) = n"
proof (induction n rule: decimal.induct)
  case (1 n)
  show ?case
  proof (cases "n < 10")
    case True
    then show ?thesis by (simp add: decimal.simps [of n] of_digit_char)
  next
    case False
    with 1 show ?thesis
      by (simp add: decimal.simps [of n] undecimal_append of_digit_char)
  qed
qed

lemma decimal_inject [simp]: "decimal m = decimal n \<longleftrightarrow> m = n"
  by (metis undecimal_decimal)

lemma fresh_tagged_inject:
  "fst (fresh_tagged p t m) = fst (fresh_tagged p t n) \<longleftrightarrow> m = n"
  by (simp add: fresh_tagged_def)

section \<open>Programs\<close>

type_synonym span = "nat \<times> nat"

record core_effect =
  ce_effect :: name
  ce_op :: name

text \<open>\<^verbatim>\<open>CoreProgram\<close>, its node store replaced by the trees its globals denote.\<close>

record 'a core_program =
  cp_module :: name
  cp_effects :: "core_effect list"
  cp_globals :: "(name \<times> 'a tree) list"
  cp_crepr_layouts :: "(name \<times> ckind clayout) list"
  cp_ctx_globals :: "name list"
  cp_ct_runs :: "(name \<times> span) list"
  cp_ct_evals :: "(name \<times> span) list"
  cp_ct_types :: "(name \<times> span) list"
  cp_ct_patterns :: "(name \<times> span) list"
  cp_ct_rows :: "(name \<times> span) list"
  cp_ct_build :: "name option"
  cp_deferred :: "name list"

definition core_program_new :: "name \<Rightarrow> 'a core_program" where
  "core_program_new m =
     \<lparr>cp_module = m, cp_effects = [], cp_globals = [], cp_crepr_layouts = [], cp_ctx_globals = [],
      cp_ct_runs = [], cp_ct_evals = [], cp_ct_types = [], cp_ct_patterns = [], cp_ct_rows = [],
      cp_ct_build = None, cp_deferred = []\<rparr>"

text \<open>
  \<^verbatim>\<open>rewrite_globals\<close>: the bodies in order, through a function with a state (the
  supplies and tables the pass owns).
\<close>

fun rewrite_globals :: "('a tree \<Rightarrow> 's \<Rightarrow> 'b tree \<times> 's) \<Rightarrow> (name \<times> 'a tree) list \<Rightarrow> 's
    \<Rightarrow> (name \<times> 'b tree) list \<times> 's" where
  "rewrite_globals f [] s = ([], s)"
| "rewrite_globals f ((x, t) # gs) s =
     (let (t', s1) = f t s; (gs', s2) = rewrite_globals f gs s1 in ((x, t') # gs', s2))"

lemma rewrite_globals_names: "map fst (fst (rewrite_globals f gs s)) = map fst gs"
  by (induction gs arbitrary: s) (auto simp: Let_def case_prod_beta)

lemma rewrite_globals_all:
  assumes "\<And>x t s. (x, t) \<in> set gs \<Longrightarrow> P (fst (f t s))"
  shows "\<forall>(x, t) \<in> set (fst (rewrite_globals f gs s)). P t"
  using assms
proof (induction gs arbitrary: s)
  case Nil
  then show ?case by simp
next
  case (Cons g gs)
  obtain x t where g: "g = (x, t)" by fastforce
  obtain t' s1 where ft: "f t s = (t', s1)" by fastforce
  have "P t'" using Cons.prems [of x t s] ft g by simp
  moreover have "\<forall>(x, t) \<in> set (fst (rewrite_globals f gs s1)). P t"
    by (rule Cons.IH) (use Cons.prems in auto)
  ultimately show ?case using ft g by (auto simp: Let_def split: prod.splits)
qed

text \<open>\<^verbatim>\<open>merge\<close> of \<^verbatim>\<open>ir.rs\<close>: several modules into one, each global keyed \<^verbatim>\<open>Module.name\<close>.\<close>

definition qualify :: "name \<Rightarrow> name \<Rightarrow> name" where
  "qualify m x = m @ ''.'' @ x"

definition add_layout :: "(name \<times> ckind clayout) list \<Rightarrow> name \<times> ckind clayout \<Rightarrow> (name \<times> ckind clayout) list" where
  "add_layout ls l = (if fst l \<in> fst ` set ls then ls else ls @ [l])"

definition merge_one :: "'a core_program \<Rightarrow> 'a core_program \<Rightarrow> 'a core_program" where
  "merge_one merged m = merged\<lparr>
     cp_effects := cp_effects merged @ cp_effects m,
     cp_globals := cp_globals merged @ map (\<lambda>(x, t). (qualify (cp_module m) x, t)) (cp_globals m),
     cp_ctx_globals := cp_ctx_globals merged @ map (qualify (cp_module m)) (cp_ctx_globals m),
     cp_crepr_layouts := foldl add_layout (cp_crepr_layouts merged) (cp_crepr_layouts m)\<rparr>"

definition merge_modules :: "'a core_program list \<Rightarrow> 'a core_program" where
  "merge_modules ms =
     foldl merge_one (core_program_new (case ms of [] \<Rightarrow> [] | m # _ \<Rightarrow> cp_module m)) ms"

lemma merge_one_fields [simp]:
  "cp_module (merge_one p m) = cp_module p"
  "cp_globals (merge_one p m) = cp_globals p @ map (\<lambda>(x, t). (qualify (cp_module m) x, t)) (cp_globals m)"
  "cp_effects (merge_one p m) = cp_effects p @ cp_effects m"
  "cp_ctx_globals (merge_one p m) = cp_ctx_globals p @ map (qualify (cp_module m)) (cp_ctx_globals m)"
  "cp_crepr_layouts (merge_one p m) = foldl add_layout (cp_crepr_layouts p) (cp_crepr_layouts m)"
  by (simp_all add: merge_one_def)

lemma add_layout_map_of: "map_of (foldl add_layout ls ls') = map_of ls' ++ map_of ls"
proof (induction ls' arbitrary: ls)
  case (Cons l ls')
  have "map_of (add_layout ls l) = [fst l \<mapsto> snd l] ++ map_of ls"
    by (cases l) (auto simp: add_layout_def fun_eq_iff map_add_def map_of_eq_None_iff
        split: option.splits dest: weak_map_of_SomeI)
  with Cons show ?case by (cases l) (simp add: map_add_assoc [symmetric] map_add_upd_left, simp add: map_add_def fun_eq_iff split: option.splits)
qed simp

lemma add_layout_distinct:
  "distinct (map fst ls) \<Longrightarrow> distinct (map fst (foldl add_layout ls ls'))"
  by (induction ls' arbitrary: ls) (auto simp: add_layout_def)

text \<open>
  C31: Merging keeps every global, effect and context global of every module, in
  module order, under its canonical key; the layouts have one entry a name, the one
  of the first module that declares it.
\<close>

theorem merge_modules_contents:
  "cp_globals (merge_modules ms)
     = concat (map (\<lambda>m. map (\<lambda>(x, t). (qualify (cp_module m) x, t)) (cp_globals m)) ms)
   \<and> cp_effects (merge_modules ms) = concat (map cp_effects ms)
   \<and> cp_ctx_globals (merge_modules ms) = concat (map (\<lambda>m. map (qualify (cp_module m)) (cp_ctx_globals m)) ms)
   \<and> distinct (map fst (cp_crepr_layouts (merge_modules ms)))
   \<and> map_of (cp_crepr_layouts (merge_modules ms)) = map_of (concat (map cp_crepr_layouts ms))"
proof -
  have "cp_globals (foldl merge_one p ms) = cp_globals p @
          concat (map (\<lambda>m. map (\<lambda>(x, t). (qualify (cp_module m) x, t)) (cp_globals m)) ms)"
    and "cp_effects (foldl merge_one p ms) = cp_effects p @ concat (map cp_effects ms)"
    and "cp_ctx_globals (foldl merge_one p ms) = cp_ctx_globals p @
          concat (map (\<lambda>m. map (qualify (cp_module m)) (cp_ctx_globals m)) ms)"
    and "distinct (map fst (cp_crepr_layouts p)) \<Longrightarrow>
          distinct (map fst (cp_crepr_layouts (foldl merge_one p ms)))"
    and "map_of (cp_crepr_layouts (foldl merge_one p ms))
          = map_of (cp_crepr_layouts p @ concat (map cp_crepr_layouts ms))" for p
    by (induction ms arbitrary: p) (simp_all add: add_layout_distinct add_layout_map_of map_add_assoc)
  then show ?thesis by (simp add: merge_modules_def core_program_new_def)
qed

end
