(* ===== verification/De_Bruijn.thy ===== *)
theory De_Bruijn
  imports Core_Terms
begin

text \<open>
  The indexing pass \<^verbatim>\<open>crates/frontend/src/passes/de_bruijn.rs\<close>. The pass gives every
  variable occurrence a node of its own and records its index in a side table
  keyed by that node; on trees the table is the annotation of the occurrence,
  and a node with no entry reads as \<open>0\<close>.
\<close>

section \<open>The pass\<close>

text \<open>
  \<^verbatim>\<open>lookup\<close>: the stack is innermost last; the scan runs from the top. The loop
  visits the pairs of \<^verbatim>\<open>names.iter().enumerate().rev()\<close>.
\<close>

fun lookup_scan :: "(nat \<times> name) list \<Rightarrow> nat \<Rightarrow> name \<Rightarrow> nat" where
  "lookup_scan [] len x = 0"
| "lookup_scan ((i, n) # rest) len x = (if n = x then len - i else lookup_scan rest len x)"

definition db_lookup :: "name list \<Rightarrow> name \<Rightarrow> nat" where
  "db_lookup names x = lookup_scan (rev (enumerate 0 names)) (length names) x"

fun var_index :: "name list \<Rightarrow> 'c core_term \<Rightarrow> nat" where
  "var_index names (TVar m x) = (if m \<noteq> None then 0 else db_lookup names x)"
| "var_index names _ = 0"

function assign :: "name list \<Rightarrow> 'a tree \<Rightarrow> nat tree" where
  "assign names (Tree a n) =
     Tree (var_index names n) (map_node (\<lambda>c bound. assign (names @ bound) c) n)"
  by pat_completeness auto
termination
  by (relation "inv_image subtree snd") (auto simp: wf_subtree elim: node_children_sub)

definition assign_de_bruijn_indices :: "'a core_program \<Rightarrow> nat core_program" where
  "assign_de_bruijn_indices p =
     \<lparr>cp_module = cp_module p, cp_effects = cp_effects p,
      cp_globals = fst (rewrite_globals (\<lambda>t s. (assign [] t, s)) (cp_globals p) ()),
      cp_crepr_layouts = cp_crepr_layouts p, cp_ctx_globals = cp_ctx_globals p,
      cp_ct_runs = cp_ct_runs p, cp_ct_evals = cp_ct_evals p, cp_ct_types = cp_ct_types p,
      cp_ct_patterns = cp_ct_patterns p, cp_ct_rows = cp_ct_rows p, cp_ct_build = cp_ct_build p,
      cp_deferred = cp_deferred p\<rparr>"

section \<open>Lookup finds the innermost binder\<close>

lemma lookup_scan_snoc:
  "lookup_scan (rev (enumerate 0 (names @ [n]))) len x =
     (if n = x then len - length names else lookup_scan (rev (enumerate 0 names)) len x)"
  by (simp add: enumerate_append_eq)

lemma lookup_scan_shift:
  "length names \<le> len \<Longrightarrow> x \<in> set names \<Longrightarrow>
     lookup_scan (rev (enumerate 0 names)) len x
       = lookup_scan (rev (enumerate 0 names)) (length names) x + (len - length names)"
proof (induction names arbitrary: len rule: rev_induct)
  case Nil
  then show ?case by simp
next
  case (snoc n names)
  show ?case
  proof (cases "n = x")
    case True
    with snoc.prems show ?thesis by (simp add: lookup_scan_snoc)
  next
    case False
    with snoc.prems have x: "x \<in> set names" by simp
    show ?thesis
      using snoc.IH [OF _ x, of len] snoc.IH [OF _ x, of "Suc (length names)"] snoc.prems False
      by (simp add: lookup_scan_snoc)
  qed
qed

lemma lookup_scan_absent: "x \<notin> set names \<Longrightarrow> lookup_scan (rev (enumerate 0 names)) len x = 0"
  by (induction names rule: rev_induct) (auto simp: lookup_scan_snoc)

lemma db_lookup_Nil [simp]: "db_lookup [] x = 0"
  by (simp add: db_lookup_def)

lemma db_lookup_snoc [simp]:
  "db_lookup (names @ [n]) x =
     (if n = x then 1 else if x \<in> set names then Suc (db_lookup names x) else 0)"
  using lookup_scan_shift [of names "Suc (length names)" x]
  by (auto simp: db_lookup_def lookup_scan_snoc lookup_scan_absent)

lemma db_lookup_zero_iff [simp]: "db_lookup names x = 0 \<longleftrightarrow> x \<notin> set names"
  by (induction names rule: rev_induct) auto

lemma db_lookup_le: "db_lookup names x \<le> length names"
  by (induction names rule: rev_induct) auto

lemma db_lookup_top:
  assumes "x \<in> set names"
  shows "1 \<le> db_lookup names x \<and> db_lookup names x \<le> length names
       \<and> names ! (length names - db_lookup names x) = x
       \<and> (\<forall>j. length names - db_lookup names x < j \<longrightarrow> j < length names \<longrightarrow> names ! j \<noteq> x)"
  using assms
proof (induction names rule: rev_induct)
  case Nil
  then show ?case by simp
next
  case (snoc n names)
  show ?case
  proof (cases "n = x")
    case True
    then show ?thesis by simp
  next
    case False
    with snoc have x: "x \<in> set names" by simp
    from snoc.IH [OF x] False x show ?thesis
      by (auto simp: nth_append Suc_diff_le)
  qed
qed

section \<open>The indexed tree\<close>

text \<open>Forgetting annotations.\<close>

function erase :: "'a tree \<Rightarrow> utree" where
  "erase (Tree a n) = T (map_node (\<lambda>c _. erase c) n)"
  by pat_completeness auto
termination
  by (relation subtree) (auto simp: wf_subtree elim: node_children_sub)

text \<open>
  What the closure converter reads back: with the binder stack \<open>names\<close>, an unqualified
  occurrence whose index \<open>k\<close> is positive names the binder \<open>k\<close> below the top, an
  occurrence with index \<open>0\<close> is bound by nothing on the stack, and no other node
  carries an index.
\<close>

fun index_ok :: "name list \<Rightarrow> nat \<Rightarrow> 'c core_term \<Rightarrow> bool" where
  "index_ok names k (TVar None x) =
     (if k = 0 then x \<notin> set names
      else k \<le> length names \<and> names ! (length names - k) = x
           \<and> x \<notin> set (drop (length names - k + 1) names))"
| "index_ok names k _ = (k = 0)"

function resolved :: "name list \<Rightarrow> nat tree \<Rightarrow> bool" where
  "resolved names (Tree k n) \<longleftrightarrow>
     index_ok names k n \<and> (\<forall>(c, bs) \<in> set (node_children n). resolved (names @ bs) c)"
  by pat_completeness auto
termination
  by (relation "inv_image subtree snd") (auto simp: wf_subtree elim: node_children_sub)

lemma index_ok_map_node [simp]: "index_ok names k (map_node f n) = index_ok names k n"
proof (cases n)
  case (TVar m x)
  then show ?thesis by (cases m) simp_all
qed simp_all

lemma index_ok_var_index: "index_ok names (var_index names n) n"
proof (cases "\<exists>x. n = TVar None x")
  case True
  then obtain x where n: "n = TVar None x" by blast
  show ?thesis
  proof (cases "x \<in> set names")
    case False
    with n show ?thesis by simp
  next
    case True
    note inner = db_lookup_top [OF True]
    have "x \<notin> set (drop (length names - db_lookup names x + 1) names)"
      using inner by (auto simp: in_set_conv_nth)
    with inner n show ?thesis by simp
  qed
next
  case False
  then show ?thesis by (cases n) (auto split: option.splits)
qed

lemma node_children_mapped:
  "(c', bs) \<in> set (node_children (map_node f n)) \<Longrightarrow>
     \<exists>c. (c, bs) \<in> set (node_children n) \<and> c' = f c bs"
  by (auto simp: node_children_map_node)

lemma assign_ok: "resolved names (assign names t) \<and> erase (assign names t) = erase t"
proof (induction t arbitrary: names rule: tree_children_induct)
  case (1 a n)
  have "resolved (names @ bs) (assign (names @ bs) c) \<and> erase (assign (names @ bs) c) = erase c"
    if "(c, bs) \<in> set (node_children n)" for c bs
    using 1 that by blast
  then show ?case
    by (auto simp: index_ok_var_index map_node_comp dest!: node_children_mapped intro: map_node_cong)
qed

text \<open>
  C9: Indexing changes nothing but annotations, and every annotation is right:
  under any binder stack each occurrence is resolved to its innermost binder, or
  to none when it has none, in the scope the binder discipline gives it.
\<close>

theorem assign_resolves: "resolved names (assign names t) \<and> erase (assign names t) = erase t"
  by (rule assign_ok)

text \<open>Indices never exceed the number of binders around them.\<close>

function scoped :: "nat \<Rightarrow> nat tree \<Rightarrow> bool" where
  "scoped d (Tree k n) \<longleftrightarrow>
     k \<le> d \<and> (\<forall>(c, bs) \<in> set (node_children n). scoped (d + length bs) c)"
  by pat_completeness auto
termination
  by (relation "inv_image subtree snd") (auto simp: wf_subtree elim: node_children_sub)

lemma index_ok_le: "index_ok names k n \<Longrightarrow> k \<le> length names"
  by (cases "(names, k, n)" rule: index_ok.cases) (auto split: if_splits)

lemma resolved_scoped: "resolved names t \<Longrightarrow> scoped (length names) t"
proof (induction t arbitrary: names rule: tree_children_induct)
  case (1 k n)
  have "scoped (length names + length bs) c" if "(c, bs) \<in> set (node_children n)" for c bs
    using 1 that by fastforce
  with 1 show ?case by (auto dest: index_ok_le)
qed

end
