(* ===== verification/A_Normal_Form.thy ===== *)
theory A_Normal_Form
  imports Core_Terms
begin

text \<open>
  The A-normal form pass \<^verbatim>\<open>crates/frontend/src/passes/a_normal_form.rs\<close>, in the
  continuation-passing style of the source: \<open>norm e tail k\<close> lowers \<open>e\<close> and hands its
  value to \<open>k\<close>. The supply of \<^verbatim>\<open>%a\<close> names is the counter threaded through every
  continuation. The node store is append-only and never observed by the pass, so
  terms are trees.
\<close>

section \<open>The pass\<close>

type_synonym cont = "utree \<Rightarrow> nat \<Rightarrow> utree \<times> nat"

definition deliver :: cont where
  "deliver v n = (v, n)"

text \<open>The continuation \<^verbatim>\<open>norm_name\<close> wraps around its caller's: hand over an atom.\<close>

definition name_then :: "cont \<Rightarrow> cont" where
  "name_then k e2 n =
     (if is_atom e2 then k e2 n
      else let (nm, n1) = fresh_name ''%a'' n;
               (body, n2) = k (T (TVar None nm)) n1
           in (T (TLet nm False e2 body), n2))"

text \<open>Lists of subterms normalized left to right, each as a term of its own.\<close>

fun each :: "('a \<Rightarrow> nat \<Rightarrow> 'b \<times> nat) \<Rightarrow> 'a list \<Rightarrow> nat \<Rightarrow> 'b list \<times> nat" where
  "each f [] n = ([], n)"
| "each f (x # xs) n = (let (y, n1) = f x n; (ys, n2) = each f xs n1 in (y # ys, n2))"

definition each_opt :: "('a \<Rightarrow> nat \<Rightarrow> 'b \<times> nat) \<Rightarrow> 'a option \<Rightarrow> nat \<Rightarrow> 'b option \<times> nat" where
  "each_opt f x n = (case x of None \<Rightarrow> (None, n) | Some a \<Rightarrow> (let (y, n1) = f a n in (Some y, n1)))"

text \<open>
  \<^verbatim>\<open>norm_tuple\<close> and \<^verbatim>\<open>norm_struct\<close>: name each field through \<open>f\<close>, then continue with
  all of them.
\<close>

fun name_each :: "('a \<Rightarrow> ('b \<Rightarrow> nat \<Rightarrow> 'r) \<Rightarrow> nat \<Rightarrow> 'r) \<Rightarrow> 'a list \<Rightarrow> 'b list
    \<Rightarrow> ('b list \<Rightarrow> nat \<Rightarrow> 'r) \<Rightarrow> nat \<Rightarrow> 'r" where
  "name_each f [] acc k n = k acc n"
| "name_each f (x # xs) acc k n = f x (\<lambda>a m. name_each f xs (acc @ [a]) k m) n"

lemma each_cong [fundef_cong]:
  assumes "xs = ys" and "\<And>x. x \<in> set ys \<Longrightarrow> f x = g x"
  shows "each f xs = each g ys"
proof
  fix n
  show "each f xs n = each g ys n" using assms by (induction xs arbitrary: n ys) auto
qed

lemma each_opt_cong [fundef_cong]:
  "x = y \<Longrightarrow> (\<And>a. y = Some a \<Longrightarrow> f a = g a) \<Longrightarrow> each_opt f x = each_opt g y"
  by (cases y) (auto simp: each_opt_def)

lemma name_each_cong [fundef_cong]:
  assumes "xs = ys" "acc = acc'" "k = k'" and "\<And>x. x \<in> set ys \<Longrightarrow> f x = g x"
  shows "name_each f xs acc k = name_each g ys acc' k'"
  using assms by (induction xs arbitrary: acc acc' ys) (auto intro!: ext)

declare arm.case_cong [fundef_cong] clause.case_cong [fundef_cong] handler.case_cong [fundef_cong]

function (sequential) norm :: "utree \<Rightarrow> bool \<Rightarrow> cont \<Rightarrow> nat \<Rightarrow> utree \<times> nat" where
  "norm (Tree u (TLam p b)) tail k n =
     (let (b', n1) = norm b True deliver n in k (T (TLam p b')) n1)"
| "norm (Tree u (TVariant ty tag fs)) tail k n =
     (let (fs', n1) = each (\<lambda>f. norm f True deliver) fs n in k (T (TVariant ty tag fs')) n1)"
| "norm (Tree u (TApp f x)) tail k n =
     norm f False (name_then (\<lambda>f2.
       norm x False (name_then (\<lambda>x2. k (T (TApp f2 x2)))))) n"
| "norm (Tree u (TCase s arms d)) tail k n =
     norm s False (name_then (\<lambda>s2 m.
       let (arms', m1) =
             each (\<lambda>a. case a of Arm p g b \<Rightarrow> (\<lambda>i.
                     let (g', i1) = each_opt (\<lambda>ge. norm ge False deliver) g i;
                         (b', i2) = norm b tail deliver i1
                     in (Arm p g' b', i2))) arms m;
           (d', m2) = each_opt (\<lambda>e. norm e tail deliver) d m1
       in k (T (TCase s2 arms' d')) m2)) n"
| "norm (Tree u (TLet x rec v b)) tail k n =
     (if rec \<and> mentions v x
      then (let (v2, n1) = norm v False deliver n; (b', n2) = norm b tail k n1
            in (T (TLet x rec v2 b'), n2))
      else norm v False (\<lambda>v2 m. let (b', m1) = norm b tail k m in (T (TLet x rec v2 b'), m1)) n)"
| "norm (Tree u (TField r l)) tail k n =
     norm r False (name_then (\<lambda>r2. k (T (TField r2 l)))) n"
| "norm (Tree u (TTuple fs)) tail k n =
     name_each (\<lambda>f k'. norm f False (name_then k')) fs [] (\<lambda>acc. k (T (TTuple acc))) n"
| "norm (Tree u (TStruct nm base fs)) tail k n =
     (case base of
        Some b \<Rightarrow>
          norm b False (name_then (\<lambda>b2 m.
            name_each (\<lambda>f k'. norm (snd f) False (name_then (\<lambda>a. k' (fst f, a)))) fs []
              (\<lambda>acc. k (T (TStruct nm (Some b2) acc))) m)) n
      | None \<Rightarrow>
          name_each (\<lambda>f k'. norm (snd f) False (name_then (\<lambda>a. k' (fst f, a)))) fs []
            (\<lambda>acc. k (T (TStruct nm None acc))) n)"
| "norm (Tree u (THandle b h)) tail k n =
     (case h of Handler cont cls d \<Rightarrow>
        let (b', n1) = norm b True deliver n;
            (cls', n2) = each (\<lambda>c. case c of Clause e op arg cb \<Rightarrow> (\<lambda>i.
                           let (cb', i1) = norm cb True deliver i in (Clause e op arg cb', i1))) cls n1;
            (d', n3) = each_opt (\<lambda>xe i. let (e', i1) = norm (snd xe) True deliver i
                                        in ((fst xe, e'), i1)) d n2
        in k (T (THandle b' (Handler cont cls' d'))) n3)"
| "norm (Tree u (TDefer c b)) tail k n =
     (let (c', n1) = norm c True deliver n; (b', n2) = norm b True deliver n1
      in k (T (TDefer c' b')) n2)"
| "norm e tail k n = k e n"
  by pat_completeness auto
termination
  by (relation "inv_image subtree fst")
    (auto simp: wf_subtree prod_set_defs set_clause_eq, force+)

definition anf_term :: "utree \<Rightarrow> nat \<Rightarrow> utree \<times> nat" where
  "anf_term e n = norm e True deliver n"

definition to_a_normal_form :: "unit core_program \<Rightarrow> unit core_program" where
  "to_a_normal_form p = p\<lparr>cp_globals := fst (rewrite_globals anf_term (cp_globals p) 0)\<rparr>"

section \<open>A-normal shape\<close>

text \<open>
  The operands a node reads, which A-normal form makes atoms. A variant's fields
  are not among them (Note [Constructor fields stay inline in ANF]).
\<close>

fun operands :: "'c core_term \<Rightarrow> 'c list" where
  "operands (TApp f x) = [f, x]"
| "operands (TCase s _ _) = [s]"
| "operands (TTuple ts) = ts"
| "operands (TStruct _ base fs) = (case base of None \<Rightarrow> [] | Some b \<Rightarrow> [b]) @ map snd fs"
| "operands (TField r _) = [r]"
| "operands _ = []"

text \<open>
  A pattern after match compilation: one constructor or literal, its fields
  variables (wildcards have been given names); an arm has no guard left.
\<close>

fun simple_pat :: "'c pat \<Rightarrow> bool" where
  "simple_pat (PVar _) = True"
| "simple_pat _ = False"

fun shallow_pat :: "'c pat \<Rightarrow> bool" where
  "shallow_pat (PInt _) = True"
| "shallow_pat (PReal _) = True"
| "shallow_pat (PBool _) = True"
| "shallow_pat (PVariant _ ps) = list_all simple_pat ps"
| "shallow_pat _ = False"

fun node_matched :: "'c core_term \<Rightarrow> bool" where
  "node_matched (TCase _ arms _) = list_all (\<lambda>a. shallow_pat (arm_pat a) \<and> arm_guard a = None) arms"
| "node_matched _ = True"

function matched :: "'a tree \<Rightarrow> bool" where
  "matched (Tree a n) \<longleftrightarrow> node_matched n \<and> (\<forall>(c, bs) \<in> set (node_children n). matched c)"
  by pat_completeness auto
termination
  by (relation subtree) (auto simp: wf_subtree elim: node_children_sub)

function anf :: "'a tree \<Rightarrow> bool" where
  "anf (Tree a n) \<longleftrightarrow>
     node_matched n \<and> list_all is_atom (operands n) \<and> (\<forall>(c, bs) \<in> set (node_children n). anf c)"
  by pat_completeness auto
termination
  by (relation subtree) (auto simp: wf_subtree elim: node_children_sub)

lemma simple_pat_terms: "simple_pat p \<Longrightarrow> pat_terms p = []"
  by (cases p) auto

lemma shallow_pat_terms: "shallow_pat p \<Longrightarrow> pat_terms p = []"
  by (cases p) (auto simp: list_all_iff simple_pat_terms)

lemma each_all:
  assumes "\<And>x n. x \<in> set xs \<Longrightarrow> P x (fst (f x n))"
  shows "list_all2 P xs (fst (each f xs n))"
  using assms by (induction xs arbitrary: n) (auto simp: Let_def case_prod_beta)

lemma each_opt_all:
  assumes "\<And>a n. x = Some a \<Longrightarrow> P a (fst (f a n))"
  shows "rel_option P x (fst (each_opt f x n))"
  using assms by (cases x) (auto simp: each_opt_def Let_def case_prod_beta)

lemma name_each_result:
  assumes step: "\<And>x k n. x \<in> set xs \<Longrightarrow> (\<And>a m. Q a \<Longrightarrow> R (fst (k a m))) \<Longrightarrow> R (fst (f x k n))"
    and "list_all Q acc"
    and "\<And>bs m. list_all Q bs \<Longrightarrow> R (fst (k bs m))"
  shows "R (fst (name_each f xs acc k n))"
  using assms by (induction xs arbitrary: acc n) auto

lemma list_all2_right:
  "list_all2 P xs ys \<Longrightarrow> y \<in> set ys \<Longrightarrow> \<exists>x \<in> set xs. P x y"
  by (metis list_all2_conv_all_nth in_set_conv_nth)

lemma anf_case:
  assumes "anf s" "is_atom s"
    and "\<And>a. a \<in> set arms \<Longrightarrow> shallow_pat (arm_pat a) \<and> arm_guard a = None \<and> anf (arm_body a)"
    and "\<And>e. d = Some e \<Longrightarrow> anf e"
  shows "anf (T (TCase s arms d))"
  using assms by (auto simp: list_all_iff arm_children_def shallow_pat_terms split: option.splits)

lemma deliver_fst [simp]: "fst (deliver v n) = v"
  by (simp add: deliver_def)

lemma name_then_result:
  assumes "\<And>v m. anf v \<Longrightarrow> is_atom v \<Longrightarrow> anf (fst (k v m))" and "anf v"
  shows "anf (fst (name_then k v n))"
proof (cases "is_atom v")
  case True
  with assms show ?thesis by (simp add: name_then_def)
next
  case False
  obtain nm n1 where f: "fresh_name ''%a'' n = (nm, n1)" by fastforce
  have "anf (T (TVar None nm))" "is_atom (T (TVar None nm))" by (simp_all add: is_atom_def)
  then have "anf (fst (k (T (TVar None nm)) n1))" by (rule assms(1))
  with False f assms(2) show ?thesis
    by (auto simp: name_then_def Let_def case_prod_beta)
qed

lemma node_matched_case: "node_matched (TCase s arms d) \<longleftrightarrow>
    (\<forall>a \<in> set arms. shallow_pat (arm_pat a) \<and> arm_guard a = None)"
  by (auto simp: list_all_iff)

lemma norm_anf:
  assumes "matched e" and "\<And>v m. anf v \<Longrightarrow> anf (fst (k v m))"
  shows "anf (fst (norm e tail k n))"
  using assms
proof (induction e arbitrary: tail k n rule: tree_children_induct)
  case (1 u nd)
  have ih: "anf (fst (norm c tl k' m))"
    if "(c, bs) \<in> set (node_children nd)" "\<And>v m. anf v \<Longrightarrow> anf (fst (k' v m))" for c bs tl k' m
    using "1.IH" [OF that(1)] "1.prems"(1) that by auto
  have sub: "anf (fst (norm c tl deliver m))" if "(c, bs) \<in> set (node_children nd)" for c bs tl m
    by (rule ih [OF that]) simp
  show ?case
  proof (cases nd)
    case (TLam p b)
    then show ?thesis
      using sub [of b "[p]" True n] by (auto simp: Let_def case_prod_beta intro!: "1.prems"(2))
  next
    case (TVariant ty tag fs)
    have "list_all2 (\<lambda>_ t. anf t) fs (fst (each (\<lambda>f. norm f True deliver) fs n))"
      using TVariant by (intro each_all sub [of _ "[]"]) auto
    then show ?thesis using TVariant
      by (auto simp: Let_def case_prod_beta list_all2_conv_all_nth in_set_conv_nth intro!: "1.prems"(2))
  next
    case (TApp f x)
    then show ?thesis
      by (auto intro!: ih [of f "[]"] ih [of x "[]"] name_then_result "1.prems"(2))
  next
    case (TField r l)
    then show ?thesis by (auto intro!: ih [of r "[]"] name_then_result "1.prems"(2))
  next
    case (TDefer c b)
    then show ?thesis
      using sub [of c "[]"] sub [of b "[]"] by (auto simp: Let_def case_prod_beta intro!: "1.prems"(2))
  next
    case (TTuple fs)
    have "anf (fst (name_each (\<lambda>f k'. norm f False (name_then k')) fs [] (\<lambda>acc. k (T (TTuple acc))) n))"
    proof (rule name_each_result [where Q = "\<lambda>a. anf a \<and> is_atom a"])
      fix f and k' :: cont and m
      assume "f \<in> set fs" "\<And>a m. anf a \<and> is_atom a \<Longrightarrow> anf (fst (k' a m))"
      then show "anf (fst (norm f False (name_then k') m))"
        using TTuple by (intro ih [of f "[]"] name_then_result) auto
    next
      fix acc :: "utree list" and m
      assume "list_all (\<lambda>a. anf a \<and> is_atom a) acc"
      then show "anf (fst (k (T (TTuple acc)) m))"
        by (intro "1.prems"(2)) (auto simp: list_all_iff)
    qed simp
    then show ?thesis using TTuple by simp
  next
    case (TLet x rec v b)
    let ?vb = "if rec then [x] else []"
    have v: "(v, ?vb) \<in> set (node_children nd)" and b: "(b, [x]) \<in> set (node_children nd)"
      using TLet by auto
    have body: "anf (fst (norm b tail k m))" for m by (rule ih [OF b "1.prems"(2)])
    show ?thesis
    proof (cases "rec \<and> mentions v x")
      case True
      then show ?thesis using TLet body sub [OF v] by (simp add: Let_def case_prod_beta)
    next
      case False
      then have eq: "norm (Tree u nd) tail k n =
          norm v False (\<lambda>v2 m. let (b', m1) = norm b tail k m in (T (TLet x rec v2 b'), m1)) n"
        using TLet by auto
      show ?thesis unfolding eq
        by (rule ih [OF v]) (simp add: Let_def case_prod_beta body)
    qed
  next
    case (TStruct nm base fs)
    let ?f = "\<lambda>f k'. norm (snd f) False (name_then (\<lambda>a. k' (fst f, a)))"
    have fields: "anf (fst (name_each ?f fs [] (\<lambda>acc. k (T (TStruct nm b acc))) m))"
      if b: "\<And>x. b = Some x \<Longrightarrow> anf x \<and> is_atom x" for b m
    proof (rule name_each_result [where Q = "\<lambda>(_, a). anf a \<and> is_atom a"])
      fix f and k' :: "name \<times> utree \<Rightarrow> nat \<Rightarrow> utree \<times> nat" and m
      assume f: "f \<in> set fs"
        and k': "\<And>a m. case a of (_, a) \<Rightarrow> anf a \<and> is_atom a \<Longrightarrow> anf (fst (k' a m))"
      have "(snd f, []) \<in> set (node_children nd)"
        using TStruct f by (auto simp: case_prod_beta)
      then show "anf (fst (?f f k' m))"
        by (rule ih) (auto intro!: name_then_result k')
    next
      fix acc :: "(name \<times> utree) list" and m
      assume "list_all (\<lambda>(_, a). anf a \<and> is_atom a) acc"
      then show "anf (fst (k (T (TStruct nm b acc)) m))"
        using b by (intro "1.prems"(2)) (fastforce simp: list_all_iff split: option.splits)
    qed simp
    show ?thesis
    proof (cases base)
      case None
      then show ?thesis using TStruct fields [of None n] by simp
    next
      case (Some b)
      then show ?thesis
        using TStruct by (auto intro!: ih [of b "[]"] name_then_result fields)
    qed
  next
    case (TCase s arms d)
    let ?arm = "\<lambda>a. case a of Arm p g b \<Rightarrow> (\<lambda>i.
        let (g', i1) = each_opt (\<lambda>ge. norm ge False deliver) g i;
            (b', i2) = norm b tail deliver i1
        in (Arm p g' b', i2))"
    note child = case_children [where s = s and arms = arms and d = d, folded TCase]
    have shallow: "shallow_pat (arm_pat a) \<and> arm_guard a = None" if "a \<in> set arms" for a
      using "1.prems"(1) TCase that by (auto simp: list_all_iff)
    have arms: "list_all2 (\<lambda>a a'. arm_pat a' = arm_pat a \<and> arm_guard a' = None \<and> anf (arm_body a'))
        arms (fst (each ?arm arms m))" for m
      using shallow sub [OF child(3)]
      by (intro each_all) (force simp: each_opt_def Let_def case_prod_beta split: arm.splits)
    have default: "rel_option (\<lambda>_ e. anf e) d (fst (each_opt (\<lambda>e. norm e tail deliver) d m))" for m
      by (intro each_opt_all sub [OF child(2)])
    have built: "anf (T (TCase s2 (fst (each ?arm arms m)) (fst (each_opt (\<lambda>e. norm e tail deliver) d m'))))"
      if "anf s2" "is_atom s2" for s2 m m'
    proof -
      have "shallow_pat (arm_pat a') \<and> arm_guard a' = None \<and> anf (arm_body a')"
        if "a' \<in> set (fst (each ?arm arms m))" for a'
        using list_all2_right [OF arms that] shallow by auto
      then show ?thesis
        using that default [of m'] by (intro anf_case) (auto elim: option.rel_cases)
    qed
    show ?thesis
      using TCase built
      by (auto simp: Let_def case_prod_beta intro!: ih [OF child(1)] name_then_result "1.prems"(2))
  next
    case (THandle b h)
    obtain cont cls d where h: "h = Handler cont cls d" by (cases h)
    let ?cl = "\<lambda>c. case c of Clause e op arg cb \<Rightarrow> (\<lambda>i.
        let (cb', i1) = norm cb True deliver i in (Clause e op arg cb', i1))"
    let ?df = "\<lambda>xe i. let (e', i1) = norm (snd xe) True deliver i in ((fst xe, e'), i1)"
    have cls: "list_all2 (\<lambda>_ c'. anf (clause_body c')) cls (fst (each ?cl cls m))" for m
    proof (rule each_all)
      fix c m assume "c \<in> set cls"
      then have "anf (fst (norm (clause_body c) True deliver m))"
        using sub [OF handle_children(2) [where b = b and h = h, folded THandle]] h by simp
      then show "anf (clause_body (fst (?cl c m)))"
        by (cases c) (simp add: Let_def case_prod_beta)
    qed
    have default: "rel_option (\<lambda>_ xe. anf (snd xe)) d (fst (each_opt ?df d m))" for m
    proof (rule each_opt_all)
      fix xe m assume "d = Some xe"
      then have "anf (fst (norm (snd xe) True deliver m))"
        using sub [OF handle_children(3) [where b = b and h = h, folded THandle]] h by (cases xe) simp
      then show "anf (snd (fst (?df xe m)))" by (simp add: Let_def case_prod_beta)
    qed
    have built: "anf (T (THandle b' (Handler cont (fst (each ?cl cls m)) (fst (each_opt ?df d m')))))"
      if "anf b'" for b' m m'
      using list_all2_right [OF cls [of m]] default [of m'] that
      by (auto split: option.splits elim: option.rel_cases)
    let ?n1 = "snd (norm b True deliver n)"
    let ?n2 = "snd (each ?cl cls ?n1)"
    have eq: "norm (Tree u nd) tail k n =
        k (T (THandle (fst (norm b True deliver n))
            (Handler cont (fst (each ?cl cls ?n1)) (fst (each_opt ?df d ?n2)))))
          (snd (each_opt ?df d ?n2))"
      unfolding THandle h norm.simps handler.case Let_def case_prod_beta by (rule refl)
    show ?thesis unfolding eq
      using THandle by (intro "1.prems"(2) built sub [of b "[]"]) simp
  qed (use "1.prems"(2) in auto)
qed

text \<open>
  C16: The pass puts every match-compiled program in A-normal form: every operator
  and operand of an application, every scrutinee, projected record, tuple and
  struct field is an atom, at every depth, and the globals keep their names and
  order.
\<close>

theorem to_a_normal_form_shape:
  assumes "\<forall>(x, t) \<in> set (cp_globals p). matched t"
  shows "(\<forall>(x, t) \<in> set (cp_globals (to_a_normal_form p)). anf t)
       \<and> map fst (cp_globals (to_a_normal_form p)) = map fst (cp_globals p)"
proof
  show "\<forall>(x, t) \<in> set (cp_globals (to_a_normal_form p)). anf t"
    unfolding to_a_normal_form_def using assms
    by (auto simp: anf_term_def intro!: norm_anf rewrite_globals_all [where P = anf, simplified])
  show "map fst (cp_globals (to_a_normal_form p)) = map fst (cp_globals p)"
    by (simp add: to_a_normal_form_def rewrite_globals_names)
qed

section \<open>Floating a binder over an earlier operand\<close>

definition capturing :: utree where
  "capturing = T (TTuple [T (TVar None ''x''),
     T (TLet ''x'' True (T (TInt 1)) (T (TVar None ''x'')))])"

text \<open>
  C35: The pass floats the \<open>let\<close>s of an operand over the operands to its left without
  renaming, so an operand that binds a name an earlier operand reads captures it:
  the tuple \<open>(x, let x = 1 in x)\<close>, whose first component is the enclosing
  \<open>x\<close>, becomes \<open>let x = 1 in (x, x)\<close>, where it is \<open>1\<close>.
\<close>

theorem anf_captures_earlier_operand:
  "fst (anf_term capturing n) =
     T (TLet ''x'' True (T (TInt 1)) (T (TTuple [T (TVar None ''x''), T (TVar None ''x'')])))
   \<and> fv capturing = {''x''} \<and> fv (fst (anf_term capturing n)) = {}"
proof -
  have "fst (anf_term capturing n) =
     T (TLet ''x'' True (T (TInt 1)) (T (TTuple [T (TVar None ''x''), T (TVar None ''x'')])))"
    by (simp add: anf_term_def capturing_def name_then_def is_atom_def deliver_def)
  then show ?thesis by (simp add: capturing_def)
qed

section \<open>Witness\<close>

definition demo_anf :: "unit core_program" where
  "demo_anf = (core_program_new ''M'')\<lparr>cp_globals :=
     [(''g'', T (TApp (T (TVar None ''f'')) (T (TApp (T (TVar None ''g'')) (T (TVar None ''x''))))))]\<rparr>"

theorem to_a_normal_form_shape_witness:
  "list_all (\<lambda>(x, t). anf t) (cp_globals (to_a_normal_form demo_anf))
   \<and> map fst (cp_globals (to_a_normal_form demo_anf)) = [''g'']"
  using to_a_normal_form_shape [of demo_anf]
  by (simp add: demo_anf_def core_program_new_def list_all_iff)

end
