(* ===== verification/Match_Compilation.thy ===== *)
theory Match_Compilation
  imports A_Normal_Form
begin

text \<open>
  Match compilation \<^verbatim>\<open>crates/frontend/src/passes/match_compilation.rs\<close>: nested patterns
  become trees of shallow cases, arms tried in order, with the remaining arms put at
  the one point where an arm can fail or behind a fallthrough thunk. The supply of
  fresh names is the threaded number. Where the source compares handles of nodes to
  find the failure point, the trees are compared; the point calls a fresh name, so it
  is the only node equal to it.
\<close>

section \<open>Building nodes\<close>

type_synonym upat = "utree pat"
type_synonym uarm = "utree arm"

definition var :: "name \<Rightarrow> utree" where
  "var x = T (TVar None x)"

definition app :: "utree \<Rightarrow> utree \<Rightarrow> utree" where
  "app f x = T (TApp f x)"

definition bin :: "name \<Rightarrow> utree \<Rightarrow> utree \<Rightarrow> utree" where
  "bin opr l r = app (app (var opr) l) r"

definition let_in :: "name \<Rightarrow> utree \<Rightarrow> utree \<Rightarrow> utree" where
  "let_in x v b = T (TLet x False v b)"

definition case1 :: "utree \<Rightarrow> upat \<Rightarrow> utree \<Rightarrow> utree \<Rightarrow> utree" where
  "case1 scrut p body dflt = T (TCase scrut [Arm p None body] (Some dflt))"

definition when_true :: "utree \<Rightarrow> utree \<Rightarrow> utree \<Rightarrow> utree" where
  "when_true test body dflt = case1 test (PBool True) body dflt"

definition mfresh :: "string \<Rightarrow> nat \<Rightarrow> name \<times> nat" where
  "mfresh tag n = fresh_tagged ''%m'' tag n"

definition view_call :: "utree \<Rightarrow> name \<Rightarrow> utree" where
  "view_call view sv = app view (var sv)"

definition array_len :: "name \<Rightarrow> utree" where
  "array_len sv = app (var ''@array_len'') (var sv)"

definition array_slice :: "name \<Rightarrow> utree \<Rightarrow> utree \<Rightarrow> utree" where
  "array_slice sv b e = app (app (app (var ''@array_slice'') (var sv)) b) e"

definition record_without :: "utree \<Rightarrow> name \<Rightarrow> utree" where
  "record_without r l = app (app (var ''record_without'') r) (T (TStr l))"

definition index_names :: "nat \<Rightarrow> name list" where
  "index_names n = map decimal [0..<n]"

text \<open>The wrap of \<^verbatim>\<open>as i64\<close>.\<close>

definition as_i64 :: "int \<Rightarrow> i64" where
  "as_i64 k = sint (word_of_int k :: 64 word)"

definition tensor_index :: "name \<Rightarrow> int \<Rightarrow> utree" where
  "tensor_index sv i = app (app (var ''@tensor_index'') (var sv)) (T (TInt (as_i64 i)))"

definition tensor_slice :: "name \<Rightarrow> int \<Rightarrow> int \<Rightarrow> utree" where
  "tensor_slice sv lo hi = app (app (app (var ''@tensor_slice'') (var sv)) (T (TInt (as_i64 lo)))) (T (TInt (as_i64 hi)))"

section \<open>Patterns\<close>

text \<open>
  The traversals of sub-patterns, over a compiler \<open>cp\<close> of one pattern against a variable
  and a continuation: \<^verbatim>\<open>compile_fields_from\<close>, \<^verbatim>\<open>compile_binders_from\<close>, the fold over the
  parts of a tensor, and \<^verbatim>\<open>compile_seqview\<close> on the elements in the order it takes them.
\<close>

fun fields_from :: "(name \<Rightarrow> upat \<Rightarrow> utree \<Rightarrow> nat \<Rightarrow> utree \<times> nat) \<Rightarrow> name \<Rightarrow> (name \<times> upat) list \<Rightarrow> utree \<Rightarrow> nat \<Rightarrow> utree \<times> nat" where
  "fields_from cp sv [] on_match n = (on_match, n)"
| "fields_from cp sv ((l, p) # fs) on_match n =
     (let (fv, n1) = mfresh ''f'' n;
          (rest, n2) = fields_from cp sv fs on_match n1;
          (sub, n3) = cp fv p rest n2
      in (let_in fv (T (TField (var sv) l)) sub, n3))"

fun binders_from :: "(name \<Rightarrow> upat \<Rightarrow> utree \<Rightarrow> nat \<Rightarrow> utree \<times> nat) \<Rightarrow> (name \<times> upat) list \<Rightarrow> utree \<Rightarrow> nat \<Rightarrow> utree \<times> nat" where
  "binders_from cp [] on_match n = (on_match, n)"
| "binders_from cp ((b, p) # bs) on_match n =
     (let (rest, n1) = binders_from cp bs on_match n in cp b p rest n1)"

fun parts_from :: "(name \<Rightarrow> upat \<Rightarrow> utree \<Rightarrow> nat \<Rightarrow> utree \<times> nat) \<Rightarrow> (utree \<times> upat) list \<Rightarrow> utree \<Rightarrow> nat \<Rightarrow> utree \<times> nat" where
  "parts_from cp [] on_match n = (on_match, n)"
| "parts_from cp ((v, p) # ps) on_match n =
     (let (inner, n1) = parts_from cp ps on_match n;
          (fv, n2) = mfresh ''f'' n1;
          (sub, n3) = cp fv p inner n2
      in (let_in fv v sub, n3))"

fun fresh_binders :: "'a list \<Rightarrow> nat \<Rightarrow> name list \<times> nat" where
  "fresh_binders [] n = ([], n)"
| "fresh_binders (_ # xs) n =
     (let (b, n1) = mfresh ''v'' n; (bs, n2) = fresh_binders xs n1 in (b # bs, n2))"

fun seqview_from :: "(name \<Rightarrow> upat \<Rightarrow> utree \<Rightarrow> nat \<Rightarrow> utree \<times> nat) \<Rightarrow> name \<Rightarrow> utree \<Rightarrow> upat list \<Rightarrow> upat option
    \<Rightarrow> utree \<Rightarrow> utree \<Rightarrow> nat \<Rightarrow> utree \<times> nat" where
  "seqview_from cp sv view [] rest on_match on_fail n =
     (case rest of
        Some pr \<Rightarrow> cp sv pr on_match n
      | None \<Rightarrow>
          (let (vw, n1) = mfresh ''vw'' n
           in (let_in vw (view_call view sv) (case1 (var vw) (PVariant ''Empty'' []) on_match on_fail), n1)))"
| "seqview_from cp sv view (e # es) rest on_match on_fail n =
     (let (vw, n1) = mfresh ''vw'' n;
          (h, n2) = mfresh ''h'' n1;
          (tl, n3) = mfresh ''t'' n2;
          (recur, n4) = seqview_from cp tl view es rest on_match on_fail n3;
          (found, n5) = cp h e recur n4
      in (let_in vw (view_call view sv) (case1 (var vw) (PVariant ''More'' [PVar h, PVar tl]) found on_fail), n5))"

lemma fields_from_cong [fundef_cong]:
  assumes "sv = sv'" "fs = fs'" "m = m'" "n = n'" and "\<And>x v k i. x \<in> set fs' \<Longrightarrow> cp v (snd x) k i = cp' v (snd x) k i"
  shows "fields_from cp sv fs m n = fields_from cp' sv' fs' m' n'"
  using assms(5) unfolding assms(1-4)
proof (induction fs' arbitrary: n')
  case (Cons x fs)
  obtain l p where x: "x = (l, p)" by fastforce
  show ?case using Cons.IH Cons.prems [of x] Cons.prems x by (simp add: Let_def split_beta)
qed simp

lemma binders_from_cong [fundef_cong]:
  assumes "bs = bs'" "m = m'" "n = n'" and "\<And>x v k i. x \<in> set bs' \<Longrightarrow> cp v (snd x) k i = cp' v (snd x) k i"
  shows "binders_from cp bs m n = binders_from cp' bs' m' n'"
  using assms(4) unfolding assms(1-3)
proof (induction bs' arbitrary: n')
  case (Cons x bs)
  obtain l p where x: "x = (l, p)" by fastforce
  show ?case using Cons.IH Cons.prems [of x] Cons.prems x by (simp add: Let_def split_beta)
qed simp

lemma parts_from_cong [fundef_cong]:
  assumes "ps = ps'" "m = m'" "n = n'" and "\<And>x v k i. x \<in> set ps' \<Longrightarrow> cp v (snd x) k i = cp' v (snd x) k i"
  shows "parts_from cp ps m n = parts_from cp' ps' m' n'"
  using assms(4) unfolding assms(1-3)
proof (induction ps' arbitrary: n')
  case (Cons x ps)
  obtain l p where x: "x = (l, p)" by fastforce
  show ?case using Cons.IH Cons.prems [of x] Cons.prems x by (simp add: Let_def split_beta)
qed simp

lemma seqview_from_cong [fundef_cong]:
  assumes "sv = sv'" "view = view'" "es = es'" "rest = rest'" "m = m'" "f = f'" "n = n'"
    and "\<And>p v k i. p \<in> set es' \<Longrightarrow> cp v p k i = cp' v p k i" "\<And>p v k i. rest' = Some p \<Longrightarrow> cp v p k i = cp' v p k i"
  shows "seqview_from cp sv view es rest m f n = seqview_from cp' sv' view' es' rest' m' f' n'"
  using assms(8,9) unfolding assms(1-7)
proof (induction es' arbitrary: sv' n')
  case Nil
  then show ?case by (cases rest') auto
next
  case (Cons e es)
  show ?case using Cons.IH Cons.prems(1) [of e] Cons.prems by (simp add: Let_def split_beta)
qed

lemma pat_size_mem: "p \<in> set ps \<Longrightarrow> size p \<le> size_list size ps" for ps :: "'c pat list"
  by (induction ps) auto

lemma pat_size_zip: "(a, p) \<in> set (zip xs ps) \<Longrightarrow> size p \<le> size_list size ps" for ps :: "'c pat list"
  using pat_size_mem [of p ps] by (auto dest: set_zip_rightD)

lemma pat_size_pair: "(l, p) \<in> set fs \<Longrightarrow> size p \<le> size_list (size_prod (\<lambda>x. 0) size) fs" for fs :: "(name \<times> 'c pat) list"
  by (drule size_list_estimation' [where y = "size p" and f = "size_prod (\<lambda>x. 0) size"]) simp_all

lemma pat_size_numbered: "(i, p) \<in> set (enumerate k ps) \<Longrightarrow> size p \<le> size_list size ps" for ps :: "'c pat list"
  using pat_size_mem [of p ps] in_set_enumerate_eq [of "(i, p)" k ps] by auto

text \<open>\<^verbatim>\<open>compile_pat\<close>; \<open>hk\<close> stands for \<^verbatim>\<open>go\<close> at the value of a hooked literal, and the record of a rest pattern drops the listed labels.\<close>

definition without_labels :: "name \<Rightarrow> name list \<Rightarrow> utree" where
  "without_labels sv ls = foldl record_without (var sv) ls"

function (sequential) compile_pat :: "(utree \<Rightarrow> nat \<Rightarrow> utree \<times> nat) \<Rightarrow> name \<Rightarrow> upat \<Rightarrow> utree \<Rightarrow> utree \<Rightarrow> nat \<Rightarrow> utree \<times> nat" where
  "compile_pat hk sv PWild on_match on_fail n = (on_match, n)"
| "compile_pat hk sv (PVar x) on_match on_fail n = (let_in x (var sv) on_match, n)"
| "compile_pat hk sv (PInt k) on_match on_fail n = (case1 (var sv) (PInt k) on_match on_fail, n)"
| "compile_pat hk sv (PReal r) on_match on_fail n = (case1 (var sv) (PReal r) on_match on_fail, n)"
| "compile_pat hk sv (PBool b) on_match on_fail n = (case1 (var sv) (PBool b) on_match on_fail, n)"
| "compile_pat hk sv (PStr bytes) on_match on_fail n =
     (when_true (bin ''=='' (var sv) (T (TStr bytes))) on_match on_fail, n)"
| "compile_pat hk sv (PHookEq eq v) on_match on_fail n =
     (let (v', n1) = hk v n in (when_true (app (app eq (var sv)) v') on_match on_fail, n1))"
| "compile_pat hk sv (PSeqView view back elems rest) on_match on_fail n =
     seqview_from (\<lambda>x p k. compile_pat hk x p k on_fail) sv view (if back then rev elems else elems) rest on_match on_fail n"
| "compile_pat hk sv (PTensor len front mid back) on_match on_fail n =
     (let back_start = int len - int (length back)
      in parts_from (\<lambda>x p k. compile_pat hk x p k on_fail)
           (map (\<lambda>(i, p). (tensor_index sv (int i), p)) (enumerate 0 front)
            @ (case mid of None \<Rightarrow> [] | Some m \<Rightarrow> [(tensor_slice sv (int (length front)) back_start, m)])
            @ map (\<lambda>(j, p). (tensor_index sv (back_start + int j), p)) (enumerate 0 back)) on_match n)"
| "compile_pat hk sv (PRange lo hi) on_match on_fail n =
     (let inner = (case hi of Some h \<Rightarrow> when_true (bin ''<='' (var sv) h) on_match on_fail | None \<Rightarrow> on_match)
      in (when_true (bin ''>='' (var sv) lo) inner on_fail, n))"
| "compile_pat hk sv (PTuple pats) on_match on_fail n =
     fields_from (\<lambda>x p k. compile_pat hk x p k on_fail) sv (zip (index_names (length pats)) pats) on_match n"
| "compile_pat hk sv (PStruct fs rest) on_match on_fail n =
     (let on_match1 = (case rest of
            Some x \<Rightarrow> let_in x (without_labels sv (map fst fs)) on_match
          | None \<Rightarrow> on_match)
      in fields_from (\<lambda>x p k. compile_pat hk x p k on_fail) sv fs on_match1 n)"
| "compile_pat hk sv (PVariant tag fs) on_match on_fail n =
     (let (bs, n1) = fresh_binders fs n;
          (inner, n2) = binders_from (\<lambda>x p k. compile_pat hk x p k on_fail) (zip bs fs) on_match n1
      in (case1 (var sv) (PVariant tag (map PVar bs)) inner on_fail, n2))"
| "compile_pat hk sv (PStrPrefix prefix back rest) on_match on_fail n =
     (let plen = T (TInt (as_i64 (int (length prefix))));
          cut = (if back then bin ''@isub'' (array_len sv) plen else plen);
          zero = T (TInt 0);
          (lit, left) = (if back then (array_slice sv cut (array_len sv), array_slice sv zero cut)
                         else (array_slice sv zero cut, array_slice sv cut (array_len sv)));
          (tv, n1) = mfresh ''t'' n;
          (tail, n2) = compile_pat hk tv rest on_match on_fail n1;
          prefix_ok = when_true (bin ''=='' lit (T (TStr prefix))) (let_in tv left tail) on_fail
      in (when_true (bin ''>='' (array_len sv) plen) prefix_ok on_fail, n2))"
  by pat_completeness auto
termination
  by (relation "measure (\<lambda>(_, _, p, _). size p)")
     (auto simp: less_Suc_eq_le dest: pat_size_mem pat_size_pair pat_size_numbered pat_size_zip intro: trans_le_add1 trans_le_add2 split: if_splits)

section \<open>Arms\<close>

definition compile_arm :: "(utree \<Rightarrow> nat \<Rightarrow> utree \<times> nat) \<Rightarrow> name \<Rightarrow> uarm \<Rightarrow> utree \<Rightarrow> nat \<Rightarrow> utree \<times> nat" where
  "compile_arm hk s a on_fail n =
     compile_pat hk s (arm_pat a)
       (case arm_guard a of Some g \<Rightarrow> when_true g (arm_body a) on_fail | None \<Rightarrow> arm_body a) on_fail n"

fun irrefutable :: "'c pat \<Rightarrow> bool" where
  "irrefutable PWild = True"
| "irrefutable (PVar _) = True"
| "irrefutable (PTuple ps) = list_all irrefutable ps"
| "irrefutable (PStruct fs _) = list_all (\<lambda>(_, p). irrefutable p) fs"
| "irrefutable _ = False"

definition fails_at_most_once_unbound :: "uarm \<Rightarrow> bool" where
  "fails_at_most_once_unbound a \<longleftrightarrow> arm_guard a = None \<and>
     (case arm_pat a of
        PInt _ \<Rightarrow> True | PReal _ \<Rightarrow> True | PBool _ \<Rightarrow> True | PStr _ \<Rightarrow> True | PHookEq _ _ \<Rightarrow> True
      | PRange _ hi \<Rightarrow> hi = None
      | PVariant _ ps \<Rightarrow> list_all irrefutable ps
      | p \<Rightarrow> irrefutable p)"

text \<open>The scopes of user names around each occurrence of the failure point.\<close>

function failure_sites :: "utree \<Rightarrow> utree \<Rightarrow> utree list \<Rightarrow> name list \<Rightarrow> name list list" where
  "failure_sites (Tree u n) target opaque scope =
     (if Tree u n = target then [scope]
      else if Tree u n \<in> set opaque then []
      else concat (map (\<lambda>(c, bs). failure_sites c target opaque (scope @ filter (\<lambda>x. take 1 x \<noteq> ''%'') bs)) (node_children n)))"
  by pat_completeness auto
termination
  by (relation "inv_image subtree fst") (auto simp: wf_subtree elim: node_children_sub)

function replace_node :: "utree \<Rightarrow> utree \<Rightarrow> utree \<Rightarrow> utree list \<Rightarrow> utree" where
  "replace_node (Tree u n) target new opaque =
     (if Tree u n = target then new
      else if Tree u n \<in> set opaque then Tree u n
      else Tree u (map_node (\<lambda>c bs. replace_node c target new opaque) n))"
  by pat_completeness auto
termination
  by (relation "inv_image subtree fst") (auto simp: wf_subtree elim: node_children_sub)

text \<open>
  Equality of doubles, which the source uses to tell two literal heads apart: the zeros are
  equal and a NaN equals nothing.
\<close>

definition f64_magnitude :: "f64 \<Rightarrow> nat" where
  "f64_magnitude x = unat x mod 2 ^ 63"

definition f64_eq :: "f64 \<Rightarrow> f64 \<Rightarrow> bool" where
  "f64_eq x y \<longleftrightarrow> x = y \<and> f64_magnitude x \<le> 2047 * 2 ^ 52 \<or> f64_magnitude x = 0 \<and> f64_magnitude y = 0"

fun same_head :: "'c pat \<Rightarrow> 'c pat \<Rightarrow> bool" where
  "same_head (PVariant x _) (PVariant y _) \<longleftrightarrow> x = y"
| "same_head (PInt x) (PInt y) \<longleftrightarrow> x = y"
| "same_head (PReal x) (PReal y) \<longleftrightarrow> f64_eq x y"
| "same_head (PBool x) (PBool y) \<longleftrightarrow> x = y"
| "same_head _ _ \<longleftrightarrow> False"

definition is_binder :: "'c pat \<Rightarrow> bool" where
  "is_binder p \<longleftrightarrow> (case p of PVar _ \<Rightarrow> True | PWild \<Rightarrow> True | _ \<Rightarrow> False)"

fun name_wilds :: "'c pat list \<Rightarrow> nat \<Rightarrow> 'c pat list \<times> nat" where
  "name_wilds [] n = ([], n)"
| "name_wilds (p # ps) n =
     (let (p', n1) = (if p = PWild then (let (v, m) = mfresh ''v'' n in (PVar v, m)) else (p, n));
          (ps', n2) = name_wilds ps n1
      in (p' # ps', n2))"

text \<open>The closure \<^verbatim>\<open>head\<close> of \<^verbatim>\<open>shallow_group\<close>: a head test with every field named.\<close>

definition head_pat :: "'c pat \<Rightarrow> nat \<Rightarrow> 'c pat option \<times> nat" where
  "head_pat p n =
     (case p of
        PInt _ \<Rightarrow> (Some p, n)
      | PReal _ \<Rightarrow> (Some p, n)
      | PBool _ \<Rightarrow> (Some p, n)
      | PVariant tag ps \<Rightarrow>
          if list_all is_binder ps then (let (ps', n1) = name_wilds ps n in (Some (PVariant tag ps'), n1)) else (None, n)
      | _ \<Rightarrow> (None, n))"

text \<open>The loop of \<^verbatim>\<open>shallow_group\<close>: the group, and the arms after it. Naming the fields of an arm that is not taken still uses up names.\<close>

fun take_group :: "uarm list \<Rightarrow> uarm list \<Rightarrow> nat \<Rightarrow> uarm list \<times> uarm list \<times> nat" where
  "take_group [] grp n = (grp, [], n)"
| "take_group (a # as) grp n =
     (let (hp, n1) = head_pat (arm_pat a) n
      in case hp of
           None \<Rightarrow> (grp, a # as, n1)
         | Some p \<Rightarrow>
             if arm_guard a \<noteq> None \<or> list_ex (\<lambda>g. same_head (arm_pat g) p) grp then (grp, a # as, n1)
             else take_group as (grp @ [Arm p None (arm_body a)]) n1)"

lemma take_group_length: "take_group as grp n = (grp', rest, n') \<Longrightarrow> length grp' + length rest = length grp + length as"
  by (induction as grp n arbitrary: grp' rest n' rule: take_group.induct)
     (auto simp: Let_def split: prod.splits option.splits if_splits)

function compile_arms :: "(utree \<Rightarrow> nat \<Rightarrow> utree \<times> nat) \<Rightarrow> name \<Rightarrow> uarm list \<Rightarrow> utree \<Rightarrow> nat \<Rightarrow> utree \<times> nat" where
  "compile_arms hk s [] fail n = (fail, n)"
| "compile_arms hk s (a # as) fail n =
     (let (grp, rest, n1) = take_group (a # as) [] n
      in if grp \<noteq> [] then
           let (dflt, n2) = (case rest of
                 b # bs \<Rightarrow>
                   if arm_guard b = None \<and> is_binder (arm_pat b) then compile_pat hk s (arm_pat b) (arm_body b) fail n1
                   else compile_arms hk s (b # bs) fail n1
               | [] \<Rightarrow> (fail, n1))
           in (T (TCase (var s) grp (Some dflt)), n2)
         else
           let (fail_rest, n2) = compile_arms hk s as fail n1
           in if fails_at_most_once_unbound a then compile_arm hk s a fail_rest n2
              else
                let (fk, n3) = mfresh ''k'' n2;
                    on_fail = app (var fk) (T TUnit);
                    (arm_code, n4) = compile_arm hk s a on_fail n3;
                    opaque = arm_body a # (case arm_guard a of None \<Rightarrow> [] | Some g \<Rightarrow> [g]);
                    sites = failure_sites arm_code on_fail opaque []
                in if sites = [] then (arm_code, n4)
                   else if length sites = 1 \<and> \<not> list_ex (mentions fail_rest) (hd sites) then
                     (replace_node arm_code on_fail fail_rest opaque, n4)
                   else (let_in fk (T (TLam ''_'' fail_rest)) arm_code, n4))"
  by pat_completeness auto
termination
  by (relation "measure (\<lambda>(_, _, as, _). length as)")
     (auto dest!: take_group_length [OF sym] simp: neq_Nil_conv simp del: take_group.simps)

declare compile_arms.simps [simp del]

definition compile_case :: "(utree \<Rightarrow> nat \<Rightarrow> utree \<times> nat) \<Rightarrow> utree \<Rightarrow> uarm list \<Rightarrow> utree option \<Rightarrow> nat \<Rightarrow> utree \<times> nat" where
  "compile_case hk scrut arms dflt n =
     (let (s, n1) = mfresh ''s'' n;
          ultimate = (case dflt of Some d \<Rightarrow> d | None \<Rightarrow> T (TFault ''no pattern matched (non-exhaustive match)''));
          (chain, n2) = compile_arms hk s arms ultimate n1
      in (let_in s scrut chain, n2))"

section \<open>The traversal\<close>

text \<open>\<^verbatim>\<open>map_terms\<close> and \<^verbatim>\<open>map_node\<close> with a function that draws fresh names, in the order of the source.\<close>

fun map_terms_st :: "('c \<Rightarrow> nat \<Rightarrow> 'd \<times> nat) \<Rightarrow> 'c pat \<Rightarrow> nat \<Rightarrow> 'd pat \<times> nat" where
  "map_terms_st f PWild n = (PWild, n)"
| "map_terms_st f (PVar x) n = (PVar x, n)"
| "map_terms_st f (PInt k) n = (PInt k, n)"
| "map_terms_st f (PReal r) n = (PReal r, n)"
| "map_terms_st f (PStr s) n = (PStr s, n)"
| "map_terms_st f (PBool b) n = (PBool b, n)"
| "map_terms_st f (PTuple ps) n = (let (ps', n1) = each (map_terms_st f) ps n in (PTuple ps', n1))"
| "map_terms_st f (PVariant tag ps) n = (let (ps', n1) = each (map_terms_st f) ps n in (PVariant tag ps', n1))"
| "map_terms_st f (PStruct fs rest) n =
     (let (ps', n1) = each (\<lambda>(l, p) m. let (p', m1) = map_terms_st f p m in ((l, p'), m1)) fs n in (PStruct ps' rest, n1))"
| "map_terms_st f (PStrPrefix pre back rest) n = (let (p, n1) = map_terms_st f rest n in (PStrPrefix pre back p, n1))"
| "map_terms_st f (PRange lo hi) n =
     (let (lo', n1) = f lo n; (hi', n2) = each_opt f hi n1 in (PRange lo' hi', n2))"
| "map_terms_st f (PHookEq eq v) n = (let (eq', n1) = f eq n; (v', n2) = f v n1 in (PHookEq eq' v', n2))"
| "map_terms_st f (PSeqView view back elems rest) n =
     (let (view', n1) = f view n; (es, n2) = each (map_terms_st f) elems n1; (r, n3) = each_opt (map_terms_st f) rest n2
      in (PSeqView view' back es r, n3))"
| "map_terms_st f (PTensor len front mid back) n =
     (let (fr, n1) = each (map_terms_st f) front n; (m, n2) = each_opt (map_terms_st f) mid n1; (b, n3) = each (map_terms_st f) back n2
      in (PTensor len fr m b, n3))"

definition map_arm_st :: "('c \<Rightarrow> nat \<Rightarrow> 'd \<times> nat) \<Rightarrow> 'c arm \<Rightarrow> nat \<Rightarrow> 'd arm \<times> nat" where
  "map_arm_st f a n =
     (let (p, n1) = map_terms_st f (arm_pat a) n; (g, n2) = each_opt f (arm_guard a) n1; (b, n3) = f (arm_body a) n2
      in (Arm p g b, n3))"

definition map_clause_st :: "('c \<Rightarrow> nat \<Rightarrow> 'd \<times> nat) \<Rightarrow> 'c clause \<Rightarrow> nat \<Rightarrow> 'd clause \<times> nat" where
  "map_clause_st f c n =
     (let (b, n1) = f (clause_body c) n in (Clause (clause_effect c) (clause_op c) (clause_arg c) b, n1))"

definition map_second_st :: "('c \<Rightarrow> nat \<Rightarrow> 'd \<times> nat) \<Rightarrow> 'l \<times> 'c \<Rightarrow> nat \<Rightarrow> ('l \<times> 'd) \<times> nat" where
  "map_second_st f x n = (let (t, n1) = f (snd x) n in ((fst x, t), n1))"

fun map_node_st :: "('c \<Rightarrow> nat \<Rightarrow> 'd \<times> nat) \<Rightarrow> 'c core_term \<Rightarrow> nat \<Rightarrow> 'd core_term \<times> nat" where
  "map_node_st f (TInt k) n = (TInt k, n)"
| "map_node_st f (TReal r) n = (TReal r, n)"
| "map_node_st f (TStr s) n = (TStr s, n)"
| "map_node_st f (TBool b) n = (TBool b, n)"
| "map_node_st f TUnit n = (TUnit, n)"
| "map_node_st f (TVar m x) n = (TVar m x, n)"
| "map_node_st f (TExtern abi symb lib args ret) n = (TExtern abi symb lib args ret, n)"
| "map_node_st f (TFault msg) n = (TFault msg, n)"
| "map_node_st f (TApp g x) n = (let (g', n1) = f g n; (x', n2) = f x n1 in (TApp g' x', n2))"
| "map_node_st f (TLam p b) n = (let (b', n1) = f b n in (TLam p b', n1))"
| "map_node_st f (TLet x rec v b) n = (let (v', n1) = f v n; (b', n2) = f b n1 in (TLet x rec v' b', n2))"
| "map_node_st f (TCase s arms d) n =
     (let (s', n1) = f s n; (arms', n2) = each (map_arm_st f) arms n1; (d', n3) = each_opt f d n2 in (TCase s' arms' d', n3))"
| "map_node_st f (TTuple ts) n = (let (ts', n1) = each f ts n in (TTuple ts', n1))"
| "map_node_st f (TVariant ty tag ts) n = (let (ts', n1) = each f ts n in (TVariant ty tag ts', n1))"
| "map_node_st f (TStruct x base fs) n =
     (let (b, n1) = each_opt f base n; (fs', n2) = each (map_second_st f) fs n1 in (TStruct x b fs', n2))"
| "map_node_st f (TField r l) n = (let (r', n1) = f r n in (TField r' l, n1))"
| "map_node_st f (THandle b h) n =
     (let (b', n1) = f b n;
          (cs, n2) = each (map_clause_st f) (clauses h) n1;
          (d, n3) = each_opt (map_second_st f) (handler_default h) n2
      in (THandle b' (Handler (continuation h) cs d), n3))"
| "map_node_st f (TDefer c b) n = (let (c', n1) = f c n; (b', n2) = f b n1 in (TDefer c' b', n2))"

lemma map_terms_st_cong:
  assumes "\<And>c. c \<in> set_pat p \<Longrightarrow> f c = g c"
  shows "map_terms_st f p = map_terms_st g p"
  using assms
proof (induction p)
  case (PTuple ps)
  then have "each (map_terms_st f) ps = each (map_terms_st g) ps" by (intro each_cong) auto
  then show ?case by (intro ext) simp
next
  case (PVariant tag ps)
  then have "each (map_terms_st f) ps = each (map_terms_st g) ps" by (intro each_cong) auto
  then show ?case by (intro ext) simp
next
  case (PStruct fs rest)
  have "each (\<lambda>(l, p) m. let (p', m1) = map_terms_st f p m in ((l, p'), m1)) fs
      = each (\<lambda>(l, p) m. let (p', m1) = map_terms_st g p m in ((l, p'), m1)) fs"
  proof (rule each_cong [OF refl])
    fix x assume "x \<in> set fs"
    moreover obtain l p where "x = (l, p)" by fastforce
    ultimately have x: "x = (l, p)" "(l, p) \<in> set fs" by simp_all
    have "map_terms_st f p = map_terms_st g p" using PStruct x(2) by force
    then show "(case x of (l, p) \<Rightarrow> \<lambda>m. let (p', m1) = map_terms_st f p m in ((l, p'), m1))
        = (case x of (l, p) \<Rightarrow> \<lambda>m. let (p', m1) = map_terms_st g p m in ((l, p'), m1))" by (simp add: x)
  qed
  then show ?case by (intro ext) simp
next
  case (PRange lo hi)
  then have "f lo = g lo" "each_opt f hi = each_opt g hi" by (auto intro: each_opt_cong)
  then show ?case by (intro ext) simp
next
  case (PSeqView view bk elems rest)
  then have "f view = g view" "each (map_terms_st f) elems = each (map_terms_st g) elems"
    "each_opt (map_terms_st f) rest = each_opt (map_terms_st g) rest"
    by (auto intro!: each_cong each_opt_cong)
  then show ?case by (intro ext) simp
next
  case (PTensor len front mid bk)
  have "map_terms_st f q = map_terms_st g q" if "q \<in> set front" for q using that by (intro PTensor.IH(1) PTensor.prems) auto
  moreover have "map_terms_st f q = map_terms_st g q" if "mid = Some q" for q using that by (intro PTensor.IH(2) PTensor.prems) auto
  moreover have "map_terms_st f q = map_terms_st g q" if "q \<in> set bk" for q using that by (intro PTensor.IH(3) PTensor.prems) auto
  ultimately have "each (map_terms_st f) front = each (map_terms_st g) front" "each_opt (map_terms_st f) mid = each_opt (map_terms_st g) mid"
    "each (map_terms_st f) bk = each (map_terms_st g) bk"
    by (auto intro!: each_cong each_opt_cong)
  then show ?case by (intro ext) simp
qed (intro ext, simp)+

lemma map_arm_st_cong:
  assumes "\<And>c. c \<in> set_arm a \<Longrightarrow> f c = g c"
  shows "map_arm_st f a = map_arm_st g a"
proof (cases a)
  case (Arm p g' b)
  have "map_terms_st f p = map_terms_st g p" "each_opt f g' = each_opt g g'" "f b = g b"
    using assms Arm by (auto intro!: map_terms_st_cong each_opt_cong)
  then show ?thesis by (simp add: map_arm_st_def Arm fun_eq_iff)
qed

lemma map_clause_st_cong: "(\<And>c. c \<in> set_clause a \<Longrightarrow> f c = g c) \<Longrightarrow> map_clause_st f a = map_clause_st g a"
  by (cases a) (auto simp: map_clause_st_def fun_eq_iff)

lemma map_second_st_cong: "f (snd x) = g (snd x) \<Longrightarrow> map_second_st f x = map_second_st g x"
  by (simp add: map_second_st_def fun_eq_iff)

lemma map_node_st_cong [fundef_cong]:
  assumes "n = n'" "\<And>c. c \<in> set_core_term n' \<Longrightarrow> f c = g c"
  shows "map_node_st f n = map_node_st g n'"
proof (cases n')
  case (TCase s arms d)
  then have "each (map_arm_st f) arms = each (map_arm_st g) arms" "each_opt f d = each_opt g d" "f s = g s"
    using assms(2) by (auto intro!: each_cong each_opt_cong map_arm_st_cong)
  then show ?thesis using TCase by (intro ext) (simp add: assms(1))
next
  case (THandle b h)
  obtain k cs d where h: "h = Handler k cs d" by (cases h)
  have "each (map_clause_st f) cs = each (map_clause_st g) cs" "each_opt (map_second_st f) d = each_opt (map_second_st g) d" "f b = g b"
    using assms(2) THandle h by (auto intro!: each_cong each_opt_cong map_clause_st_cong map_second_st_cong)
  then show ?thesis using THandle h by (intro ext) (simp add: assms(1))
next
  case (TStruct x base fs)
  then have "each_opt f base = each_opt g base" "each (map_second_st f) fs = each (map_second_st g) fs"
    using assms(2) by (force intro!: each_cong each_opt_cong map_second_st_cong)+
  then show ?thesis using TStruct by (intro ext) (simp add: assms(1))
next
  case (TTuple ts)
  then have "each f ts = each g ts" using assms(2) by (auto intro!: each_cong)
  then show ?thesis using TTuple by (intro ext) (simp add: assms(1))
next
  case (TVariant ty tag ts)
  then have "each f ts = each g ts" using assms(2) by (auto intro!: each_cong)
  then show ?thesis using TVariant by (intro ext) (simp add: assms(1))
qed (use assms in \<open>(intro ext, simp)+\<close>)

text \<open>
  \<^verbatim>\<open>go\<close>. The source calls \<^verbatim>\<open>go\<close> again on the value of a hooked literal, which is already
  flattened; \<open>hk\<close> is that inner call, and \<open>go_again\<close> below shows the knot is tied.
\<close>

function go_with :: "(utree \<Rightarrow> nat \<Rightarrow> utree \<times> nat) \<Rightarrow> utree \<Rightarrow> nat \<Rightarrow> utree \<times> nat" where
  "go_with hk (Tree u node) n =
     (let (nd, n1) = map_node_st (go_with hk) node n
      in case nd of TCase scrut arms dflt \<Rightarrow> compile_case hk scrut arms dflt n1 | _ \<Rightarrow> (T nd, n1))"
  by pat_completeness auto
termination
  by (relation "inv_image subtree (fst \<circ> snd)") (auto simp: wf_subtree)

definition go :: "utree \<Rightarrow> nat \<Rightarrow> utree \<times> nat" where
  "go = go_with (go_with (\<lambda>v n. (v, n)))"

definition compile_matches :: "unit core_program \<Rightarrow> unit core_program" where
  "compile_matches program = program\<lparr>cp_globals := fst (rewrite_globals go (cp_globals program) 0)\<rparr>"

end
