(* ===== verification/Match_Sound.thy ===== *)
theory Match_Sound
  imports Match_Compilation
begin

text \<open>
  Match compilation leaves shallow cases only, whatever the patterns: every case of its
  output tests one constructor or literal, binds its fields by name and has no guard,
  which is what A-normal form and closure conversion rely on.
\<close>

section \<open>Matched nodes\<close>

lemma matched_iff: "matched (Tree a n) \<longleftrightarrow> node_matched n \<and> (\<forall>c \<in> set_core_term n. matched c)"
  unfolding set_node_children [symmetric] by force

lemmas node_builders = var_def app_def bin_def let_in_def case1_def when_true_def view_call_def array_len_def array_slice_def
  record_without_def tensor_index_def tensor_slice_def

lemma matched_var [simp]: "matched (var x)"
  by (simp add: var_def)

lemma matched_app [simp]: "matched (app f x) \<longleftrightarrow> matched f \<and> matched x"
  by (simp add: app_def)

lemma matched_let_in [simp]: "matched (let_in x v b) \<longleftrightarrow> matched v \<and> matched b"
  by (simp add: let_in_def)

lemma matched_case1 [simp]: "shallow_pat p \<Longrightarrow> matched (case1 s p b d) \<longleftrightarrow> matched s \<and> matched b \<and> matched d"
  by (auto simp: case1_def arm_children_def shallow_pat_terms)

lemma matched_when_true [simp]: "matched (when_true s b d) \<longleftrightarrow> matched s \<and> matched b \<and> matched d"
  by (simp add: when_true_def)

lemma matched_calls [simp]:
  "matched (bin opr l r) \<longleftrightarrow> matched l \<and> matched r"
  "matched (view_call view x) \<longleftrightarrow> matched view"
  "matched (array_len x)"
  "matched (array_slice x b e) \<longleftrightarrow> matched b \<and> matched e"
  "matched (record_without r x) \<longleftrightarrow> matched r"
  "matched (tensor_index x i)"
  "matched (tensor_slice x i j)"
  by (simp_all add: bin_def view_call_def array_len_def array_slice_def record_without_def tensor_index_def tensor_slice_def)

lemma matched_without_labels [simp]: "matched (without_labels x ls)"
proof -
  have "matched r \<Longrightarrow> matched (foldl record_without r ls)" for r by (induction ls arbitrary: r) auto
  then show ?thesis by (simp add: without_labels_def)
qed

section \<open>Patterns\<close>

text \<open>A compiler of sub-patterns that gives matched code from a matched continuation.\<close>

lemma fields_from_matched:
  assumes "\<And>p v k i. p \<in> snd ` set fs \<Longrightarrow> matched k \<Longrightarrow> matched (fst (cp v p k i))" "matched m"
  shows "matched (fst (fields_from cp sv fs m n))"
  using assms by (induction fs arbitrary: n) (auto simp: Let_def split_beta)

lemma binders_from_matched:
  assumes "\<And>p v k i. p \<in> snd ` set bs \<Longrightarrow> matched k \<Longrightarrow> matched (fst (cp v p k i))" "matched m"
  shows "matched (fst (binders_from cp bs m n))"
  using assms by (induction cp bs m n rule: binders_from.induct) (simp_all add: Let_def split_beta)

lemma parts_from_matched:
  assumes "\<And>p v k i. p \<in> snd ` set ps \<Longrightarrow> matched k \<Longrightarrow> matched (fst (cp v p k i))"
    "\<And>v. v \<in> fst ` set ps \<Longrightarrow> matched v" "matched m"
  shows "matched (fst (parts_from cp ps m n))"
  using assms by (induction cp ps m n rule: parts_from.induct) (simp_all add: Let_def split_beta)

lemma seqview_from_matched:
  assumes "\<And>p v k i. p \<in> set es \<union> set_option rest \<Longrightarrow> matched k \<Longrightarrow> matched (fst (cp v p k i))" "matched view" "matched m" "matched f"
  shows "matched (fst (seqview_from cp sv view es rest m f n))"
  using assms
  by (induction es arbitrary: sv n) (auto simp: Let_def split_beta split: option.split)

lemma compile_pat_matched:
  assumes "\<And>v i. v \<in> set_pat p \<Longrightarrow> matched v \<and> matched (fst (hk v i))" "matched m" "matched f"
  shows "matched (fst (compile_pat hk sv p m f n))"
  using assms
proof (induction p arbitrary: sv m n)
  case (PTuple ps)
  have "matched (fst (compile_pat hk v q k f i))" if "q \<in> set ps" "matched k" for q v k i
    using that by (intro PTuple.IH PTuple.prems) auto
  then show ?case using PTuple.prems by (auto intro!: fields_from_matched dest: set_zip_rightD)
next
  case (PVariant tag ps)
  have "matched (fst (compile_pat hk v q k f i))" if "q \<in> set ps" "matched k" for q v k i
    using that by (intro PVariant.IH PVariant.prems) auto
  moreover obtain bs i where b: "fresh_binders ps n = (bs, i)" by fastforce
  ultimately have "matched (fst (binders_from (\<lambda>x p k. compile_pat hk x p k f) (zip bs ps) m i))"
    using PVariant.prems by (intro binders_from_matched) (auto dest: set_zip_rightD)
  then show ?case using PVariant.prems by (simp add: Let_def split_beta b list_all_iff)
next
  case (PStruct fs rest)
  have "matched (fst (compile_pat hk v q k f i))" if "(l, q) \<in> set fs" "matched k" for l q v k i
    using that PStruct.prems by (intro PStruct.IH [of "(l, q)"]) force+
  then show ?case using PStruct.prems by (auto simp: Let_def intro!: fields_from_matched split: option.split)
next
  case (PSeqView view bk elems rest)
  have "matched (fst (compile_pat hk v q k f i))" if "q \<in> set elems" "matched k" for q v k i
    using that by (intro PSeqView.IH(1) PSeqView.prems) auto
  moreover have "matched (fst (compile_pat hk v q k f i))" if "rest = Some q" "matched k" for q v k i
    using that by (intro PSeqView.IH(2) PSeqView.prems) auto
  ultimately show ?case using PSeqView.prems by (auto intro!: seqview_from_matched)
next
  case (PTensor len front mid bk)
  have "matched (fst (compile_pat hk v q k f i))" if "q \<in> set front" "matched k" for q v k i
    using that by (intro PTensor.IH(1) PTensor.prems) auto
  moreover have "matched (fst (compile_pat hk v q k f i))" if "mid = Some q" "matched k" for q v k i
    using that by (intro PTensor.IH(2) PTensor.prems) auto
  moreover have "matched (fst (compile_pat hk v q k f i))" if "q \<in> set bk" "matched k" for q v k i
    using that by (intro PTensor.IH(3) PTensor.prems) auto
  ultimately show ?case using PTensor.prems
    by (auto simp: Let_def in_set_enumerate_eq intro!: parts_from_matched split: option.splits)
next
  case (PStrPrefix pre bk rest)
  then have "matched (fst (compile_pat hk v rest k f i))" if "matched k" for v k i using that by simp
  then show ?case using PStrPrefix.prems by (simp add: Let_def split_beta)
qed (auto simp: Let_def split_beta split: option.split)

lemma compile_arm_matched:
  assumes "\<And>v i. v \<in> set_pat (arm_pat a) \<Longrightarrow> matched v \<and> matched (fst (hk v i))"
    "\<And>g. arm_guard a = Some g \<Longrightarrow> matched g" "matched (arm_body a)" "matched f"
  shows "matched (fst (compile_arm hk s a f n))"
  unfolding compile_arm_def using assms by (intro compile_pat_matched) (auto split: option.split)

section \<open>Arms\<close>

lemma shallow_pat_map [simp]: "shallow_pat (map_terms f p) = shallow_pat p"
proof -
  have "simple_pat (map_terms f q) = simple_pat q" for q by (cases q) auto
  then show ?thesis by (cases p) (simp_all add: list_all_iff)
qed

lemma node_matched_map [simp]: "node_matched (map_node f n) = node_matched n"
  by (cases n) (auto simp: list_all_iff map_arm_node_def Let_def)

text \<open>The code that replaces the failure point: the rest of the term keeps its shape.\<close>

lemma replace_node_matched:
  assumes "matched t" "matched new"
  shows "matched (replace_node t target new opaque)"
  using assms(1)
proof (induction t rule: tree_children_induct)
  case (1 a n)
  have "\<forall>(c, bs) \<in> set (node_children (map_node (\<lambda>c bs. replace_node c target new opaque) n)). matched c"
    using 1 by (auto simp: node_children_map_node)
  then show ?case using 1(2) assms(2) by simp
qed

text \<open>What an arm carries of terms: matched, and the hooked values stay so under \<open>hk\<close>.\<close>

definition arm_ready :: "(utree \<Rightarrow> nat \<Rightarrow> utree \<times> nat) \<Rightarrow> uarm \<Rightarrow> bool" where
  "arm_ready hk a \<longleftrightarrow> (\<forall>v \<in> set_arm a. matched v) \<and> (\<forall>v \<in> set_pat (arm_pat a). \<forall>i. matched (fst (hk v i)))"

lemma arm_ready_parts:
  assumes "arm_ready hk a"
  shows "v \<in> set_pat (arm_pat a) \<Longrightarrow> matched v \<and> matched (fst (hk v i))" "arm_guard a = Some g \<Longrightarrow> matched g" "matched (arm_body a)"
  using assms by (auto simp: arm_ready_def set_arm_eq)

lemma name_wilds_simple: "list_all is_binder ps \<Longrightarrow> list_all simple_pat (fst (name_wilds ps n))"
  by (induction ps arbitrary: n) (auto simp: Let_def split_beta is_binder_def split: pat.splits)

lemma head_pat_shallow: "head_pat p n = (Some q, m) \<Longrightarrow> shallow_pat q"
  using name_wilds_simple by (fastforce simp: head_pat_def Let_def split_beta split: pat.splits if_splits)

lemma take_group_ready:
  assumes "take_group as grp n = (grp', rest, n')"
    "list_all (\<lambda>a. shallow_pat (arm_pat a) \<and> arm_guard a = None \<and> matched (arm_body a)) grp" "list_all (arm_ready hk) as"
  shows "list_all (\<lambda>a. shallow_pat (arm_pat a) \<and> arm_guard a = None \<and> matched (arm_body a)) grp' \<and> list_all (arm_ready hk) rest"
  using assms
proof (induction as grp n arbitrary: grp' rest n' rule: take_group.induct)
  case (2 a as grp n)
  obtain hp n1 where h: "head_pat (arm_pat a) n = (hp, n1)" by fastforce
  show ?case
  proof (cases "\<exists>p. hp = Some p \<and> arm_guard a = None \<and> \<not> list_ex (\<lambda>g. same_head (arm_pat g) p) grp")
    case True
    then obtain p where p: "hp = Some p" "arm_guard a = None" "\<not> list_ex (\<lambda>g. same_head (arm_pat g) p) grp" by blast
    moreover have "shallow_pat p" using h p(1) by (auto dest: head_pat_shallow)
    moreover have "matched (arm_body a)" using 2(4) arm_ready_parts(3) [of hk a] by simp
    ultimately show ?thesis using "2.IH" [OF h [symmetric] refl, of p grp' rest n'] "2.prems" h by simp
  next
    case False
    then show ?thesis using 2 h by (auto split: option.splits if_splits)
  qed
qed simp

lemma compile_arms_matched:
  assumes "list_all (arm_ready hk) as" "matched f"
  shows "matched (fst (compile_arms hk s as f n))"
  using assms
proof (induction hk s as f n rule: compile_arms.induct)
  case (2 hk s a as f n)
  obtain grp rest n1 where g: "take_group (a # as) [] n = (grp, rest, n1)" using prod_cases3 by blast
  note ready = take_group_ready [OF g _ "2.prems"(1), simplified]
  show ?case
  proof (cases "grp = []")
    case False
    have "matched (fst (case rest of
                 b # bs \<Rightarrow>
                   if arm_guard b = None \<and> is_binder (arm_pat b) then compile_pat hk s (arm_pat b) (arm_body b) f n1
                   else compile_arms hk s (b # bs) f n1
               | [] \<Rightarrow> (f, n1)))"
    proof (cases rest)
      case (Cons b bs)
      then have "arm_ready hk b" "list_all (arm_ready hk) (b # bs)" using ready by simp_all
      then show ?thesis using "2.IH"(1) [OF g [symmetric] refl refl False Cons] "2.prems"(2)
        by (auto simp: Cons arm_ready_parts intro!: compile_pat_matched)
    qed (simp add: "2.prems")
    then show ?thesis using ready False
      by (auto simp: compile_arms.simps g Let_def split_beta list_all_iff arm_children_def shallow_pat_terms simp del: take_group.simps)
  next
    case True
    obtain fr n2 where fr: "compile_arms hk s as f n1 = (fr, n2)" by fastforce
    have r: "arm_ready hk a" "matched fr" using "2.IH"(2) [OF g [symmetric] refl refl] "2.prems" fr True by auto
    have "matched (fst (compile_arm hk s a k i))" if "matched k" for k i
      using r(1) that by (intro compile_arm_matched) (auto simp: arm_ready_parts)
    then show ?thesis using True r(2)
      by (simp add: compile_arms.simps g fr Let_def split_beta replace_node_matched del: take_group.simps)
  qed
qed (simp add: compile_arms.simps)

lemma compile_case_matched:
  assumes "matched scrut" "list_all (arm_ready hk) arms" "\<And>d. dflt = Some d \<Longrightarrow> matched d"
  shows "matched (fst (compile_case hk scrut arms dflt n))"
  using assms by (auto simp: compile_case_def Let_def split_beta intro!: compile_arms_matched split: option.split)

section \<open>The traversal\<close>

lemma each_elems:
  assumes "y \<in> set (fst (each f xs n))"
  shows "\<exists>x \<in> set xs. \<exists>m. y = fst (f x m)"
  using assms by (induction xs arbitrary: n) (auto simp: Let_def split_beta)

lemma each_opt_elem:
  assumes "fst (each_opt f x n) = Some y"
  shows "\<exists>a m. x = Some a \<and> y = fst (f a m)"
  using assms by (cases x) (auto simp: each_opt_def Let_def split_beta)

lemma map_terms_st_elems:
  assumes "c \<in> set_pat (fst (map_terms_st f p n))"
  shows "\<exists>d \<in> set_pat p. \<exists>m. c = fst (f d m)"
  using assms
proof (induction p arbitrary: n)
  case (PTuple ps)
  then show ?case by (auto simp: Let_def split_beta dest!: each_elems) metis
next
  case (PVariant tag ps)
  then show ?case by (auto simp: Let_def split_beta dest!: each_elems) metis
next
  case (PStruct fs rest)
  let ?h = "\<lambda>(l, p) m. let (p', m1) = map_terms_st f p m in ((l, p'), m1)"
  obtain y where y: "y \<in> set (fst (each ?h fs n))" "c \<in> set_pat (snd y)"
    using PStruct.prems by (force simp: Let_def split_beta)
  then obtain l q m where q: "(l, q) \<in> set fs" "c \<in> set_pat (fst (map_terms_st f q m))"
    using each_elems [OF y(1)] by (force simp: Let_def split_beta)
  then obtain d m' where "d \<in> set_pat q" "c = fst (f d m')" using PStruct.IH [of "(l, q)" q m] by auto
  then show ?case using q(1) by force
next
  case (PRange lo hi)
  then show ?case by (auto simp: Let_def split_beta elem_set dest!: each_opt_elem)
next
  case (PSeqView view bk elems rest)
  let ?g = "map_terms_st f"
  obtain n1 n2 where "c = fst (f view n) \<or> c \<in> \<Union> (set_pat ` set (fst (each ?g elems n1)))
      \<union> \<Union> (set_pat ` set_option (fst (each_opt ?g rest n2)))"
    using PSeqView.prems by (auto simp: Let_def split_beta)
  then consider "c = fst (f view n)" | q m where "q \<in> set elems \<or> q \<in> set_option rest" "c \<in> set_pat (fst (?g q m))"
    by (auto dest!: each_elems each_opt_elem)
  then show ?case
  proof cases
    case (2 q m)
    then obtain d m' where "d \<in> set_pat q" "c = fst (f d m')" using PSeqView.IH by blast
    then show ?thesis using 2(1) by auto
  qed auto
next
  case (PTensor len front mid bk)
  let ?g = "map_terms_st f"
  obtain n1 n2 where "c \<in> \<Union> (set_pat ` set (fst (each ?g front n))) \<union> \<Union> (set_pat ` set_option (fst (each_opt ?g mid n1)))
      \<union> \<Union> (set_pat ` set (fst (each ?g bk n2)))"
    using PTensor.prems by (auto simp: Let_def split_beta)
  then obtain q m where "q \<in> set front \<or> q \<in> set_option mid \<or> q \<in> set bk" "c \<in> set_pat (fst (?g q m))"
    by (auto dest!: each_elems each_opt_elem)
  then show ?case using PTensor.IH by fastforce
qed (auto simp: Let_def split_beta)

lemma map_arm_st_elems:
  assumes "c \<in> set_arm (fst (map_arm_st f a n))"
  shows "\<exists>d \<in> set_arm a. \<exists>m. c = fst (f d m)"
  using assms map_terms_st_elems [of c f "arm_pat a" n]
  by (auto simp: map_arm_st_def Let_def split_beta set_arm_eq dest!: each_opt_elem)

lemma map_node_st_elems:
  assumes "c \<in> set_core_term (fst (map_node_st f nd n))"
  shows "\<exists>d \<in> set_core_term nd. \<exists>m. c = fst (f d m)"
  using assms
proof (cases nd)
  case (TCase s arms d)
  then show ?thesis using assms
    by (auto simp: Let_def split_beta dest!: each_elems each_opt_elem map_arm_st_elems)
next
  case (TStruct x base fs)
  then show ?thesis using assms
    by (fastforce simp: Let_def split_beta map_second_st_def dest!: each_elems each_opt_elem)
next
  case (THandle b h)
  obtain k cs d where h: "h = Handler k cs d" by (cases h)
  consider m where "c = fst (f b m)"
    | y m where "y \<in> set (fst (each (map_clause_st f) cs m))" "c = clause_body y"
    | y m where "fst (each_opt (map_second_st f) d m) = Some y" "c = snd y"
    using assms by (auto simp: THandle h Let_def split_beta set_clause_eq)
  then show ?thesis
  proof cases
    case (2 y m)
    then show ?thesis by (force simp: THandle h set_clause_eq map_clause_st_def Let_def split_beta dest!: each_elems)
  next
    case (3 y m)
    then show ?thesis by (force simp: THandle h map_second_st_def Let_def split_beta dest!: each_opt_elem)
  qed (auto simp: THandle)
qed (auto simp: Let_def split_beta dest!: each_elems each_opt_elem)

lemma go_with_matched:
  assumes "\<And>v i. matched v \<Longrightarrow> matched (fst (hk v i))"
  shows "matched (fst (go_with hk t n))"
proof (induction t arbitrary: n rule: tree_children_induct)
  case (1 u node)
  obtain nd n1 where nd: "map_node_st (go_with hk) node n = (nd, n1)" by fastforce
  have kids: "matched c" if "c \<in> set_core_term nd" for c
  proof -
    obtain d m where "d \<in> set_core_term node" "c = fst (go_with hk d m)"
      using map_node_st_elems [of c "go_with hk" node n] \<open>c \<in> set_core_term nd\<close> nd by auto
    then show ?thesis using 1 set_node_children [of node] by force
  qed
  show ?case
  proof (cases "\<exists>s arms d. nd = TCase s arms d")
    case True
    then obtain s arms d where c: "nd = TCase s arms d" by blast
    have "list_all (arm_ready hk) arms"
      using kids assms by (auto simp: c list_all_iff arm_ready_def set_arm_eq)
    moreover have "matched s" "\<And>e. d = Some e \<Longrightarrow> matched e" using kids by (auto simp: c)
    ultimately have "matched (fst (compile_case hk s arms d n1))" by (intro compile_case_matched)
    then show ?thesis by (simp add: nd c)
  next
    case False
    then have "go_with hk (Tree u node) n = (T nd, n1)" "node_matched nd" by (auto simp: nd split: core_term.split) (cases nd; simp)
    then show ?thesis using kids by (simp add: matched_iff del: matched.simps)
  qed
qed

section \<open>The inner call\<close>

text \<open>
  Compilation consults \<open>hk\<close> at hooked values only, all of which are matched there, and a
  matched term has no hooked value left: so \<open>go\<close> calls itself, as in the source.
\<close>

lemma compile_pat_hook:
  assumes "\<And>v. v \<in> set_pat p \<Longrightarrow> hk v = hk' v"
  shows "compile_pat hk sv p m f n = compile_pat hk' sv p m f n"
  using assms
proof (induction p arbitrary: sv m n)
  case (PTuple ps)
  have "compile_pat hk v q k f i = compile_pat hk' v q k f i" if "q \<in> set ps" for q v k i
    using that by (intro PTuple.IH PTuple.prems) auto
  then show ?case by (auto intro!: fields_from_cong dest: set_zip_rightD)
next
  case (PVariant tag ps)
  have "compile_pat hk v q k f i = compile_pat hk' v q k f i" if "q \<in> set ps" for q v k i
    using that by (intro PVariant.IH PVariant.prems) auto
  then have "binders_from (\<lambda>x p k. compile_pat hk x p k f) (zip bs ps) m i = binders_from (\<lambda>x p k. compile_pat hk' x p k f) (zip bs ps) m i" for bs i
    by (intro binders_from_cong) (auto dest: set_zip_rightD)
  then show ?case by simp
next
  case (PStruct fs rest)
  have "compile_pat hk v q k f i = compile_pat hk' v q k f i" if "(l, q) \<in> set fs" for l q v k i
    using that PStruct.prems by (intro PStruct.IH [of "(l, q)"]) force+
  then show ?case by (auto simp: Let_def intro!: fields_from_cong)
next
  case (PSeqView view bk elems rest)
  have "compile_pat hk v q k f i = compile_pat hk' v q k f i" if "q \<in> set elems" for q v k i
    using that by (intro PSeqView.IH(1) PSeqView.prems) auto
  moreover have "compile_pat hk v q k f i = compile_pat hk' v q k f i" if "rest = Some q" for q v k i
    using that by (intro PSeqView.IH(2) PSeqView.prems) auto
  ultimately show ?case by (auto intro!: seqview_from_cong)
next
  case (PTensor len front mid bk)
  have "compile_pat hk v q k f i = compile_pat hk' v q k f i" if "q \<in> set front" for q v k i
    using that by (intro PTensor.IH(1) PTensor.prems) auto
  moreover have "compile_pat hk v q k f i = compile_pat hk' v q k f i" if "mid = Some q" for q v k i
    using that by (intro PTensor.IH(2) PTensor.prems) auto
  moreover have "compile_pat hk v q k f i = compile_pat hk' v q k f i" if "q \<in> set bk" for q v k i
    using that by (intro PTensor.IH(3) PTensor.prems) auto
  ultimately show ?case by (auto simp: Let_def in_set_enumerate_eq intro!: parts_from_cong split: option.splits)
next
  case (PStrPrefix pre bk rest)
  then have "compile_pat hk v rest k f i = compile_pat hk' v rest k f i" for v k i by simp
  then show ?case by (simp add: Let_def)
qed simp_all

lemma compile_arm_hook:
  "(\<And>v. v \<in> set_pat (arm_pat a) \<Longrightarrow> hk v = hk' v) \<Longrightarrow> compile_arm hk s a f n = compile_arm hk' s a f n"
  unfolding compile_arm_def by (rule compile_pat_hook)

lemma take_group_rest: "take_group as grp n = (grp', rest, n') \<Longrightarrow> set rest \<subseteq> set as"
  by (induction as grp n arbitrary: grp' rest n' rule: take_group.induct)
     (fastforce simp: Let_def split: prod.splits option.splits if_splits)+

lemma compile_arms_hook:
  assumes "\<And>a v. a \<in> set as \<Longrightarrow> v \<in> set_pat (arm_pat a) \<Longrightarrow> hk v = hk' v"
  shows "compile_arms hk s as f n = compile_arms hk' s as f n"
  using assms
proof (induction hk s as f n rule: compile_arms.induct)
  case (2 hk s a as f n)
  obtain grp rest n1 where g: "take_group (a # as) [] n = (grp, rest, n1)" using prod_cases3 by blast
  have sub: "set rest \<subseteq> set (a # as)" using take_group_rest [OF g] .
  show ?case
  proof (cases "grp = []")
    case False
    have "(case rest of
                 b # bs \<Rightarrow>
                   if arm_guard b = None \<and> is_binder (arm_pat b) then compile_pat hk s (arm_pat b) (arm_body b) f n1
                   else compile_arms hk s (b # bs) f n1
               | [] \<Rightarrow> (f, n1)) = (case rest of
                 b # bs \<Rightarrow>
                   if arm_guard b = None \<and> is_binder (arm_pat b) then compile_pat hk' s (arm_pat b) (arm_body b) f n1
                   else compile_arms hk' s (b # bs) f n1
               | [] \<Rightarrow> (f, n1))"
    proof (cases rest)
      case (Cons b bs)
      have "compile_pat hk s (arm_pat b) (arm_body b) f n1 = compile_pat hk' s (arm_pat b) (arm_body b) f n1"
        by (rule compile_pat_hook, rule "2.prems") (use sub Cons in auto)
      moreover have "compile_arms hk s (b # bs) f n1 = compile_arms hk' s (b # bs) f n1"
        if "\<not> (arm_guard b = None \<and> is_binder (arm_pat b))"
        by (rule "2.IH"(1) [OF g [symmetric] refl refl False Cons that], rule "2.prems") (use sub Cons in auto)
      ultimately show ?thesis by (simp add: Cons)
    qed simp
    then show ?thesis using False by (simp add: compile_arms.simps g del: take_group.simps)
  next
    case True
    have "compile_arms hk s as f n1 = compile_arms hk' s as f n1"
      by (rule "2.IH"(2) [OF g [symmetric] refl refl], simp add: True, rule "2.prems") auto
    moreover have "compile_arm hk s a k i = compile_arm hk' s a k i" for k i
      by (rule compile_arm_hook, rule "2.prems") auto
    ultimately show ?thesis using True by (simp add: compile_arms.simps g Let_def split_beta del: take_group.simps)
  qed
qed (simp add: compile_arms.simps)

lemma compile_case_hook:
  "(\<And>a v. a \<in> set arms \<Longrightarrow> v \<in> set_pat (arm_pat a) \<Longrightarrow> hk v = hk' v)
   \<Longrightarrow> compile_case hk scrut arms dflt n = compile_case hk' scrut arms dflt n"
  unfolding compile_case_def using compile_arms_hook [of arms hk hk'] by simp

text \<open>Two inner calls that agree on matched terms give the same traversal.\<close>

lemma go_with_hook:
  assumes "\<And>v. matched v \<Longrightarrow> hk v = hk' v" "\<And>v i. matched v \<Longrightarrow> matched (fst (hk' v i))"
  shows "go_with hk t = go_with hk' t"
proof (induction t rule: tree_children_induct)
  case (1 u node)
  have same: "map_node_st (go_with hk) node = map_node_st (go_with hk') node"
    using 1 set_node_children [of node] by (intro map_node_st_cong) force+
  have "compile_case hk s arms d n1 = compile_case hk' s arms d n1"
    if "map_node_st (go_with hk') node n = (TCase s arms d, n1)" for s arms d n n1
  proof (rule compile_case_hook, rule assms(1))
    fix a v assume "a \<in> set arms" "v \<in> set_pat (arm_pat a)"
    then have "v \<in> set_core_term (fst (map_node_st (go_with hk') node n))" using that by (auto simp: set_arm_eq)
    from map_node_st_elems [OF this] show "matched v" using go_with_matched [of hk'] assms(2) by auto
  qed
  then show ?case by (auto simp: fun_eq_iff same split: prod.split core_term.split)
qed

lemma map_terms_st_shallow: "shallow_pat p \<Longrightarrow> shallow_pat (fst (map_terms_st f p n))"
proof -
  have "simple_pat q \<Longrightarrow> simple_pat (fst (map_terms_st f q m))" for q m by (cases q) auto
  then show "shallow_pat p \<Longrightarrow> shallow_pat (fst (map_terms_st f p n))"
    by (cases p) (auto simp: Let_def split_beta list_all_iff dest!: each_elems)
qed

lemma go_with_matched_hook:
  assumes "matched t"
  shows "go_with hk t = go_with hk' t"
  using assms
proof (induction t rule: tree_children_induct)
  case (1 u node)
  have same: "map_node_st (go_with hk) node = map_node_st (go_with hk') node"
    using 1 set_node_children [of node] by (intro map_node_st_cong) force+
  have "compile_case hk s arms d n1 = compile_case hk' s arms d n1"
    if c: "map_node_st (go_with hk') node n = (TCase s arms d, n1)" for s arms d n n1
  proof (rule compile_case_hook)
    fix a v assume a: "a \<in> set arms" "v \<in> set_pat (arm_pat a)"
    obtain s0 arms0 d0 m where node: "node = TCase s0 arms0 d0" "arms = fst (each (map_arm_st (go_with hk')) arms0 m)"
      using c by (cases node) (auto simp: Let_def split_beta)
    obtain a0 i where "a0 \<in> set arms0" "a = fst (map_arm_st (go_with hk') a0 i)" using each_elems [of a] a(1) node(2) by blast
    then have "shallow_pat (arm_pat a)" using "1.prems" node(1)
      by (auto simp: list_all_iff map_arm_st_def Let_def split_beta map_terms_st_shallow)
    then show "hk v = hk' v" using a(2) by (simp add: set_pat_terms [symmetric] shallow_pat_terms)
  qed
  then show ?case by (auto simp: fun_eq_iff same split: prod.split core_term.split)
qed

text \<open>The equation of the source: \<open>go\<close> with \<open>go\<close> itself at the hooked values.\<close>

lemma go_matched: "matched (fst (go t n))"
  unfolding go_def by (intro go_with_matched) simp

lemma go_again: "go t = go_with go t"
proof -
  have "go t = go_with (go_with (\<lambda>v n. (v, n))) t" by (simp add: go_def)
  also have "\<dots> = go_with go t"
    unfolding go_def [THEN fun_cong] by (rule go_with_hook) (simp_all add: go_def go_with_matched_hook go_with_matched)
  finally show ?thesis .
qed

text \<open>
  C6: Match compilation leaves no rich pattern: in every global it returns, at every depth,
  each case tests one constructor with named fields or one literal and has no guard, and the
  globals keep their names and order.
\<close>

theorem compile_matches_shallow:
  "list_all (\<lambda>(x, t). matched t) (cp_globals (compile_matches program))
   \<and> map fst (cp_globals (compile_matches program)) = map fst (cp_globals program)"
  using rewrite_globals_all [of "cp_globals program" matched go 0, OF go_matched]
  by (simp add: compile_matches_def rewrite_globals_names list_all_iff)

end
