(* ===== verification/Builtins.thy ===== *)
theory Builtins
  imports Prelude
begin

text \<open>
  The table of built-in operations of \<^verbatim>\<open>crates/frontend/src/ir/data.rs\<close>, which both
  engines read: each operation's name, arity, strictness and host.
\<close>

section \<open>The table\<close>

datatype builtin_host = Everywhere | Parallel | Compiler | CompileTime

datatype strictness = Shallow | Deep

text \<open>
  \<^verbatim>\<open>Prim\<close> has one variant an entry of the table, in its order; a prim is the
  identifier of its variant.
\<close>

type_synonym prim = string

fun find_index_of :: "'a \<Rightarrow> 'a list \<Rightarrow> nat option" where
  "find_index_of x [] = None"
| "find_index_of x (y # ys) = (if x = y then Some 0 else map_option Suc (find_index_of x ys))"

record Builtin =
  bi_prim :: prim
  bi_name :: name
  bi_arity :: nat
  bi_strictness :: strictness
  bi_host :: builtin_host

definition is_native :: "Builtin \<Rightarrow> bool" where
  "is_native b \<longleftrightarrow> bi_host b \<noteq> CompileTime"

definition leaf :: "prim \<Rightarrow> name \<Rightarrow> nat \<Rightarrow> Builtin" where
  "leaf p n a = \<lparr>bi_prim = p, bi_name = n, bi_arity = a, bi_strictness = Shallow, bi_host = Everywhere\<rparr>"

definition deep :: "prim \<Rightarrow> name \<Rightarrow> nat \<Rightarrow> Builtin" where
  "deep p n a = (leaf p n a)\<lparr>bi_strictness := Deep\<rparr>"

definition parallel :: "prim \<Rightarrow> name \<Rightarrow> nat \<Rightarrow> Builtin" where
  "parallel p n a = (leaf p n a)\<lparr>bi_host := Parallel\<rparr>"

definition compiler :: "prim \<Rightarrow> name \<Rightarrow> nat \<Rightarrow> Builtin" where
  "compiler p n a = (leaf p n a)\<lparr>bi_host := Compiler\<rparr>"

definition compile_time :: "prim \<Rightarrow> name \<Rightarrow> nat \<Rightarrow> Builtin" where
  "compile_time p n a = (leaf p n a)\<lparr>bi_host := CompileTime\<rparr>"

definition builtin_entries :: "(prim \<times> (prim \<Rightarrow> name \<Rightarrow> nat \<Rightarrow> Builtin) \<times> name \<times> nat) list" where
  "builtin_entries = [
     (''Not'', leaf, ''not'', 1), (''Neg'', leaf, ''neg'', 1), (''Iadd'', leaf, ''@iadd'', 2),
     (''Isub'', leaf, ''@isub'', 2), (''Imul'', leaf, ''@imul'', 2), (''Idiv'', leaf, ''@idiv'', 2),
     (''Imod'', leaf, ''@imod'', 2), (''Udiv'', leaf, ''@udiv'', 2), (''Umod'', leaf, ''@umod'', 2),
     (''Iand'', leaf, ''@iand'', 2), (''Ior'', leaf, ''@ior'', 2), (''Ixor'', leaf, ''@ixor'', 2),
     (''Inot'', leaf, ''@inot'', 1), (''Ishl'', leaf, ''@ishl'', 2), (''Ishr'', leaf, ''@ishr'', 2),
     (''Ushr'', leaf, ''@ushr'', 2), (''F64Bits'', leaf, ''@f64_bits'', 1),
     (''BitsF64'', leaf, ''@bits_f64'', 1), (''F32Bits'', leaf, ''@f32_bits'', 1),
     (''BitsF32'', leaf, ''@bits_f32'', 1), (''Fadd'', leaf, ''@fadd'', 2), (''Fsub'', leaf, ''@fsub'', 2),
     (''Fmul'', leaf, ''@fmul'', 2), (''Fdiv'', leaf, ''@fdiv'', 2), (''Fmod'', leaf, ''@fmod'', 2),
     (''Fpow'', leaf, ''@fpow'', 2), (''F32add'', leaf, ''@f32add'', 2), (''F32sub'', leaf, ''@f32sub'', 2),
     (''F32mul'', leaf, ''@f32mul'', 2), (''F32div'', leaf, ''@f32div'', 2),
     (''F32mod'', leaf, ''@f32mod'', 2), (''F32pow'', leaf, ''@f32pow'', 2), (''Ieq'', leaf, ''@ieq'', 2),
     (''Ilt'', leaf, ''@ilt'', 2), (''Ult'', leaf, ''@ult'', 2), (''Feq'', leaf, ''@feq'', 2),
     (''Flt'', leaf, ''@flt'', 2), (''Seq'', leaf, ''@seq'', 2), (''Slt'', leaf, ''@slt'', 2),
     (''Swrap'', leaf, ''@swrap'', 2), (''Uwrap'', leaf, ''@uwrap'', 2), (''Eq'', deep, ''=='', 2),
     (''Lt'', leaf, ''<'', 2), (''Gt'', leaf, ''>'', 2), (''Le'', leaf, ''<='', 2),
     (''Ge'', leaf, ''>='', 2), (''Concat'', leaf, ''++'', 2), (''Acat'', leaf, ''@acat'', 2),
     (''ArrayAlloc'', leaf, ''@array_alloc'', 1), (''ArrayLen'', leaf, ''@array_len'', 1),
     (''ArrayGet'', leaf, ''@array_get'', 2), (''ArrayPush'', leaf, ''@array_push'', 2),
     (''ArraySet'', leaf, ''@array_set'', 3), (''ArraySlice'', leaf, ''@array_slice'', 3),
     (''ArrayScan'', leaf, ''@array_scan'', 3), (''ArrayMatch'', leaf, ''@array_match'', 3),
     (''PtrBytes'', leaf, ''@ptr_bytes'', 2), (''RecordWithout'', leaf, ''record_without'', 2),
     (''VecNew'', leaf, ''@vec_new'', 1), (''VecLen'', leaf, ''@vec_len'', 1),
     (''VecGet'', leaf, ''@vec_get'', 2), (''VecPush'', leaf, ''@vec_push'', 2),
     (''VecFill'', leaf, ''@vec_fill'', 2), (''VecSet'', leaf, ''@vec_set'', 3),
     (''VecSlice'', leaf, ''@vec_slice'', 3), (''TensorLength'', leaf, ''@tensor_length'', 1),
     (''TensorStack'', leaf, ''@tensor_stack'', 1), (''TensorTranspose'', leaf, ''@tensor_transpose'', 1),
     (''TensorConcat'', leaf, ''@tensor_concat'', 2), (''TensorIndex'', leaf, ''@tensor_index'', 2),
     (''TensorCreate'', leaf, ''@tensor_create'', 2), (''TensorSlice'', leaf, ''@tensor_slice'', 3),
     (''TensorIndexAxis'', leaf, ''@tensor_index_axis'', 3),
     (''TensorSliceAxis'', leaf, ''@tensor_slice_axis'', 4), (''TensorDot'', leaf, ''@tensor_dot'', 5),
     (''TensorMatmul'', leaf, ''@tensor_matmul'', 5), (''Delay'', leaf, ''@delay'', 1),
     (''Par'', parallel, ''@par'', 1), (''Spawn'', parallel, ''@spawn'', 1),
     (''Await'', parallel, ''@await'', 1), (''ChanNew'', leaf, ''@chan_new'', 1),
     (''ChanSend'', leaf, ''@chan_send'', 2), (''ChanRecv'', leaf, ''@chan_recv'', 1),
     (''TvarNew'', leaf, ''@tvar_new'', 1), (''TvarRead'', leaf, ''@tvar_read'', 1),
     (''StmBegin'', leaf, ''@stm_begin'', 1), (''StmRead'', leaf, ''@stm_read'', 1),
     (''StmWrite'', leaf, ''@stm_write'', 2), (''StmCommit'', leaf, ''@stm_commit'', 1),
     (''StmWait'', leaf, ''@stm_wait'', 1), (''StmSave'', leaf, ''@stm_save'', 1),
     (''StmRollback'', leaf, ''@stm_rollback'', 1), (''Lex'', compiler, ''@lex'', 1),
     (''TokenKind'', compiler, ''@token_kind'', 1), (''TokenText'', compiler, ''@token_text'', 1),
     (''Parse'', compiler, ''@parse'', 1), (''ParseStr'', compiler, ''@parse_str'', 1),
     (''ParseItems'', compiler, ''@parse_items'', 1), (''ParseType'', compiler, ''@parse_type'', 1),
     (''ParseRow'', compiler, ''@parse_row'', 1), (''Format'', compiler, ''@format'', 1),
     (''Eval'', compiler, ''@eval'', 1), (''Unparse'', compiler, ''@unparse'', 1),
     (''Abort'', compile_time, ''@abort'', 1), (''Emit'', compile_time, ''@emit'', 1),
     (''Fresh'', compile_time, ''@fresh'', 1), (''Link'', compile_time, ''@link'', 1),
     (''LinkPath'', compile_time, ''@link_path'', 1), (''ImportPath'', compile_time, ''@import_path'', 1),
     (''SetOption'', compile_time, ''@option'', 2), (''TypeKind'', compile_time, ''@type_kind'', 1),
     (''TypeFields'', compile_time, ''@type_fields'', 1),
     (''TypeVariants'', compile_time, ''@type_variants'', 1),
     (''TypeParams'', compile_time, ''@type_params'', 1), (''TypeOf'', compile_time, ''@type_of'', 1),
     (''Lookup'', compile_time, ''@lookup'', 1), (''Scope'', compile_time, ''@scope'', 1),
     (''Here'', compile_time, ''@here'', 1), (''Check'', compile_time, ''@check'', 1),
     (''Fail'', compile_time, ''@fail'', 1), (''Warn'', compile_time, ''@warn'', 1),
     (''ShellQuit'', compile_time, ''@shell_quit'', 1), (''ShellReset'', compile_time, ''@shell_reset'', 1),
     (''ShellList'', compile_time, ''@shell_list'', 1)]"

definition BUILTINS :: "Builtin list" where
  "BUILTINS = map (\<lambda>(p, make, n, a). make p n a) builtin_entries"

text \<open>\<^verbatim>\<open>Prim::builtin\<close> indexes the table by the variant's discriminant, its position in the list.\<close>

definition prim_builtin :: "prim \<Rightarrow> Builtin option" where
  "prim_builtin p = (case find_index_of p (map fst builtin_entries) of None \<Rightarrow> None | Some k \<Rightarrow> nth_opt BUILTINS k)"

definition builtin :: "name \<Rightarrow> Builtin option" where
  "builtin n = find (\<lambda>b. bi_name b = n) BUILTINS"

definition builtin_arity :: "name \<Rightarrow> nat option" where
  "builtin_arity n = map_option bi_arity (builtin n)"

definition native_builtin :: "name \<Rightarrow> Builtin option" where
  "native_builtin n = (case builtin n of None \<Rightarrow> None | Some b \<Rightarrow> if is_native b then Some b else None)"

definition native_builtins :: "Builtin list" where
  "native_builtins = filter is_native BUILTINS"

section \<open>The table is consistent\<close>

lemma BUILTINS_names_distinct: "distinct (map bi_name BUILTINS)"
  by code_simp

lemma find_distinct:
  "distinct (map f xs) \<Longrightarrow> x \<in> set xs \<Longrightarrow> find (\<lambda>y. f y = f x) xs = Some x"
  by (induction xs) (auto simp: rev_image_eqI)

lemma find_index_of_nth: "distinct xs \<Longrightarrow> k < length xs \<Longrightarrow> find_index_of (xs ! k) xs = Some k"
proof (induction xs arbitrary: k)
  case (Cons x xs)
  then show ?case by (cases k) (auto simp: nth_eq_iff_index_eq)
qed simp

lemma BUILTINS_prims: "map bi_prim BUILTINS = map fst builtin_entries"
  by code_simp

lemma prims_distinct: "distinct (map fst builtin_entries)"
  by code_simp

lemma prim_builtin_prim:
  assumes "b \<in> set BUILTINS"
  shows "prim_builtin (bi_prim b) = Some b"
proof -
  obtain k where k: "k < length BUILTINS" "b = BUILTINS ! k" using assms by (metis in_set_conv_nth)
  have len: "length (map fst builtin_entries) = length BUILTINS" by (simp add: BUILTINS_def)
  have "bi_prim b = map fst builtin_entries ! k"
    using k BUILTINS_prims by (metis nth_map)
  then show ?thesis
    using k len find_index_of_nth [OF prims_distinct, of k] by (simp add: prim_builtin_def nth_opt_def del: nth_map)
qed

text \<open>
  The table is keyed by name and by prim: looking up the name of an entry, or
  its prim, gives that entry, so a lookup never depends on the order of the
  table; every operation takes at least one operand.
\<close>

lemma builtin_roundtrip:
  "list_all (\<lambda>b. builtin (bi_name b) = Some b \<and> prim_builtin (bi_prim b) = Some b
     \<and> 1 \<le> bi_arity b) BUILTINS"
proof -
  have "builtin (bi_name b) = Some b" if "b \<in> set BUILTINS" for b
    using that BUILTINS_names_distinct by (simp add: builtin_def find_distinct)
  moreover have "list_all (\<lambda>b. 1 \<le> bi_arity b) BUILTINS" by code_simp
  ultimately show ?thesis by (simp add: list_all_iff prim_builtin_prim)
qed

text \<open>
  The native runtime numbers its dispatch from the order of the native
  entries; the native entries are a prefix of the table, so a native operation's
  number is its position there.
\<close>

lemma native_builtins_prefix:
  "BUILTINS = native_builtins @ filter (\<lambda>b. \<not> is_native b) BUILTINS"
  by code_simp

end
