(* ===== verification/Eta_Fold.thy ===== *)
theory Eta_Fold
  imports Core_Terms Builtins "HOL-Library.AList"
begin

text \<open>
  The fold of eta-expanded primitives, \<^verbatim>\<open>crates/frontend/src/passes/eta_fold.rs\<close>: the tables
  of globals and instance methods that only apply a primitive to their parameters, and the
  rewriting of their saturated uses. A hash map is an association list with one entry a key.
\<close>

section \<open>Spines\<close>

abbreviation tvar :: "name \<Rightarrow> utree" where
  "tvar x \<equiv> T (TVar None x)"

abbreviation tapp :: "utree \<Rightarrow> utree \<Rightarrow> utree" where
  "tapp f x \<equiv> T (TApp f x)"

abbreviation tapps :: "utree \<Rightarrow> utree list \<Rightarrow> utree" where
  "tapps \<equiv> foldl tapp"

text \<open>The loops that strip parameters and peel an application.\<close>

fun peel_lams :: "utree \<Rightarrow> name list \<times> utree" where
  "peel_lams (Tree a (TLam p b)) = (let (ps, c) = peel_lams b in (p # ps, c))"
| "peel_lams t = ([], t)"

fun unspine :: "utree \<Rightarrow> utree \<times> utree list" where
  "unspine (Tree a (TApp f x)) = (let (h, args) = unspine f in (h, args @ [x]))"
| "unspine t = (t, [])"

definition is_intrinsic :: "name \<Rightarrow> bool" where
  "is_intrinsic x \<longleftrightarrow> (case x of [] \<Rightarrow> False | c # _ \<Rightarrow> c = CHR ''@'')"

definition is_var :: "name \<Rightarrow> utree \<Rightarrow> bool" where
  "is_var x t \<longleftrightarrow> tree_node t = TVar None x"

text \<open>The key of a qualified variable, and the fields of a struct literal with no base.\<close>

definition global_key :: "utree \<Rightarrow> name option" where
  "global_key t = (case tree_node t of TVar (Some m) x \<Rightarrow> Some (m @ ''.'' @ x) | _ \<Rightarrow> None)"

definition struct_fields :: "utree \<Rightarrow> (name \<times> utree) list option" where
  "struct_fields t = (case tree_node t of TStruct _ None fs \<Rightarrow> Some fs | _ \<Rightarrow> None)"

section \<open>The tables\<close>

record wrapper =
  w_prim :: name
  w_order :: "nat list"
  w_negate :: bool

record prims =
  methods :: "((name \<times> name) \<times> name \<times> nat) list"
  prim_globals :: "(name \<times> name \<times> nat) list"
  wrappers :: "(name \<times> wrapper) list"

definition or_insert :: "'k \<Rightarrow> 'v \<Rightarrow> ('k \<times> 'v) list \<Rightarrow> ('k \<times> 'v) list" where
  "or_insert k v m = (case map_of m k of None \<Rightarrow> m @ [(k, v)] | Some _ \<Rightarrow> m)"

definition reorders :: "wrapper \<Rightarrow> bool" where
  "reorders w \<longleftrightarrow> list_ex (\<lambda>(k, p). k \<noteq> p) (enumerate 0 (w_order w))"

definition prims_is_empty :: "prims \<Rightarrow> bool" where
  "prims_is_empty P \<longleftrightarrow> methods P = [] \<and> prim_globals P = [] \<and> wrappers P = []"

definition inherit :: "prims \<Rightarrow> prims \<Rightarrow> prims" where
  "inherit P Q = \<lparr>
     methods = fold (\<lambda>(k, v). or_insert k v) (methods Q) (methods P),
     prim_globals = fold (\<lambda>(k, v). or_insert k v) (prim_globals Q) (prim_globals P),
     wrappers = fold (\<lambda>(k, v). or_insert k v) (wrappers Q) (wrappers P)\<rparr>"

definition eta_primitive :: "utree \<Rightarrow> (name \<times> nat) option" where
  "eta_primitive t =
     (let (params, cur) = peel_lams t in
      if params = [] then None else
      let (h, args) = unspine cur in
      case tree_node h of
        TVar None x \<Rightarrow>
          if \<not> is_intrinsic x \<or> length args \<noteq> length params then None
          else if list_all (\<lambda>(arg, want). is_var want arg) (zip args params) then Some (x, length params) else None
      | _ \<Rightarrow> None)"

definition folded_head :: "prims \<Rightarrow> utree \<Rightarrow> nat \<Rightarrow> name option" where
  "folded_head P t argc =
     (case global_key t of
        Some k \<Rightarrow>
          (case map_of (prim_globals P) k of
             None \<Rightarrow> None | Some (prim, n) \<Rightarrow> if n \<le> argc then Some prim else None)
      | None \<Rightarrow>
          (case tree_node t of
             TField r f \<Rightarrow>
               (case global_key r of
                  None \<Rightarrow> None
                | Some k \<Rightarrow>
                    (case map_of (methods P) (k, f) of
                       None \<Rightarrow> None | Some (prim, n) \<Rightarrow> if n = argc then Some prim else None))
           | _ \<Rightarrow> None))"

text \<open>The parameter each operand is, none twice.\<close>

fun param_order :: "name list \<Rightarrow> nat list \<Rightarrow> utree list \<Rightarrow> nat list option" where
  "param_order params order [] = Some order"
| "param_order params order (arg # args) =
     (case tree_node arg of
        TVar None x \<Rightarrow>
          (case List.find (\<lambda>(_, q). q = x) (enumerate 0 params) of
             None \<Rightarrow> None
           | Some (p, _) \<Rightarrow> if p \<in> set order then None else param_order params (order @ [p]) args)
      | _ \<Rightarrow> None)"

definition strip_not :: "utree \<Rightarrow> bool \<times> utree" where
  "strip_not t = (case tree_node t of
     TApp f x \<Rightarrow> if is_var ''not'' f then (True, x) else (False, t) | _ \<Rightarrow> (False, t))"

definition wrapper_head :: "prims \<Rightarrow> utree \<Rightarrow> nat \<Rightarrow> name option" where
  "wrapper_head P h argc = (case tree_node h of
     TVar None x \<Rightarrow> if is_intrinsic x then Some x else folded_head P h argc
   | _ \<Rightarrow> folded_head P h argc)"

definition wrapped_primitive :: "utree \<Rightarrow> prims \<Rightarrow> wrapper option" where
  "wrapped_primitive t P =
     (let (params, body) = peel_lams t in
      if \<not> distinct params \<or> ''not'' \<in> set params \<or> params = [] then None else
      let (negate, cur) = strip_not body; (h, args) = unspine cur in
      if length args \<noteq> length params then None else
      case wrapper_head P h (length args) of
        None \<Rightarrow> None
      | Some prim \<Rightarrow>
          if builtin_arity prim \<noteq> Some (length args) then None else
          case param_order params [] args of
            None \<Rightarrow> None
          | Some order \<Rightarrow>
              let w = \<lparr>w_prim = prim, w_order = order, w_negate = negate\<rparr> in
              if w_negate w \<or> reorders w then Some w else None)"

text \<open>The three loops of \<^verbatim>\<open>primitive_methods\<close>.\<close>

definition global_prims :: "(name \<times> utree) list \<Rightarrow> (name \<times> name \<times> nat) list" where
  "global_prims gs = fold (\<lambda>(x, t) m. case eta_primitive t of None \<Rightarrow> m | Some found \<Rightarrow> or_insert x found m) gs []"

definition method_prim :: "(name \<times> name \<times> nat) list \<Rightarrow> utree \<Rightarrow> (name \<times> nat) option" where
  "method_prim globs body = (case global_key body of Some k \<Rightarrow> map_of globs k | None \<Rightarrow> eta_primitive body)"

definition struct_methods :: "(name \<times> name \<times> nat) list \<Rightarrow> name \<Rightarrow> utree \<Rightarrow> ((name \<times> name) \<times> name \<times> nat) list \<Rightarrow> ((name \<times> name) \<times> name \<times> nat) list" where
  "struct_methods globs x t m = (case struct_fields t of
     Some fs \<Rightarrow> fold (\<lambda>(f, body) m. case method_prim globs body of
         None \<Rightarrow> m | Some found \<Rightarrow> AList.update (x, f) found m) fs m
   | None \<Rightarrow> m)"

definition method_prims :: "(name \<times> name \<times> nat) list \<Rightarrow> (name \<times> utree) list \<Rightarrow> ((name \<times> name) \<times> name \<times> nat) list" where
  "method_prims globs gs = fold (\<lambda>(x, t). struct_methods globs x t) gs []"

definition wrapper_prims :: "prims \<Rightarrow> (name \<times> utree) list \<Rightarrow> (name \<times> wrapper) list" where
  "wrapper_prims P gs = fold (\<lambda>(x, t) m.
     if map_of (prim_globals P) x \<noteq> None then m
     else case wrapped_primitive t P of None \<Rightarrow> m | Some w \<Rightarrow> AList.update x w m) gs []"

definition primitive_methods :: "unit core_program \<Rightarrow> prims" where
  "primitive_methods prog =
     (let globs = global_prims (cp_globals prog);
          P = \<lparr>methods = method_prims globs (cp_globals prog), prim_globals = globs, wrappers = []\<rparr>
      in P\<lparr>wrappers := wrapper_prims P (cp_globals prog)\<rparr>)"

section \<open>The rewriting\<close>

text \<open>\<^verbatim>\<open>unwrap\<close>, given the rewritten arguments.\<close>

definition unwrap :: "prims \<Rightarrow> utree \<Rightarrow> utree list \<Rightarrow> utree option" where
  "unwrap P head args =
     (case global_key head of
        None \<Rightarrow> None
      | Some k \<Rightarrow>
          (case map_of (wrappers P) k of
             None \<Rightarrow> None
           | Some w \<Rightarrow>
               let n = length (w_order w) in
               if length args < n then None
               else if reorders w \<and> 1 < length (filter (\<lambda>a. \<not> is_atom a) (take n args)) then None
               else
                 let out = tapps (tvar (w_prim w)) (map (\<lambda>p. args ! p) (w_order w));
                     out1 = (if w_negate w then tapp (tvar ''not'') out else out)
                 in Some (tapps out1 (drop n args))))"

lemma unspine_sub:
  "(\<forall>x \<in> set (snd (unspine t)). (x, t) \<in> subtree\<^sup>+) \<and> (snd (unspine t) \<noteq> [] \<longrightarrow> (fst (unspine t), t) \<in> subtree\<^sup>+)"
proof (induction t rule: unspine.induct)
  case (1 a f x)
  have f: "(f, Tree a (TApp f x)) \<in> subtree\<^sup>+" and x: "(x, Tree a (TApp f x)) \<in> subtree\<^sup>+" by auto
  have up: "(c, Tree a (TApp f x)) \<in> subtree\<^sup>+" if "(c, f) \<in> subtree\<^sup>+" for c using that f by (rule trancl_trans)
  have head: "fst (unspine f) = f" if "snd (unspine f) = []" using that by (cases f rule: unspine.cases) (auto simp: Let_def split: prod.splits)
  show ?case using 1 f x up head by (cases "unspine f") auto
qed auto

lemma unspine_app: "snd (unspine (Tree a (TApp f x))) \<noteq> []"
  by (auto simp: Let_def split: prod.splits)

function rewrite :: "prims \<Rightarrow> utree \<Rightarrow> utree" where
  "rewrite P (Tree () n) =
     (case n of
        TApp _ _ \<Rightarrow>
          let spine = unspine (T n); args = map (rewrite P) (snd spine) in
          (case unwrap P (fst spine) args of
             Some out \<Rightarrow> out
           | None \<Rightarrow>
               tapps (case folded_head P (fst spine) (length args) of
                   Some prim \<Rightarrow> tvar prim | None \<Rightarrow> rewrite P (fst spine)) args)
      | _ \<Rightarrow> T (map_node (\<lambda>c _. rewrite P c) n))"
  by (metis old.unit.exhaust surj_pair tree.exhaust) auto

termination
  by (relation "inv_image (subtree\<^sup>+) snd")
    (auto simp: wf_subtree wf_trancl unspine_sub unspine_app simp del: unspine.simps node_children.simps intro!: r_into_trancl dest: node_children_sub)

definition reduce_methods :: "prims \<Rightarrow> (name \<times> utree) list \<Rightarrow> (name \<times> utree) list" where
  "reduce_methods P gs = map (\<lambda>(x, t). (x, case tree_node t of
       TStruct ty None fs \<Rightarrow>
         if list_ex (\<lambda>(f, _). map_of (methods P) (x, f) \<noteq> None) fs
         then T (TStruct ty None (map (\<lambda>(f, body). (f, case map_of (methods P) (x, f) of Some (prim, _) \<Rightarrow> tvar prim | None \<Rightarrow> body)) fs))
         else t
     | _ \<Rightarrow> t)) gs"

definition fold_primitive_methods_with :: "unit core_program \<Rightarrow> prims \<Rightarrow> unit core_program" where
  "fold_primitive_methods_with prog P =
     (if prims_is_empty P then prog
      else prog\<lparr>cp_globals := reduce_methods P (fst (rewrite_globals (\<lambda>t s. (rewrite P t, s)) (cp_globals prog) ()))\<rparr>)"

definition fold_primitive_methods :: "unit core_program \<Rightarrow> unit core_program" where
  "fold_primitive_methods prog = fold_primitive_methods_with prog (primitive_methods prog)"

end
