(* ===== verification/Eta_Sound.thy ===== *)
theory Eta_Sound
  imports Eta_Fold
begin

text \<open>
  The fold keeps the meaning of a term. A model gives values to globals by their keys and to
  the unqualified names no binder binds, says how values are applied and projected, and
  builds every other node from what its children mean under the values of their binders:
  lambdas, matches and effects are whatever the model makes of them. What is asked of it is
  that a global or method that is a lambda satisfies its defining equation on as many
  arguments as it has parameters.
\<close>

section \<open>Models\<close>




definition plain_node :: "'c core_term \<Rightarrow> bool" where
  "plain_node n \<longleftrightarrow> (case n of TVar _ _ \<Rightarrow> False | TApp _ _ \<Rightarrow> False | TField _ _ \<Rightarrow> False | _ \<Rightarrow> True)"




lemma plain_map [simp]: "plain_node (map_node f n) = plain_node n"
  by (cases n) (simp_all add: plain_node_def)




section \<open>Hygiene\<close>









section \<open>What the tables promise\<close>









section \<open>The tables of a program\<close>

























section \<open>Properties\<close>


definition ge_program :: "unit core_program" where
  "ge_program = (core_program_new ''M'')\<lparr>cp_globals :=
     [(''M.lt'', T (TLam ''a'' (T (TLam ''b'' (tapps (tvar ''@ilt'') [tvar ''a'', tvar ''b'']))))),
      (''M.ge'', T (TLam ''a'' (T (TLam ''b'' (tapp (tvar ''not'') (tapps (T (TVar (Some ''M'') ''lt'')) [tvar ''a'', tvar ''b'']))))))]\<rparr>"

definition ge_call :: utree where
  "ge_call = tapps (T (TVar (Some ''M'') ''ge'')) [T (TInt 3), T (TInt 5)]"

lemma ge_folded: "rewrite (primitive_methods ge_program) ge_call = tapp (tvar ''not'') (tapps (tvar ''@ilt'') [T (TInt 3), T (TInt 5)])"
  by code_simp

text \<open>
  C36: without those conditions the fold changes what a program means. Under a local named
  \<^verbatim>\<open>not\<close> a folded comparison apply_all that local: the term has no occurrence of the name, its
  fold apply_all it to the primitive's result. And \<^verbatim>\<open>\a a => @isub a a\<close>, which ignores its first
  argument, passes for the primitive itself.
\<close>

theorem unhygienic_folds:
  "\<not> mentions (T (TLam ''not'' ge_call)) ''not'' \<and>
   rewrite (primitive_methods ge_program) (T (TLam ''not'' ge_call))
     = T (TLam ''not'' (tapp (tvar ''not'') (tapps (tvar ''@ilt'') [T (TInt 3), T (TInt 5)]))) \<and>
   eta_primitive (T (TLam ''a'' (T (TLam ''a'' (tapps (tvar ''@isub'') [tvar ''a'', tvar ''a'']))))) = Some (''@isub'', 2)"
proof (intro conjI)
  show "\<not> mentions (T (TLam ''not'' ge_call)) ''not''" by (simp add: ge_call_def)
  show "rewrite (primitive_methods ge_program) (T (TLam ''not'' ge_call))
     = T (TLam ''not'' (tapp (tvar ''not'') (tapps (tvar ''@ilt'') [T (TInt 3), T (TInt 5)])))"
    using ge_folded by simp
  show "eta_primitive (T (TLam ''a'' (T (TLam ''a'' (tapps (tvar ''@isub'') [tvar ''a'', tvar ''a'']))))) = Some (''@isub'', 2)"
    by code_simp
qed

section \<open>An instance\<close>









end
