(* ===== verification/IR_Data.thy ===== *)
theory IR_Data
  imports Core_Terms
begin

text \<open>
  The intermediate representation \<^verbatim>\<open>crates/frontend/src/ir/data.rs\<close>: atoms, computations
  in A-normal form, codes and programs, the traversals over an expression, and the
  table of built-in operations both engines read.
\<close>

section \<open>Atoms, expressions and programs\<close>

datatype atom =
    Local nat
  | Move nat
  | Env nat
  | MoveEnv nat
  | Glob name
  | LitI i64
  | LitR f64
  | LitS string
  | LitB bool
  | AUnit
  | Clos nat "atom list"
  | AExtern name name name "name list" name

datatype unpack = Borrow | Consume nat "nat option"

datatype altkind = KInt i64 | KReal f64 | KBool bool | KCon name

datatype 'e alt =
  Alt (alt_kind: altkind) (binder_base: nat) (binders: "name option list") (alt_body: 'e)
    (alt_unpack: unpack)

datatype resume_use = Never | Captured

datatype handle_clause =
  HandleClause (hc_effect: "name option") (hc_op: name) (hc_fun: atom) (hc_resume: resume_use)

datatype irexpr =
    Ret atom
  | Let nat irexpr irexpr
  | App atom atom bool bool
  | Case atom "irexpr alt list" irexpr
  | MkStruct name "atom option" "(name \<times> atom) list"
  | Field atom name
  | MkVariant name name "atom list" "nat option"
  | MkTuple "atom list"
  | Handle irexpr "handle_clause list" atom
  | Defer atom irexpr
  | Drop "nat list" irexpr
  | IFault string

record code =
  nparams :: nat
  nlocals :: nat
  code_body :: irexpr
  code_name :: name
  borrowed :: "bool list"

record ir_program =
  ip_codes :: "code list"
  ip_globals :: "(name \<times> nat) list"
  ip_effects :: "core_effect list"
  ip_crepr_layouts :: "(name \<times> ckind clayout) list"

lemma set_alt_eq [simp]: "set_alt a = {alt_body a}"
  by (cases a) simp

lemma size_alt_body [termination_simp]:
  "a \<in> set alts \<Longrightarrow> size (alt_body a) < Suc (size_list (size_alt size) alts + k)"
proof (induction alts)
  case (Cons b alts)
  have "size (alt_body b) < size_alt size b" by (cases b) simp
  with Cons show ?case by auto
qed simp

section \<open>Traversal\<close>

text \<open>\<^verbatim>\<open>Atom::mentions\<close>.\<close>

fun atom_mentions :: "atom \<Rightarrow> nat \<Rightarrow> bool" where
  "atom_mentions (Local s) slot = (s = slot)"
| "atom_mentions (Move s) slot = (s = slot)"
| "atom_mentions (Clos _ captures) slot = (\<exists>c \<in> set captures. atom_mentions c slot)"
| "atom_mentions _ slot = False"

text \<open>\<^verbatim>\<open>IrExpr::for_each_child\<close>, the list of the expressions it visits.\<close>

fun ir_children :: "irexpr \<Rightarrow> irexpr list" where
  "ir_children (Let _ rhs body) = [rhs, body]"
| "ir_children (Case _ alts d) = map alt_body alts @ [d]"
| "ir_children (Handle body _ _) = [body]"
| "ir_children (Defer _ body) = [body]"
| "ir_children (Drop _ body) = [body]"
| "ir_children _ = []"

lemma size_ir_children [termination_simp]: "c \<in> set (ir_children e) \<Longrightarrow> size c < size e"
  by (cases e) (auto simp: size_alt_body [where k = 0, simplified] dest: size_alt_body [where k = "size _"])

text \<open>\<^verbatim>\<open>IrExpr::any_node\<close>.\<close>

fun any_node :: "(irexpr \<Rightarrow> bool) \<Rightarrow> irexpr \<Rightarrow> bool" where
  "any_node p e = (p e \<or> (\<exists>c \<in> set (ir_children e). any_node p c))"

declare any_node.simps [simp del]

text \<open>\<^verbatim>\<open>IrExpr::for_each_operand\<close>, the atoms written directly in an expression.\<close>

fun ir_operands :: "irexpr \<Rightarrow> atom list" where
  "ir_operands (Ret a) = [a]"
| "ir_operands (Field a _) = [a]"
| "ir_operands (App f x _ _) = [f, x]"
| "ir_operands (MkStruct _ base fs) = (case base of None \<Rightarrow> [] | Some b \<Rightarrow> [b]) @ map snd fs"
| "ir_operands (MkVariant _ _ fs _) = fs"
| "ir_operands (MkTuple fs) = fs"
| "ir_operands (Case s _ _) = [s]"
| "ir_operands (Handle _ cls els) = map hc_fun cls @ [els]"
| "ir_operands (Defer c _) = [c]"
| "ir_operands _ = []"

text \<open>\<^verbatim>\<open>IrExpr::for_each_atom\<close>: a closure's captures in place of the closure.\<close>

fun leaves :: "atom \<Rightarrow> atom list" where
  "leaves (Clos _ captures) = concat (map leaves captures)"
| "leaves a = [a]"

definition ir_atoms :: "irexpr \<Rightarrow> atom list" where
  "ir_atoms e = concat (map leaves (ir_operands e))"

text \<open>\<^verbatim>\<open>IrExpr::mentions\<close>.\<close>

fun drops_slot :: "nat \<Rightarrow> irexpr \<Rightarrow> bool" where
  "drops_slot slot (Drop slots _) = (slot \<in> set slots)"
| "drops_slot slot _ = False"

definition ir_mentions :: "irexpr \<Rightarrow> nat \<Rightarrow> bool" where
  "ir_mentions e slot =
     any_node (\<lambda>n. drops_slot slot n \<or> (\<exists>a \<in> set (ir_atoms n). atom_mentions a slot)) e"

lemma leaves_mentions: "(\<exists>l \<in> set (leaves a). atom_mentions l slot) \<longleftrightarrow> atom_mentions a slot"
  by (induction a) auto

lemma ir_atoms_mentions:
  "(\<exists>a \<in> set (ir_atoms n). atom_mentions a slot) \<longleftrightarrow> (\<exists>a \<in> set (ir_operands n). atom_mentions a slot)"
proof -
  have "(\<exists>a \<in> set (ir_atoms n). atom_mentions a slot) \<longleftrightarrow>
      (\<exists>a \<in> set (ir_operands n). \<exists>l \<in> set (leaves a). atom_mentions l slot)"
    by (auto simp: ir_atoms_def)
  then show ?thesis by (simp only: leaves_mentions)
qed

lemma ir_mentions_unfold:
  "ir_mentions e slot \<longleftrightarrow> drops_slot slot e \<or> (\<exists>a \<in> set (ir_operands e). atom_mentions a slot)
     \<or> (\<exists>c \<in> set (ir_children e). ir_mentions c slot)"
  unfolding ir_mentions_def ir_atoms_mentions by (subst any_node.simps) blast

lemma ir_mentions_simps [simp, ir_simps]:
  "ir_mentions (Ret a) s \<longleftrightarrow> atom_mentions a s"
  "ir_mentions (Let u r e) s \<longleftrightarrow> ir_mentions r s \<or> ir_mentions e s"
  "ir_mentions (App f x t l) s \<longleftrightarrow> atom_mentions f s \<or> atom_mentions x s"
  "ir_mentions (Case a alts d) s \<longleftrightarrow>
     atom_mentions a s \<or> (\<exists>l \<in> set alts. ir_mentions (alt_body l) s) \<or> ir_mentions d s"
  "ir_mentions (MkStruct n base sfs) s \<longleftrightarrow>
     (\<exists>b \<in> set_option base. atom_mentions b s) \<or> (\<exists>f \<in> set sfs. atom_mentions (snd f) s)"
  "ir_mentions (Field a n) s \<longleftrightarrow> atom_mentions a s"
  "ir_mentions (MkVariant ty tag fs tok) s \<longleftrightarrow> (\<exists>a \<in> set fs. atom_mentions a s)"
  "ir_mentions (MkTuple fs) s \<longleftrightarrow> (\<exists>a \<in> set fs. atom_mentions a s)"
  "ir_mentions (Handle e cls els) s \<longleftrightarrow>
     ir_mentions e s \<or> (\<exists>c \<in> set cls. atom_mentions (hc_fun c) s) \<or> atom_mentions els s"
  "ir_mentions (Defer a e) s \<longleftrightarrow> atom_mentions a s \<or> ir_mentions e s"
  "ir_mentions (Drop ss e) s \<longleftrightarrow> s \<in> set ss \<or> ir_mentions e s"
  "ir_mentions (IFault msg) s \<longleftrightarrow> False"
  by (subst ir_mentions_unfold; auto split: option.splits)+

end
