(* ===== verification/IR_Simplify.thy ===== *)
theory IR_Simplify
  imports IR_Data Builtins "HOL-Library.Monad_Syntax"
begin

text \<open>
  The two rewrites closure conversion ends with
  (\<^verbatim>\<open>crates/frontend/src/ir/closure_conversion.rs\<close>): \<open>sink_partials\<close> moves a partial
  application down to the application that saturates it, and \<open>propagate_copies\<close>
  removes a \<open>let\<close> that only copies a local or a captured field. The
  \<^verbatim>\<open>unreachable!\<close> of \<^verbatim>\<open>substitute\<close> is \<open>None\<close>.
\<close>

section \<open>Sinking partial applications\<close>

definition with_body :: "'a alt \<Rightarrow> 'b \<Rightarrow> 'b alt" where
  "with_body a b = Alt (alt_kind a) (binder_base a) (binders a) b (alt_unpack a)"

fun applies :: "nat \<Rightarrow> irexpr \<Rightarrow> bool" where
  "applies slot (App (Local s) arg _ _) = (s = slot \<and> \<not> atom_mentions arg slot)"
| "applies slot _ = False"

text \<open>\<^verbatim>\<open>place_partial\<close>: \<open>Inr\<close> is \<^verbatim>\<open>Ok\<close>, \<open>Inl\<close> hands the body back.\<close>

fun place_partial :: "nat \<Rightarrow> irexpr \<Rightarrow> irexpr \<Rightarrow> irexpr + irexpr" where
  "place_partial slot rhs (Let next next_rhs rest) =
     (if applies slot next_rhs then
        (if ir_mentions rest slot then Inl (Let next next_rhs rest)
         else Inr (Let slot rhs (Let next next_rhs rest)))
      else if ir_mentions next_rhs slot then Inl (Let next next_rhs rest)
      else (case place_partial slot rhs rest of
              Inr placed \<Rightarrow> Inr (Let next next_rhs placed)
            | Inl rest' \<Rightarrow> Inl (Let next next_rhs rest')))"
| "place_partial slot rhs e = (if applies slot e then Inr (Let slot rhs e) else Inl e)"

text \<open>How many more operands the value of a right-hand side takes, if it is known.\<close>

fun operands_left :: "(name \<Rightarrow> nat option) \<Rightarrow> (nat \<Rightarrow> nat option) \<Rightarrow> irexpr \<Rightarrow> nat option" where
  "operands_left arity partials (App (Glob f) _ _ _) = map_option (\<lambda>n. n - 1) (arity f)"
| "operands_left arity partials (App (Local s) _ _ _) = map_option (\<lambda>n. n - 1) (partials s)"
| "operands_left arity partials _ = None"

fun sink_partials :: "(name \<Rightarrow> nat option) \<Rightarrow> (nat \<Rightarrow> nat option) \<Rightarrow> irexpr \<Rightarrow> irexpr" where
  "sink_partials arity partials (Let slot rhs body) =
     (let rhs' = sink_partials arity partials rhs;
          left = operands_left arity partials rhs'
      in case left of
           Some (Suc n) \<Rightarrow>
             let body' = sink_partials arity (partials(slot \<mapsto> Suc n)) body
             in (case place_partial slot rhs' body' of
                   Inr placed \<Rightarrow> placed
                 | Inl body'' \<Rightarrow> Let slot rhs' body'')
         | _ \<Rightarrow> Let slot rhs' (sink_partials arity (partials(slot := None)) body))"
| "sink_partials arity partials (Case s alts d) =
     Case s (map (\<lambda>a. with_body a (sink_partials arity partials (alt_body a))) alts)
       (sink_partials arity partials d)"
| "sink_partials arity partials (Handle b cls els) = Handle (sink_partials arity partials b) cls els"
| "sink_partials arity partials (Defer c b) = Defer c (sink_partials arity partials b)"
| "sink_partials arity partials e = e"

section \<open>Copy propagation\<close>

fun subst_atom :: "nat \<Rightarrow> atom \<Rightarrow> atom \<Rightarrow> atom" where
  "subst_atom slot x (Local s) = (if s = slot then x else Local s)"
| "subst_atom slot x (Clos c captures) = Clos c (map (subst_atom slot x) captures)"
| "subst_atom slot x a = a"

fun substitute :: "nat \<Rightarrow> atom \<Rightarrow> irexpr \<Rightarrow> irexpr option" where
  "substitute slot x (Ret a) = Some (Ret (subst_atom slot x a))"
| "substitute slot x (Field a n) = Some (Field (subst_atom slot x a) n)"
| "substitute slot x (App f a tail lend) = Some (App (subst_atom slot x f) (subst_atom slot x a) tail lend)"
| "substitute slot x (MkStruct n base fs) =
     Some (MkStruct n (map_option (subst_atom slot x) base) (map (\<lambda>(l, a). (l, subst_atom slot x a)) fs))"
| "substitute slot x (MkVariant ty tag fs tok) = Some (MkVariant ty tag (map (subst_atom slot x) fs) tok)"
| "substitute slot x (MkTuple fs) = Some (MkTuple (map (subst_atom slot x) fs))"
| "substitute slot x (Let s r b) = do {
     r' \<leftarrow> substitute slot x r;
     b' \<leftarrow> substitute slot x b;
     Some (Let s r' b')
   }"
| "substitute slot x (Case s alts d) = do {
     bs \<leftarrow> those (map (\<lambda>a. substitute slot x (alt_body a)) alts);
     d' \<leftarrow> substitute slot x d;
     Some (Case (subst_atom slot x s) (map2 with_body alts bs) d')
   }"
| "substitute slot x (Handle b cls els) = do {
     b' \<leftarrow> substitute slot x b;
     Some (Handle b'
       (map (\<lambda>c. HandleClause (hc_effect c) (hc_op c) (subst_atom slot x (hc_fun c)) (hc_resume c)) cls)
       (subst_atom slot x els))
   }"
| "substitute slot x (Defer c b) = do {
     b' \<leftarrow> substitute slot x b;
     Some (Defer (subst_atom slot x c) b')
   }"
| "substitute slot x (Drop _ _) = None"
| "substitute slot x (IFault msg) = Some (IFault msg)"

text \<open>A sequence of bindings around an expression.\<close>

fun let_all :: "(nat \<times> irexpr) list \<Rightarrow> irexpr \<Rightarrow> irexpr" where
  "let_all [] e = e"
| "let_all ((slot, rhs) # ls) e = Let slot rhs (let_all ls e)"

text \<open>The atom a right-hand side copies, if it is a local or a captured field.\<close>

fun copied :: "nat \<Rightarrow> irexpr \<Rightarrow> atom option" where
  "copied slot (Ret (Local s)) = (if s = slot then None else Some (Local s))"
| "copied slot (Ret (Env i)) = Some (Env i)"
| "copied slot _ = None"

fun propagate_copies :: "irexpr \<Rightarrow> irexpr option" where
  "propagate_copies (Let slot rhs body) =
     (case copied slot rhs of
        Some x \<Rightarrow> do {
          body' \<leftarrow> propagate_copies body;
          substitute slot x body'
        }
      | None \<Rightarrow> do {
          rhs' \<leftarrow> propagate_copies rhs;
          body' \<leftarrow> propagate_copies body;
          Some (Let slot rhs' body')
        })"
| "propagate_copies (Case s alts d) = do {
     bs \<leftarrow> those (map (\<lambda>a. propagate_copies (alt_body a)) alts);
     d' \<leftarrow> propagate_copies d;
     Some (Case s (map2 with_body alts bs) d')
   }"
| "propagate_copies (Handle b cls els) = do {
     b' \<leftarrow> propagate_copies b;
     Some (Handle b' cls els)
   }"
| "propagate_copies (Defer c b) = do {
     b' \<leftarrow> propagate_copies b;
     Some (Defer c b')
   }"
| "propagate_copies e = Some e"

section \<open>Lexical slots\<close>

text \<open>
  The discipline of the slots before the ownership pass: an atom reads only slots
  in scope and moves nothing, a binder never takes a slot that is in scope, every
  payload position of an alternative is bound, and no cell is consumed or reused
  yet. Under it the slots behave as variables.
\<close>

fun reads_in :: "nat set \<Rightarrow> atom \<Rightarrow> bool" where
  "reads_in D (Local s) = (s \<in> D)"
| "reads_in D (Move _) = False"
| "reads_in D (MoveEnv _) = False"
| "reads_in D (Clos _ captures) = list_all (reads_in D) captures"
| "reads_in D _ = True"

definition alt_slots :: "'e alt \<Rightarrow> nat set" where
  "alt_slots a = {binder_base a ..< binder_base a + length (binders a)}"

fun lexical :: "nat set \<Rightarrow> irexpr \<Rightarrow> bool" where
  "lexical D (Let s r b) = (s \<notin> D \<and> lexical (insert s D) r \<and> lexical (insert s D) b)"
| "lexical D (Case a alts d) =
     (reads_in D a
      \<and> list_all (\<lambda>l. alt_slots l \<inter> D = {} \<and> None \<notin> set (binders l) \<and> alt_unpack l = Borrow
                     \<and> lexical (D \<union> alt_slots l) (alt_body l)) alts
      \<and> lexical D d)"
| "lexical D (MkVariant ty tag fs reuse) = (reuse = None \<and> list_all (reads_in D) fs)"
| "lexical D (Handle b cls els) = (list_all (\<lambda>c. reads_in D (hc_fun c)) cls \<and> reads_in D els \<and> lexical D b)"
| "lexical D (Defer c b) = (reads_in D c \<and> lexical D b)"
| "lexical D (Drop ss b) = False"
| "lexical D e = list_all (reads_in D) (ir_operands e)"

section \<open>What an expression computes\<close>

text \<open>
  The meaning of an expression, up to the numbering of its slots. A computed value
  is known by the position of its binder (\<open>SBound\<close>). Naming an atom computes
  nothing, so the name stands for the atom, unless it is a global, whose value may
  have to be computed; and applying a function to fewer operands than its arity is
  a value too (\<open>SPart\<close>), as it only collects them. A value that refers to itself
  is closed by \<open>SMu\<close>.
\<close>

datatype sval =
    SBound nat
  | SAtom atom
  | SClos nat "sval list"
  | SPart sval sval
  | SMu nat sval
  | SSelf nat

datatype comp =
    CRet sval
  | CLet comp comp
  | CApp sval sval bool bool
  | CCase sval "(altkind \<times> name option list \<times> unpack \<times> comp) list" comp
  | CStruct name "sval option" "(name \<times> sval) list"
  | CField sval name
  | CVariant name name "sval list" "nat option"
  | CTuple "sval list"
  | CHandle comp "(name option \<times> name \<times> sval \<times> resume_use) list" sval
  | CDefer sval comp
  | CDrop comp
  | CFault string

fun aval :: "(nat \<Rightarrow> sval) \<Rightarrow> atom \<Rightarrow> sval" where
  "aval \<sigma> (Local s) = \<sigma> s"
| "aval \<sigma> (Clos c captures) = SClos c (map (aval \<sigma>) captures)"
| "aval \<sigma> a = SAtom a"

fun left_of :: "(name \<Rightarrow> nat option) \<Rightarrow> sval \<Rightarrow> nat option" where
  "left_of arity (SAtom (Glob g)) = arity g"
| "left_of arity (SPart f x) = map_option (\<lambda>n. n - 1) (left_of arity f)"
| "left_of arity (SMu _ v) = left_of arity v"
| "left_of arity _ = None"

fun self_in :: "nat \<Rightarrow> sval \<Rightarrow> bool" where
  "self_in s (SSelf t) = (s = t)"
| "self_in s (SMu t v) = (s \<noteq> t \<and> self_in s v)"
| "self_in s (SPart f x) = (self_in s f \<or> self_in s x)"
| "self_in s (SClos _ vs) = list_ex (self_in s) vs"
| "self_in s _ = False"

definition close_self :: "nat \<Rightarrow> sval \<Rightarrow> sval" where
  "close_self s v = (if self_in s v then SMu s v else v)"

fun value_of :: "(name \<Rightarrow> nat option) \<Rightarrow> nat \<Rightarrow> comp \<Rightarrow> sval option" where
  "value_of arity s (CRet v) = (case v of SAtom (Glob g) \<Rightarrow> None | _ \<Rightarrow> Some (close_self s v))"
| "value_of arity s (CApp f x _ _) =
     (case left_of arity (SPart f x) of Some (Suc _) \<Rightarrow> Some (close_self s (SPart f x)) | _ \<Rightarrow> None)"
| "value_of arity s _ = None"

definition bind_alt :: "nat \<Rightarrow> (nat \<Rightarrow> sval) \<Rightarrow> 'e alt \<Rightarrow> nat \<Rightarrow> sval" where
  "bind_alt k \<sigma> l s = (if s \<in> alt_slots l then SBound (k + (s - binder_base l)) else \<sigma> s)"

fun den :: "(name \<Rightarrow> nat option) \<Rightarrow> nat \<Rightarrow> (nat \<Rightarrow> sval) \<Rightarrow> irexpr \<Rightarrow> comp" where
  "den ar k \<sigma> (Ret a) = CRet (aval \<sigma> a)"
| "den ar k \<sigma> (Let s r b) =
     (case value_of ar s (den ar k (\<sigma>(s := SSelf s)) r) of
        Some v \<Rightarrow> den ar k (\<sigma>(s := v)) b
      | None \<Rightarrow> CLet (den ar (Suc k) (\<sigma>(s := SBound k)) r) (den ar (Suc k) (\<sigma>(s := SBound k)) b))"
| "den ar k \<sigma> (App f x tail lend) = CApp (aval \<sigma> f) (aval \<sigma> x) tail lend"
| "den ar k \<sigma> (Case a alts d) =
     CCase (aval \<sigma> a)
       (map (\<lambda>l. (alt_kind l, binders l, alt_unpack l,
                  den ar (k + length (binders l)) (bind_alt k \<sigma> l) (alt_body l))) alts)
       (den ar k \<sigma> d)"
| "den ar k \<sigma> (MkStruct n base fs) = CStruct n (map_option (aval \<sigma>) base) (map (\<lambda>(l, a). (l, aval \<sigma> a)) fs)"
| "den ar k \<sigma> (Field a n) = CField (aval \<sigma> a) n"
| "den ar k \<sigma> (MkVariant ty tag fs tok) = CVariant ty tag (map (aval \<sigma>) fs) tok"
| "den ar k \<sigma> (MkTuple fs) = CTuple (map (aval \<sigma>) fs)"
| "den ar k \<sigma> (Handle b cls els) =
     CHandle (den ar k \<sigma> b) (map (\<lambda>c. (hc_effect c, hc_op c, aval \<sigma> (hc_fun c), hc_resume c)) cls) (aval \<sigma> els)"
| "den ar k \<sigma> (Defer c b) = CDefer (aval \<sigma> c) (den ar k \<sigma> b)"
| "den ar k \<sigma> (Drop ss b) = CDrop (den ar k \<sigma> b)"
| "den ar k \<sigma> (IFault msg) = CFault msg"

section \<open>Reading only what is in scope\<close>

lemma with_body_sel [simp]:
  "alt_kind (with_body a b) = alt_kind a" "binder_base (with_body a b) = binder_base a"
  "binders (with_body a b) = binders a" "alt_body (with_body a b) = b"
  "alt_unpack (with_body a b) = alt_unpack a" "alt_slots (with_body a b) = alt_slots a"
  by (simp_all add: with_body_def alt_slots_def)

lemma reads_in_mono: "reads_in D a \<Longrightarrow> D \<subseteq> D' \<Longrightarrow> reads_in D' a"
  by (induction a) (auto simp: list_all_iff)

lemma reads_in_mentions: "reads_in D a \<Longrightarrow> atom_mentions a s \<Longrightarrow> s \<in> D"
  by (induction a) (auto simp: list_all_iff)

lemma reads_in_drop: "reads_in (insert s D) a \<Longrightarrow> \<not> atom_mentions a s \<Longrightarrow> reads_in D a"
  by (induction a) (auto simp: list_all_iff)

lemma aval_cong: "(\<And>s. atom_mentions a s \<Longrightarrow> \<sigma> s = \<tau> s) \<Longrightarrow> aval \<sigma> a = aval \<tau> a"
  by (induction a) auto

lemma aval_upd [simp]: "\<not> atom_mentions a s \<Longrightarrow> aval (\<sigma>(s := v)) a = aval \<sigma> a"
  by (rule aval_cong) auto

lemma aval_subst: "aval \<sigma> (subst_atom s x a) = aval (\<sigma>(s := aval \<sigma> x)) a"
  by (induction a) auto

lemma den_cong:
  assumes "\<And>s. ir_mentions e s \<Longrightarrow> \<sigma> s = \<tau> s"
  shows "den ar k \<sigma> e = den ar k \<tau> e"
  using assms
proof (induction e arbitrary: k \<sigma> \<tau>)
  case (Let t r b)
  have "den ar j (\<sigma>(t := v)) r = den ar j (\<tau>(t := v)) r"
    "den ar j (\<sigma>(t := v)) b = den ar j (\<tau>(t := v)) b" for j v
    using Let.prems by (auto intro!: Let.IH)
  then show ?case by (simp split: option.split)
next
  case (Case a alts d)
  have "den ar j (bind_alt k \<sigma> l) (alt_body l) = den ar j (bind_alt k \<tau> l) (alt_body l)"
    if "l \<in> set alts" for j l
    using Case.prems that by (intro Case.IH(1) [OF that]) (auto simp: bind_alt_def)
  moreover have "aval \<sigma> a = aval \<tau> a" using Case.prems by (auto intro: aval_cong)
  moreover have "den ar k \<sigma> d = den ar k \<tau> d" using Case.prems by (auto intro: Case.IH(2))
  ultimately show ?case by simp
next
  case (MkStruct n base fs)
  have "aval \<sigma> (snd f) = aval \<tau> (snd f)" if "f \<in> set fs" for f
    using MkStruct that by (intro aval_cong) auto
  moreover have "map_option (aval \<sigma>) base = map_option (aval \<tau>) base"
    using MkStruct by (cases base) (auto intro: aval_cong)
  ultimately show ?case by (simp add: case_prod_beta)
next
  case (Handle b cls els)
  have "aval \<sigma> (hc_fun c) = aval \<tau> (hc_fun c)" if "c \<in> set cls" for c
    using Handle.prems that by (intro aval_cong) auto
  moreover have "den ar k \<sigma> b = den ar k \<tau> b" using Handle.prems by (auto intro: Handle.IH)
  moreover have "aval \<sigma> els = aval \<tau> els" using Handle.prems by (auto intro: aval_cong)
  ultimately show ?case by simp
next
  case (Defer c b)
  have "aval \<sigma> c = aval \<tau> c" using Defer.prems by (auto intro: aval_cong)
  moreover have "den ar k \<sigma> b = den ar k \<tau> b" using Defer.prems by (auto intro: Defer.IH)
  ultimately show ?case by simp
next
  case (Drop ss b)
  have "den ar k \<sigma> b = den ar k \<tau> b" using Drop.prems by (auto intro: Drop.IH)
  then show ?case by simp
qed (auto intro!: aval_cong)

lemma den_upd: "\<not> ir_mentions e s \<Longrightarrow> den ar k (\<sigma>(s := v)) e = den ar k \<sigma> e"
  by (rule den_cong) auto

section \<open>Substituting a copy\<close>

definition copy_atom :: "atom \<Rightarrow> bool" where
  "copy_atom x \<longleftrightarrow> (\<exists>y. x = Local y) \<or> (\<exists>i. x = Env i)"

lemma copied_Some: "copied s r = Some x \<Longrightarrow> r = Ret x \<and> copy_atom x \<and> \<not> atom_mentions x s"
  by (auto simp: copy_atom_def elim!: copied.elims split: if_splits)

lemma copied_copy: "copy_atom x \<Longrightarrow> copied s (Ret x) = (if x = Local s then None else Some x)"
  by (cases x) (auto simp: copy_atom_def)

lemma reads_in_subst:
  "reads_in (insert s D) a \<Longrightarrow> reads_in D x \<Longrightarrow> reads_in D (subst_atom s x a)"
  by (induction a) (auto simp: list_all_iff)

lemma map2_with_body: "map2 with_body alts (map f alts) = map (\<lambda>a. with_body a (f a)) alts"
  by (induction alts) auto

lemma bind_alt_with_body [simp]: "bind_alt k \<sigma> (with_body l b) = bind_alt k \<sigma> l"
  by (simp add: bind_alt_def fun_eq_iff)

lemma bind_alt_subst:
  assumes "\<not> (\<exists>t \<in> alt_slots l. atom_mentions x t)" "s \<notin> alt_slots l"
  shows "(bind_alt k \<sigma> l)(s := aval (bind_alt k \<sigma> l) x) = bind_alt k (\<sigma>(s := aval \<sigma> x)) l"
proof -
  have "aval (bind_alt k \<sigma> l) x = aval \<sigma> x"
    using assms(1) by (intro aval_cong) (auto simp: bind_alt_def)
  then show ?thesis using assms(2) by (auto simp: bind_alt_def)
qed

text \<open>What copy propagation asks of one substitution.\<close>

definition substitutes :: "(name \<Rightarrow> nat option) \<Rightarrow> nat set \<Rightarrow> nat \<Rightarrow> atom \<Rightarrow> irexpr \<Rightarrow> irexpr \<Rightarrow> bool" where
  "substitutes ar D s x e e' \<longleftrightarrow>
     substitute s x e = Some e' \<and> lexical D e' \<and> (\<forall>k \<sigma>. den ar k \<sigma> e' = den ar k (\<sigma>(s := aval \<sigma> x)) e)"

lemma substitute_sound:
  assumes "lexical (insert s D) e" "s \<notin> D" "copy_atom x" "reads_in D x"
  shows "\<exists>e'. substitutes ar D s x e e'"
  using assms
proof (induction e arbitrary: D)
  case (Let t r b)
  then have t: "t \<noteq> s" "t \<notin> D" "\<not> atom_mentions x t" by (auto dest: reads_in_mentions)
  have sub: "lexical (insert s (insert t D)) r" "lexical (insert s (insert t D)) b"
    "s \<notin> insert t D" "reads_in (insert t D) x"
    using Let.prems t by (auto simp: insert_commute intro: reads_in_mono)
  obtain r' where r': "substitutes ar (insert t D) s x r r'"
    using Let.IH(1) [OF sub(1,3) Let.prems(3) sub(4)] by blast
  obtain b' where b': "substitutes ar (insert t D) s x b b'"
    using Let.IH(2) [OF sub(2,3) Let.prems(3) sub(4)] by blast
  have upd: "\<sigma>(t := v, s := w) = \<sigma>(s := w, t := v)" for \<sigma> :: "nat \<Rightarrow> sval" and v w
    using t by (simp add: fun_upd_twist)
  have "substitutes ar D s x (Let t r b) (Let t r' b')"
    using r' b' t unfolding substitutes_def
    by (auto simp: upd split: option.split)
  then show ?case ..
next
  case (Case a alts d)
  have alt: "\<exists>b'. substitutes ar (D \<union> alt_slots l) s x (alt_body l) b'"
    "alt_slots l \<inter> D = {}" "s \<notin> alt_slots l" if "l \<in> set alts" for l
  proof -
    have l: "alt_slots l \<inter> insert s D = {}" "lexical (insert s (D \<union> alt_slots l)) (alt_body l)"
      using Case.prems(1) that by (auto simp: list_all_iff)
    then show "alt_slots l \<inter> D = {}" "s \<notin> alt_slots l" by auto
    show "\<exists>b'. substitutes ar (D \<union> alt_slots l) s x (alt_body l) b'"
      using l Case.prems by (intro Case.IH(1) [OF that]) (auto intro: reads_in_mono)
  qed
  then obtain f where f: "\<And>l. l \<in> set alts \<Longrightarrow> substitutes ar (D \<union> alt_slots l) s x (alt_body l) (f l)"
    by metis
  obtain d' where d': "substitutes ar D s x d d'" using Case.IH(2) Case.prems by auto
  have "those (map (\<lambda>l. substitute s x (alt_body l)) alts) = Some (map f alts)"
    using f by (intro those_map_Some) (auto simp: substitutes_def)
  moreover have "den ar j (bind_alt k \<sigma> l) (f l) = den ar j (bind_alt k (\<sigma>(s := aval \<sigma> x)) l) (alt_body l)"
    if "l \<in> set alts" for j k \<sigma> l
  proof -
    have "\<not> (\<exists>t \<in> alt_slots l. atom_mentions x t)"
      using alt(2) [OF that] Case.prems(4) by (auto dest: reads_in_mentions)
    then show ?thesis
      using f [OF that] alt(3) [OF that] by (simp add: substitutes_def bind_alt_subst)
  qed
  ultimately have "substitutes ar D s x (Case a alts d)
      (Case (subst_atom s x a) (map (\<lambda>l. with_body l (f l)) alts) d')"
    using d' f alt(2) Case.prems
    by (auto simp: substitutes_def map2_with_body list_all_iff aval_subst
        reads_in_subst)
  then show ?case ..
next
  case (Handle b cls els)
  obtain b' where b': "substitutes ar D s x b b'" using Handle.IH Handle.prems by auto
  have "substitutes ar D s x (Handle b cls els)
      (Handle b' (map (\<lambda>c. HandleClause (hc_effect c) (hc_op c) (subst_atom s x (hc_fun c)) (hc_resume c)) cls)
        (subst_atom s x els))"
    using b' Handle.prems
    by (auto simp: substitutes_def list_all_iff aval_subst reads_in_subst)
  then show ?case ..
next
  case (Defer c b)
  obtain b' where b': "substitutes ar D s x b b'" using Defer.IH Defer.prems by auto
  have "substitutes ar D s x (Defer c b) (Defer (subst_atom s x c) b')"
    using b' Defer.prems by (auto simp: substitutes_def aval_subst reads_in_subst)
  then show ?case ..
next
  case (MkStruct n base fs)
  then show ?case
    by (cases base) (auto simp: substitutes_def [abs_def] list_all_iff aval_subst reads_in_subst)
qed (auto simp: substitutes_def [abs_def] list_all_iff aval_subst reads_in_subst)

section \<open>Copy propagation keeps the meaning\<close>

text \<open>
  Assignments of the slots in scope \<open>D\<close>: none names a global, and a value that is
  still open refers to a binder of \<open>E\<close>, whose right-hand side encloses the
  expression.
\<close>

definition plain :: "nat set \<Rightarrow> nat set \<Rightarrow> (nat \<Rightarrow> sval) \<Rightarrow> bool" where
  "plain D E \<sigma> \<longleftrightarrow> E \<subseteq> D \<and>
     (\<forall>s \<in> D. (\<forall>g. \<sigma> s \<noteq> SAtom (Glob g)) \<and> (\<forall>t. self_in t (\<sigma> s) \<longrightarrow> t \<in> E))"

lemma plain_upd:
  assumes "plain D E \<sigma>" "\<And>g. v \<noteq> SAtom (Glob g)" "\<And>t. self_in t v \<Longrightarrow> t \<in> E"
  shows "plain (insert s D) E (\<sigma>(s := v))"
  using assms by (auto simp: plain_def)

lemma plain_bound [intro]: "plain D E \<sigma> \<Longrightarrow> plain (insert s D) E (\<sigma>(s := SBound k))"
  by (auto intro: plain_upd)

lemma plain_self [intro]: "plain D E \<sigma> \<Longrightarrow> plain (insert s D) (insert s E) (\<sigma>(s := SSelf s))"
  by (auto simp: plain_def)

lemma plain_bind_alt [intro]: "plain D E \<sigma> \<Longrightarrow> plain (D \<union> alt_slots l) E (bind_alt k \<sigma> l)"
  by (auto simp: plain_def bind_alt_def split: if_splits)

lemma aval_self: "plain D E \<sigma> \<Longrightarrow> reads_in D a \<Longrightarrow> self_in t (aval \<sigma> a) \<Longrightarrow> t \<in> E"
  by (induction a) (auto simp: plain_def list_all_iff list_ex_iff)

lemma value_of_plain: "value_of ar s c = Some v \<Longrightarrow> v \<noteq> SAtom (Glob g)"
  by (cases c) (auto simp: close_self_def split: sval.splits atom.splits option.splits nat.splits if_splits)

text \<open>The open values of what an expression delivers refer to binders in scope.\<close>

fun comp_self :: "nat \<Rightarrow> comp \<Rightarrow> bool" where
  "comp_self t (CRet v) = self_in t v"
| "comp_self t (CApp f x _ _) = (self_in t f \<or> self_in t x)"
| "comp_self t _ = False"

lemma value_of_self: "value_of ar s c = Some v \<Longrightarrow> self_in t v \<Longrightarrow> comp_self t c \<and> t \<noteq> s"
  by (cases c) (auto simp: close_self_def split: sval.splits atom.splits option.splits nat.splits if_splits)

lemma den_self: "lexical D e \<Longrightarrow> plain D E \<sigma> \<Longrightarrow> comp_self t (den ar k \<sigma> e) \<Longrightarrow> t \<in> E"
proof (induction e arbitrary: D E k \<sigma> t)
  case (Let s r b)
  note fun_upd_apply [simp del]
  show ?case
  proof (cases "value_of ar s (den ar k (\<sigma>(s := SSelf s)) r)")
    case (Some v)
    have "u \<in> E" if "self_in u v" for u
    proof -
      note u = value_of_self [OF Some that]
      have "u \<in> insert s E"
        using Let.prems(1) u by (intro Let.IH(1) [OF _ plain_self [OF Let.prems(2), of s], where k = k])
          (auto simp del: fun_upd_apply)
      with u show ?thesis by blast
    qed
    then have "plain (insert s D) E (\<sigma>(s := v))"
      using value_of_plain [OF Some] by (intro plain_upd Let.prems(2)) auto
    then show ?thesis
      by (rule Let.IH(2) [rotated]) (use Let.prems Some in auto)
  qed (use Let.prems in simp)
qed (auto intro: aval_self)

lemma plain_value:
  assumes "lexical (insert s D) r" "plain D E \<sigma>" "value_of ar s (den ar k (\<sigma>(s := SSelf s)) r) = Some v"
  shows "plain (insert s D) E (\<sigma>(s := v))"
proof (rule plain_upd [OF assms(2) value_of_plain [OF assms(3)]])
  fix t assume "self_in t v"
  with value_of_self [OF assms(3)] den_self [OF assms(1) plain_self [OF assms(2)]] show "t \<in> E"
    by blast
qed

lemma den_copy:
  assumes "copy_atom x" "\<not> atom_mentions x s" "plain D E \<sigma>" "reads_in D x" "s \<notin> D"
  shows "den ar k \<sigma> (Let s (Ret x) b) = den ar k (\<sigma>(s := aval \<sigma> x)) b"
proof -
  have "\<not> self_in s (aval \<sigma> x)" using aval_self [OF assms(3,4)] assms(3,5) by (auto simp: plain_def)
  moreover have "aval \<sigma> x \<noteq> SAtom (Glob g)" for g
    using assms by (auto simp: copy_atom_def plain_def)
  ultimately show ?thesis
    using assms(2) by (auto simp: close_self_def split: sval.splits atom.splits)
qed

definition same_meaning :: "(name \<Rightarrow> nat option) \<Rightarrow> nat set \<Rightarrow> irexpr \<Rightarrow> irexpr \<Rightarrow> bool" where
  "same_meaning ar D e e' \<longleftrightarrow>
     lexical D e' \<and> (\<forall>k \<sigma> E. plain D E \<sigma> \<longrightarrow> den ar k \<sigma> e' = den ar k \<sigma> e)"

lemma same_meaningD: "same_meaning ar D e e' \<Longrightarrow> plain D E \<sigma> \<Longrightarrow> den ar k \<sigma> e' = den ar k \<sigma> e"
  by (auto simp: same_meaning_def)

lemma same_meaning_Let:
  assumes "same_meaning ar (insert s D) r r'" "same_meaning ar (insert s D) b b'"
    "s \<notin> D" "lexical (insert s D) r"
  shows "same_meaning ar D (Let s r b) (Let s r' b')"
  unfolding same_meaning_def
proof (intro conjI allI impI)
  fix k \<sigma> E assume p: "plain D E \<sigma>"
  note self = same_meaningD [OF assms(1) plain_self [OF p]]
  note bound = same_meaningD [OF assms(1) plain_bound [OF p]] same_meaningD [OF assms(2) plain_bound [OF p]]
  note val = same_meaningD [OF assms(2) plain_value [OF assms(4) p]]
  show "den ar k \<sigma> (Let s r' b') = den ar k \<sigma> (Let s r b)"
    by (simp add: self bound val split: option.split)
qed (use assms in \<open>auto simp: same_meaning_def\<close>)

lemma same_meaning_Case:
  assumes "lexical D (Case a alts d)" "same_meaning ar D d d'"
    and "\<And>l. l \<in> set alts \<Longrightarrow> same_meaning ar (D \<union> alt_slots l) (alt_body l) (f l)"
  shows "same_meaning ar D (Case a alts d) (Case a (map (\<lambda>l. with_body l (f l)) alts) d')"
  using assms by (fastforce simp: same_meaning_def list_all_iff)

lemma propagate_copies_sound:
  "lexical D e \<Longrightarrow> \<exists>e'. propagate_copies e = Some e' \<and> same_meaning ar D e e'"
proof (induction e arbitrary: D)
  case (Let s r b)
  obtain r' where r': "propagate_copies r = Some r'" "same_meaning ar (insert s D) r r'"
    using Let.IH(1) Let.prems by auto
  obtain b' where b': "propagate_copies b = Some b'" "same_meaning ar (insert s D) b b'"
    using Let.IH(2) Let.prems by auto
  show ?case
  proof (cases "copied s r")
    case None
    then show ?thesis using r' b' Let.prems by (auto intro: same_meaning_Let)
  next
    case (Some x)
    then have x: "r = Ret x" "copy_atom x" "\<not> atom_mentions x s" using copied_Some by auto
    have rx: "reads_in D x" using Let.prems x by (auto intro: reads_in_drop)
    obtain b'' where b'': "substitutes ar D s x b' b''"
      using substitute_sound [of s D b' x ar] b' Let.prems x rx by (auto simp: same_meaning_def)
    have "same_meaning ar D (Let s r b) b''"
      unfolding same_meaning_def
    proof (intro conjI allI impI)
      fix k \<sigma> E assume p: "plain D E \<sigma>"
      have "plain (insert s D) E (\<sigma>(s := aval \<sigma> x))"
        using p rx x aval_self [OF p rx] by (intro plain_upd) (auto simp: copy_atom_def plain_def)
      from same_meaningD [OF b'(2) this] show "den ar k \<sigma> b'' = den ar k \<sigma> (Let s r b)"
        using b'' x den_copy [OF x(2,3) p rx] Let.prems
        by (simp add: substitutes_def del: den.simps)
    qed (use b'' in \<open>simp add: substitutes_def\<close>)
    then show ?thesis using Some b' b'' by (auto simp: substitutes_def)
  qed
next
  case (Case a alts d)
  have "\<exists>b'. propagate_copies (alt_body l) = Some b' \<and> same_meaning ar (D \<union> alt_slots l) (alt_body l) b'"
    if "l \<in> set alts" for l
    using Case.prems that by (intro Case.IH(1) [OF that]) (auto simp: list_all_iff)
  then obtain f where f: "\<And>l. l \<in> set alts \<Longrightarrow> propagate_copies (alt_body l) = Some (f l)"
    "\<And>l. l \<in> set alts \<Longrightarrow> same_meaning ar (D \<union> alt_slots l) (alt_body l) (f l)"
    by metis
  obtain d' where d': "propagate_copies d = Some d'" "same_meaning ar D d d'"
    using Case.IH(2) Case.prems by auto
  have "those (map (\<lambda>l. propagate_copies (alt_body l)) alts) = Some (map f alts)"
    using f(1) by (rule those_map_Some)
  then show ?case
    using d' same_meaning_Case [OF Case.prems d'(2) f(2)] by (auto simp: map2_with_body)
next
  case (Handle b cls els)
  then obtain b' where "propagate_copies b = Some b'" "same_meaning ar D b b'" by auto
  then show ?case using Handle.prems by (auto simp: same_meaning_def)
next
  case (Defer c b)
  then obtain b' where "propagate_copies b = Some b'" "same_meaning ar D b b'" by auto
  then show ?case using Defer.prems by (auto simp: same_meaning_def)
qed (auto simp: same_meaning_def)

section \<open>Sinking keeps the meaning\<close>

text \<open>A right-hand side that only collects operands, in the scope of its binder.\<close>

definition collects :: "(name \<Rightarrow> nat option) \<Rightarrow> nat \<Rightarrow> nat \<Rightarrow> (nat \<Rightarrow> sval) \<Rightarrow> irexpr \<Rightarrow> bool" where
  "collects ar s n \<sigma> r \<longleftrightarrow>
     (\<exists>f x t l. r = App f x t l
        \<and> left_of ar (SPart (aval (\<sigma>(s := SSelf s)) f) (aval (\<sigma>(s := SSelf s)) x)) = Some (Suc n))"

definition collected :: "nat \<Rightarrow> (nat \<Rightarrow> sval) \<Rightarrow> irexpr \<Rightarrow> sval" where
  "collected s \<sigma> r = (case r of App f x _ _ \<Rightarrow>
     close_self s (SPart (aval (\<sigma>(s := SSelf s)) f) (aval (\<sigma>(s := SSelf s)) x)))"

lemma den_collects:
  "collects ar s n \<sigma> r \<Longrightarrow> den ar k \<sigma> (Let s r b) = den ar k (\<sigma>(s := collected s \<sigma> r)) b"
  by (auto simp: collects_def collected_def)

lemma left_of_collected: "collects ar s n \<sigma> r \<Longrightarrow> left_of ar (collected s \<sigma> r) = Some (Suc n)"
  by (auto simp: collects_def collected_def close_self_def)

lemma collects_upd:
  assumes "collects ar s n \<sigma> r" "\<not> ir_mentions r t" "s \<noteq> t"
  shows "collects ar s n (\<sigma>(t := v)) r" "collected s (\<sigma>(t := v)) r = collected s \<sigma> r"
  using assms by (auto simp: collects_def collected_def fun_upd_twist [of t s])

lemma lexical_drop: "lexical (insert s D) e \<Longrightarrow> \<not> ir_mentions e s \<Longrightarrow> s \<notin> D \<Longrightarrow> lexical D e"
proof (induction e arbitrary: D)
  case (Let t r b)
  then have "lexical (insert s (insert t D)) r" "lexical (insert s (insert t D)) b" "s \<noteq> t"
    by (auto simp: insert_commute)
  with Let show ?case by simp
next
  case (Case a alts d)
  have "lexical (D \<union> alt_slots l) (alt_body l) \<and> alt_slots l \<inter> D = {}" if "l \<in> set alts" for l
    using Case.prems that Case.IH(1) [OF that, of "alt_body l" "D \<union> alt_slots l"] by (auto simp: list_all_iff)
  then show ?case using Case by (auto simp: list_all_iff intro: reads_in_drop)
next
  case (MkStruct n base fs)
  then show ?case by (cases base) (auto simp: list_all_iff intro: reads_in_drop)
qed (auto simp: list_all_iff intro: reads_in_drop)

lemma place_partial_Inl: "place_partial s r e = Inl e' \<Longrightarrow> e' = e"
  by (induction s r e arbitrary: e' rule: place_partial.induct) (auto split: if_splits sum.splits)

lemma place_partial_lexical:
  assumes "place_partial s (App f x t l) e = Inr e'" "lexical (insert s D) e" "s \<notin> D"
    "reads_in (insert s D) f" "reads_in (insert s D) x"
  shows "lexical D e'"
  using assms
proof (induction s "App f x t l" e arbitrary: e' D rule: place_partial.induct)
  case (1 s u r rest)
  show ?case
  proof (cases "applies s r")
    case True
    then show ?thesis using "1.prems" by (auto split: if_splits)
  next
    case False
    then obtain p where p: "place_partial s (App f x t l) rest = Inr p" "e' = Let u r p" "\<not> ir_mentions r s"
      using "1.prems"(1) by (auto split: if_splits sum.splits)
    have u: "u \<noteq> s" "u \<notin> D" "lexical (insert s (insert u D)) r" "lexical (insert s (insert u D)) rest"
      using "1.prems"(2) by (auto simp: insert_commute)
    have sub: "insert s D \<subseteq> insert s (insert u D)" by blast
    have "lexical (insert u D) p"
      using u "1.prems"(3)
      by (intro "1.hyps" [OF False p(3) p(1) u(4) _ reads_in_mono [OF "1.prems"(4) sub]
            reads_in_mono [OF "1.prems"(5) sub]]) simp
    moreover have "lexical (insert u D) r"
      using u "1.prems"(3) by (intro lexical_drop [OF u(3) p(3)]) simp
    ultimately show ?thesis using p u by simp
  qed
qed (auto split: if_splits)

lemma place_partial_den:
  assumes "place_partial s r e = Inr e'" "lexical (insert s D) e" "collects ar s n \<sigma> r"
    "\<And>t. ir_mentions r t \<Longrightarrow> t \<in> insert s D"
  shows "den ar k \<sigma> e' = den ar k (\<sigma>(s := collected s \<sigma> r)) e"
  using assms
proof (induction s r e arbitrary: e' D k \<sigma> rule: place_partial.induct)
  case (1 s r u ur rest)
  note fun_upd_apply [simp del]
  show ?case
  proof (cases "applies s ur")
    case True
    then have "e' = Let s r (Let u ur rest)" using "1.prems"(1) by (auto split: if_splits)
    then show ?thesis by (simp only: den_collects [OF "1.prems"(3)])
  next
    case False
    then obtain p where p: "place_partial s r rest = Inr p" "e' = Let u ur p" "\<not> ir_mentions ur s"
      using "1.prems"(1) by (auto split: if_splits sum.splits)
    have u: "u \<noteq> s" "u \<notin> D" "lexical (insert s (insert u D)) rest"
      using "1.prems"(2) by (auto simp: insert_commute)
    then have ru: "\<not> ir_mentions r u" using "1.prems"(4) by auto
    have "den ar j (\<sigma>(u := v)) p = den ar j (\<sigma>(s := collected s \<sigma> r, u := v)) rest" for j v
    proof -
      have "den ar j (\<sigma>(u := v)) p = den ar j ((\<sigma>(u := v))(s := collected s (\<sigma>(u := v)) r)) rest"
        using False p u "1.prems"(4)
        by (intro "1.IH" [where D = "insert u D"] collects_upd(1) "1.prems"(3) ru) auto
      also have "collected s (\<sigma>(u := v)) r = collected s \<sigma> r"
        using "1.prems"(3) ru u by (intro collects_upd(2)) auto
      finally show ?thesis using u by (simp add: fun_upd_twist del: fun_upd_apply)
    qed
    moreover have "den ar j (\<sigma>(s := w, u := v)) ur = den ar j (\<sigma>(u := v)) ur" for j w v
      unfolding fun_upd_twist [OF u(1) [symmetric]] by (rule den_upd [OF p(3)])
    ultimately show ?thesis using p(2) by (simp split: option.split)
  qed
qed (auto simp: den_collects simp del: den.simps fun_upd_apply split: if_splits)

text \<open>The partial applications the pass has seen, as the assignment has them.\<close>

definition known :: "(name \<Rightarrow> nat option) \<Rightarrow> nat set \<Rightarrow> (nat \<Rightarrow> nat option) \<Rightarrow> (nat \<Rightarrow> sval) \<Rightarrow> bool" where
  "known ar D partials \<sigma> \<longleftrightarrow>
     dom partials \<subseteq> D \<and> (\<forall>s n. partials s = Some n \<longrightarrow> left_of ar (\<sigma> s) = Some n)"

lemma known_upd:
  "known ar D partials \<sigma> \<Longrightarrow> left_of ar v = Some n \<Longrightarrow> known ar (insert s D) (partials(s \<mapsto> n)) (\<sigma>(s := v))"
  "known ar D partials \<sigma> \<Longrightarrow> known ar (insert s D) (partials(s := None)) (\<sigma>(s := v))"
  by (auto simp: known_def)

lemma known_other:
  "known ar D partials \<sigma> \<Longrightarrow> s \<notin> D \<Longrightarrow> known ar (insert s D) partials (\<sigma>(s := v))"
  by (auto simp: known_def)

lemma known_alt:
  "known ar D partials \<sigma> \<Longrightarrow> alt_slots l \<inter> D = {} \<Longrightarrow> known ar (D \<union> alt_slots l) partials (bind_alt k \<sigma> l)"
  by (auto simp: known_def bind_alt_def domI)

lemma operands_left_collects:
  assumes "operands_left ar partials r = Some (Suc n)" "known ar D partials \<sigma>" "s \<notin> D"
  shows "collects ar s n \<sigma> r"
proof -
  obtain f x t l where r: "r = App f x t l"
    using assms(1) by (cases r) auto
  show ?thesis
  proof (cases f)
    case (Local u)
    then obtain m where m: "partials u = Some m" "m - 1 = Suc n" using assms(1) r by auto
    then have "left_of ar (\<sigma> u) = Some m" "u \<noteq> s" using assms(2,3) by (auto simp: known_def)
    then show ?thesis using r Local m by (auto simp: collects_def)
  qed (use assms(1) r in \<open>auto simp: collects_def\<close>)
qed

lemma sink_partials_lexical: "lexical D e \<Longrightarrow> dom partials \<subseteq> D \<Longrightarrow> lexical D (sink_partials ar partials e)"
proof (induction e arbitrary: D partials)
  case (Let s r b)
  let ?r = "sink_partials ar partials r"
  have r: "lexical (insert s D) ?r" using Let.prems by (intro Let.IH(1)) auto
  have b: "lexical (insert s D) (sink_partials ar (partials(s := v)) b)" for v
    using Let.prems by (intro Let.IH(2)) (auto simp: dom_def split: if_splits)
  show ?case
  proof (cases "\<exists>n. operands_left ar partials ?r = Some (Suc n)")
    case True
    then obtain n where n: "operands_left ar partials ?r = Some (Suc n)" by blast
    then obtain f x t l where app: "?r = App f x t l" by (cases ?r) auto
    show ?thesis
    proof (cases "place_partial s ?r (sink_partials ar (partials(s \<mapsto> Suc n)) b)")
      case (Inl b')
      then show ?thesis using n r b Let.prems place_partial_Inl [OF Inl] by (auto simp: Let_def)
    next
      case (Inr placed)
      have "lexical D placed"
        using place_partial_lexical [OF Inr [unfolded app] b] Let.prems r [unfolded app] by auto
      then show ?thesis using n Inr by (simp add: Let_def)
    qed
  next
    case False
    then show ?thesis using r b Let.prems by (auto simp: Let_def split: option.split nat.split)
  qed
next
  case (Case a alts d)
  have "lexical (D \<union> alt_slots l) (sink_partials ar partials (alt_body l))" if "l \<in> set alts" for l
    using Case.prems that by (intro Case.IH(1) [OF that]) (auto simp: list_all_iff)
  then show ?case using Case by (auto simp: list_all_iff)
qed auto

lemma sink_partials_den:
  "lexical D e \<Longrightarrow> known ar D partials \<sigma> \<Longrightarrow> den ar k \<sigma> (sink_partials ar partials e) = den ar k \<sigma> e"
proof (induction e arbitrary: D partials k \<sigma>)
  case (Let s r b)
  note fun_upd_apply [simp del]
  let ?r = "sink_partials ar partials r"
  have s: "s \<notin> D" "lexical (insert s D) r" "lexical (insert s D) b" using Let.prems by auto
  have dom: "dom partials \<subseteq> D" using Let.prems(2) by (simp add: known_def)
  have r: "den ar j (\<sigma>(s := v)) ?r = den ar j (\<sigma>(s := v)) r" for j v
    by (rule Let.IH(1) [OF s(2) known_other [OF Let.prems(2) s(1)]])
  have lr: "lexical (insert s D) ?r" using dom by (intro sink_partials_lexical s(2)) auto
  have eq: "den ar k \<sigma> (Let s ?r b) = den ar k \<sigma> (Let s r b)"
    by (simp add: r split: option.split)
  show ?case
  proof (cases "\<exists>n. operands_left ar partials ?r = Some (Suc n)")
    case True
    then obtain n where n: "operands_left ar partials ?r = Some (Suc n)" by blast
    let ?b = "sink_partials ar (partials(s \<mapsto> Suc n)) b"
    have c: "collects ar s n \<sigma> ?r" by (rule operands_left_collects [OF n Let.prems(2) s(1)])
    have b: "den ar k (\<sigma>(s := collected s \<sigma> ?r)) ?b = den ar k (\<sigma>(s := collected s \<sigma> ?r)) b"
      by (rule Let.IH(2) [OF s(3) known_upd(1) [OF Let.prems(2) left_of_collected [OF c]]])
    have lb: "lexical (insert s D) ?b" using dom by (intro sink_partials_lexical s(3)) auto
    have men: "t \<in> insert s D" if "ir_mentions ?r t" for t
      using n lr that by (cases ?r) (auto dest: reads_in_mentions)
    show ?thesis
    proof (cases "place_partial s ?r ?b")
      case (Inl b')
      then have "sink_partials ar partials (Let s r b) = Let s ?r ?b"
        using n place_partial_Inl [OF Inl] by (simp add: Let_def)
      then show ?thesis using b eq den_collects [OF c] by (simp del: den.simps)
    next
      case (Inr placed)
      then have "sink_partials ar partials (Let s r b) = placed" using n by (simp add: Let_def)
      then show ?thesis
        using place_partial_den [OF Inr lb c men] b eq den_collects [OF c] by (simp del: den.simps)
    qed
  next
    case False
    then have "sink_partials ar partials (Let s r b) = Let s ?r (sink_partials ar (partials(s := None)) b)"
      by (auto simp: Let_def split: option.split nat.split)
    moreover have "den ar j (\<sigma>(s := v)) (sink_partials ar (partials(s := None)) b) = den ar j (\<sigma>(s := v)) b" for j v
      by (rule Let.IH(2) [OF s(3) known_upd(2) [OF Let.prems(2)]])
    ultimately show ?thesis by (simp add: r split: option.split)
  qed
next
  case (Case a alts d)
  have "den ar j (bind_alt k \<sigma> l) (sink_partials ar partials (alt_body l)) = den ar j (bind_alt k \<sigma> l) (alt_body l)"
    if "l \<in> set alts" for j l
    using Case.prems that by (intro Case.IH(1) [OF that, where D = "D \<union> alt_slots l"] known_alt) (auto simp: list_all_iff)
  then show ?case using Case by auto
qed auto

section \<open>The two rewrites together\<close>

definition simplify_code :: "(name \<Rightarrow> nat option) \<Rightarrow> irexpr \<Rightarrow> irexpr option" where
  "simplify_code ar e = propagate_copies (sink_partials ar Map.empty e)"

text \<open>
  C13: Sinking the partial applications of a code body and then propagating its
  copies never panics, keeps the slots lexical and computes the same: every step
  of the result works on the same values as before, in the same order.
\<close>

theorem simplify_code_sound:
  assumes "lexical {0..<n} e"
  shows "\<exists>e'. simplify_code ar e = Some e' \<and> lexical {0..<n} e'
       \<and> den ar n (\<lambda>s. SAtom (Local s)) e' = den ar n (\<lambda>s. SAtom (Local s)) e"
proof -
  let ?\<sigma> = "\<lambda>s. SAtom (Local s)"
  have "lexical {0..<n} (sink_partials ar Map.empty e)"
    using assms by (intro sink_partials_lexical) auto
  from propagate_copies_sound [OF this, of ar] obtain e' where e':
    "simplify_code ar e = Some e'" "same_meaning ar {0..<n} (sink_partials ar Map.empty e) e'"
    by (auto simp: simplify_code_def)
  have "plain {0..<n} {} ?\<sigma>" by (simp add: plain_def)
  from same_meaningD [OF e'(2) this] have "den ar n ?\<sigma> e' = den ar n ?\<sigma> (sink_partials ar Map.empty e)" .
  also have "\<dots> = den ar n ?\<sigma> e"
    using assms by (intro sink_partials_den [where D = "{0..<n}"]) (auto simp: known_def)
  finally show ?thesis using e' by (auto simp: same_meaning_def)
qed

definition demo_body :: irexpr where
  "demo_body = Let 1 (App (Glob ''@iadd'') (Local 0) False False)
     (Let 2 (Ret (Local 0))
       (Let 3 (App (Env 0) (Local 2) False False)
         (App (Local 1) (Local 3) True False)))"

theorem simplify_code_sound_witness:
  "\<exists>e'. simplify_code builtin_arity demo_body = Some e' \<and> lexical {0..<1} e'
     \<and> den builtin_arity 1 (\<lambda>s. SAtom (Local s)) e' = den builtin_arity 1 (\<lambda>s. SAtom (Local s)) demo_body"
  by (rule simplify_code_sound) (simp add: demo_body_def)

end
