(* ===== verification/Closure_Conversion.thy ===== *)
theory Closure_Conversion
  imports De_Bruijn A_Normal_Form IR_Simplify "HOL-Library.Monad_Syntax"
begin

text \<open>
  Closure conversion \<^verbatim>\<open>crates/frontend/src/ir/closure_conversion.rs\<close>: Core terms annotated
  with De Bruijn indices to the codes of the IR. A panic of the source
  (\<^verbatim>\<open>unreachable!\<close>, \<^verbatim>\<open>expect\<close>, an index out of range) is \<open>None\<close>. The converter's pool
  of codes and the scope of the function under conversion are threaded through
  every step.
\<close>

section \<open>Stateful maps\<close>

fun mapM_st :: "('a \<Rightarrow> 's \<Rightarrow> ('b \<times> 's) option) \<Rightarrow> 'a list \<Rightarrow> 's \<Rightarrow> ('b list \<times> 's) option" where
  "mapM_st f [] s = Some ([], s)"
| "mapM_st f (x # xs) s = do {
     (y, s1) \<leftarrow> f x s;
     (ys, s2) \<leftarrow> mapM_st f xs s1;
     Some (y # ys, s2)
   }"

definition optM_st :: "('a \<Rightarrow> 's \<Rightarrow> ('b \<times> 's) option) \<Rightarrow> 'a option \<Rightarrow> 's \<Rightarrow> ('b option \<times> 's) option" where
  "optM_st f x s = (case x of None \<Rightarrow> Some (None, s) | Some a \<Rightarrow> do { (y, s1) \<leftarrow> f a s; Some (Some y, s1) })"

lemma mapM_st_cong [fundef_cong]:
  assumes "xs = ys" and "\<And>x. x \<in> set ys \<Longrightarrow> f x = g x"
  shows "mapM_st f xs = mapM_st g ys"
proof
  fix s
  show "mapM_st f xs s = mapM_st g ys s"
    using assms(2) unfolding assms(1) by (induction ys arbitrary: s) (auto intro!: bind_option_cong split: prod.splits)
qed

lemma optM_st_cong [fundef_cong]:
  "x = y \<Longrightarrow> (\<And>a. y = Some a \<Longrightarrow> f a = g a) \<Longrightarrow> optM_st f x = optM_st g y"
  by (cases y) (auto simp: optM_st_def)

section \<open>Function scopes\<close>

record function_scope =
  fs_scope :: "atom option list"
  next_local :: nat
  fs_nlocals :: nat
  fs_floor :: nat

definition function_scope_new :: function_scope where
  "function_scope_new = \<lparr>fs_scope = [], next_local = 0, fs_nlocals = 0, fs_floor = 0\<rparr>"

definition alloc_local :: "function_scope \<Rightarrow> nat \<times> function_scope" where
  "alloc_local ctx =
     (next_local ctx,
      ctx\<lparr>next_local := next_local ctx + 1, fs_nlocals := max (fs_nlocals ctx) (next_local ctx + 1)\<rparr>)"

definition free_local :: "function_scope \<Rightarrow> function_scope" where
  "free_local ctx =
     (if fs_floor ctx < next_local ctx then ctx\<lparr>next_local := next_local ctx - 1\<rparr> else ctx)"

definition push_atom :: "atom \<Rightarrow> function_scope \<Rightarrow> function_scope" where
  "push_atom a ctx = ctx\<lparr>fs_scope := fs_scope ctx @ [Some a]\<rparr>"

definition pop_atom :: "function_scope \<Rightarrow> function_scope" where
  "pop_atom ctx = ctx\<lparr>fs_scope := butlast (fs_scope ctx)\<rparr>"

section \<open>Free enclosing binders\<close>

text \<open>
  \<^verbatim>\<open>collect_free\<close>: the positions below \<open>m\<close> a lifted body references. The source
  accumulates them in an ordered set, which is iterated in ascending order.
\<close>

fun free_position :: "'c core_term \<Rightarrow> nat \<Rightarrow> nat \<Rightarrow> nat \<Rightarrow> nat set" where
  "free_position (TVar md x) idx m depth =
     (if md = None \<and> 1 \<le> idx
      then let pos = int (m + depth) - int idx
           in if 0 \<le> pos \<and> nat pos < m then {nat pos} else {}
      else {})"
| "free_position _ idx m depth = {}"

function collect_free :: "nat tree \<Rightarrow> nat \<Rightarrow> nat \<Rightarrow> nat set" where
  "collect_free (Tree idx n) m depth =
     free_position n idx m depth
     \<union> (\<Union>(c, bound) \<in> set (node_children n). collect_free c m (depth + length bound))"
  by pat_completeness auto
termination
  by (relation "inv_image subtree fst") (auto simp: wf_subtree elim: node_children_sub)

section \<open>Entering a lifted body\<close>

definition scope_atom :: "function_scope \<Rightarrow> nat \<Rightarrow> atom option" where
  "scope_atom ctx pos = (case nth_opt (fs_scope ctx) pos of Some (Some a) \<Rightarrow> Some a | _ \<Rightarrow> None)"

definition enter :: "nat list \<Rightarrow> nat \<Rightarrow> nat \<Rightarrow> function_scope \<Rightarrow> (atom list \<times> function_scope) option" where
  "enter free m nps outer = do {
     captures \<leftarrow> those (map (scope_atom outer) free);
     let env_of = map_of (zip free [0..<length free]);
     Some (captures,
       \<lparr>fs_scope = map (\<lambda>pos. map_option Env (env_of pos)) [0..<m] @ map (\<lambda>i. Some (Local i)) [0..<nps],
        next_local = nps, fs_nlocals = nps, fs_floor = 0\<rparr>)
   }"

text \<open>The conversion of a body in the scope it is given, with its tail flag.\<close>

type_synonym conv_expr =
  "nat tree \<Rightarrow> bool \<Rightarrow> function_scope \<times> code list \<Rightarrow> (irexpr \<times> function_scope \<times> code list) option"

definition new_code :: "nat \<Rightarrow> nat \<Rightarrow> irexpr \<Rightarrow> name \<Rightarrow> code" where
  "new_code nps nls body nm =
     \<lparr>nparams = nps, nlocals = nls, code_body = body, code_name = nm, borrowed = replicate nps False\<rparr>"

definition lift :: "conv_expr \<Rightarrow> nat \<Rightarrow> nat tree \<Rightarrow> nat \<Rightarrow> name list \<Rightarrow> function_scope \<Rightarrow> code list
    \<Rightarrow> (atom \<times> code list) option" where
  "lift ex first body nps params outer codes = do {
     let m = length (fs_scope outer);
     let free = sorted_list_of_set (collect_free body m nps);
     (captures, inner) \<leftarrow> enter free m nps outer;
     (cbody, inner', codes') \<leftarrow> ex body True (inner, codes);
     Some (Clos (first + length codes') captures,
           codes' @ [new_code nps (fs_nlocals inner') cbody
                       (if params = [] then ''%thunk'' else last params)])
   }"

definition identity :: "nat \<Rightarrow> function_scope \<Rightarrow> code list \<Rightarrow> (atom \<times> code list) option" where
  "identity first ctx codes = do {
     (captures, inner) \<leftarrow> enter [] (length (fs_scope ctx)) 1 ctx;
     Some (Clos (first + length codes) captures,
           codes @ [new_code 1 (fs_nlocals inner) (Ret (Local 0)) ''%x''])
   }"

text \<open>\<^verbatim>\<open>atom\<close>: a Core atom in the scope of the function under conversion.\<close>

fun atom_of :: "conv_expr \<Rightarrow> nat \<Rightarrow> function_scope \<Rightarrow> nat tree \<Rightarrow> code list \<Rightarrow> (atom \<times> code list) option" where
  "atom_of ex first ctx (Tree i (TInt n)) codes = Some (LitI n, codes)"
| "atom_of ex first ctx (Tree i (TReal r)) codes = Some (LitR r, codes)"
| "atom_of ex first ctx (Tree i (TStr s)) codes = Some (LitS s, codes)"
| "atom_of ex first ctx (Tree i (TBool b)) codes = Some (LitB b, codes)"
| "atom_of ex first ctx (Tree i TUnit) codes = Some (AUnit, codes)"
| "atom_of ex first ctx (Tree i (TVar md x)) codes =
     (if md \<noteq> None \<or> i = 0
      then Some (Glob (case md of Some m \<Rightarrow> qualify m x | None \<Rightarrow> x), codes)
      else if length (fs_scope ctx) < i then None
      else do { a \<leftarrow> scope_atom ctx (length (fs_scope ctx) - i); Some (a, codes) })"
| "atom_of ex first ctx (Tree i (TLam p b)) codes = lift ex first b 1 [p] ctx codes"
| "atom_of ex first ctx (Tree i (TExtern abi symb lib args ret)) codes =
     Some (AExtern abi symb lib args ret, codes)"
| "atom_of ex first ctx _ codes = None"

section \<open>Expressions\<close>

fun alt_head :: "'c pat \<Rightarrow> (altkind \<times> name option list) option" where
  "alt_head (PInt k) = Some (KInt k, [])"
| "alt_head (PReal r) = Some (KReal r, [])"
| "alt_head (PBool b) = Some (KBool b, [])"
| "alt_head (PVariant tag ps) = do {
     bs \<leftarrow> those (map (\<lambda>p. case p of PVar n \<Rightarrow> Some (Some n) | PWild \<Rightarrow> Some None | _ \<Rightarrow> None) ps);
     Some (KCon tag, bs)
   }"
| "alt_head _ = None"

text \<open>The two loops of \<^verbatim>\<open>alt\<close>: bind the payload to fresh slots, and give them back.\<close>

fun bind_slots :: "nat \<Rightarrow> function_scope \<Rightarrow> function_scope" where
  "bind_slots 0 ctx = ctx"
| "bind_slots (Suc k) ctx = (let (slot, ctx1) = alloc_local ctx in bind_slots k (push_atom (Local slot) ctx1))"

fun release_slots :: "nat \<Rightarrow> function_scope \<Rightarrow> function_scope" where
  "release_slots 0 ctx = ctx"
| "release_slots (Suc k) ctx = release_slots k (free_local (pop_atom ctx))"

definition conv_alt :: "conv_expr \<Rightarrow> nat tree arm \<Rightarrow> function_scope \<times> code list
    \<Rightarrow> (irexpr alt \<times> function_scope \<times> code list) option" where
  "conv_alt ex arm s = do {
     let (ctx, codes) = s;
     (kind, names) \<leftarrow> alt_head (arm_pat arm);
     let base = next_local ctx;
     (body, ctx2, codes2) \<leftarrow> ex (arm_body arm) True (bind_slots (length names) ctx, codes);
     Some (Alt kind base names body Borrow, release_slots (length names) ctx2, codes2)
   }"

text \<open>One field of a variant: its atom, and the binding hoisted for it if it is computed.\<close>

definition variant_field :: "conv_expr \<Rightarrow> nat \<Rightarrow> nat tree \<Rightarrow> function_scope \<times> code list
    \<Rightarrow> ((atom \<times> (nat \<times> irexpr) list) \<times> function_scope \<times> code list) option" where
  "variant_field ex first f s = (case s of (ctx, codes) \<Rightarrow>
     if is_atom f then do {
       (a, codes') \<leftarrow> atom_of ex first ctx f codes;
       Some ((a, []), ctx, codes')
     } else do {
       let (slot, ctx1) = alloc_local ctx;
       (rhs, ctx2, codes') \<leftarrow> ex f False (ctx1, codes);
       Some ((Local slot, [(slot, rhs)]), ctx2, codes')
     })"

fun free_locals :: "nat \<Rightarrow> function_scope \<Rightarrow> function_scope" where
  "free_locals 0 ctx = ctx"
| "free_locals (Suc k) ctx = free_locals k (free_local ctx)"

definition conv_variant :: "conv_expr \<Rightarrow> nat \<Rightarrow> name \<Rightarrow> name \<Rightarrow> nat tree list \<Rightarrow> function_scope \<times> code list
    \<Rightarrow> (irexpr \<times> function_scope \<times> code list) option" where
  "conv_variant ex first ty tag ts s = do {
     (rs, ctx, codes) \<leftarrow> mapM_st (variant_field ex first) ts s;
     let lets = concat (map snd rs);
     Some (let_all lets (MkVariant ty tag (map fst rs) None), free_locals (length lets) ctx, codes)
   }"

text \<open>\<^verbatim>\<open>resume_use\<close>: the continuation is local 1 of a lifted clause.\<close>

definition resume_use_of :: "irexpr \<Rightarrow> resume_use" where
  "resume_use_of body = (if ir_mentions body 1 then Captured else Never)"

definition conv_clause :: "conv_expr \<Rightarrow> nat \<Rightarrow> name \<Rightarrow> function_scope \<Rightarrow> nat tree clause \<Rightarrow> code list
    \<Rightarrow> (handle_clause \<times> code list) option" where
  "conv_clause ex first k ctx c codes = do {
     (f, codes') \<leftarrow> lift ex first (clause_body c) 2 [clause_arg c, k] ctx codes;
     resume \<leftarrow> (case f of
         Clos cd _ \<Rightarrow> if cd < first then None
                     else map_option (\<lambda>cd. resume_use_of (code_body cd)) (nth_opt codes' (cd - first))
       | _ \<Rightarrow> Some Captured);
     Some (HandleClause (clause_effect c) (clause_op c) f resume, codes')
   }"

text \<open>The scope after a handler's body: the slots it ran in are never handed out again.\<close>

definition seal_slots :: "nat \<Rightarrow> function_scope \<Rightarrow> function_scope" where
  "seal_slots high_water ctx =
     (let fl = max (fs_floor ctx) (fs_nlocals ctx)
      in ctx\<lparr>fs_floor := fl, next_local := max (next_local ctx) fl,
             fs_nlocals := max (fs_nlocals ctx) high_water\<rparr>)"

definition conv_handle :: "conv_expr \<Rightarrow> nat \<Rightarrow> nat tree \<Rightarrow> nat tree handler \<Rightarrow> function_scope \<times> code list
    \<Rightarrow> (irexpr \<times> function_scope \<times> code list) option" where
  "conv_handle ex first body h s = do {
     let (ctx, codes) = s;
     (b, ctx1, codes1) \<leftarrow> ex body True (ctx\<lparr>fs_nlocals := next_local ctx\<rparr>, codes);
     let ctx2 = seal_slots (fs_nlocals ctx) ctx1;
     (cls, codes2) \<leftarrow> mapM_st (conv_clause ex first (continuation h) ctx2) (clauses h) codes1;
     (els, codes3) \<leftarrow> (case handler_default h of
         Some (x, e) \<Rightarrow> lift ex first e 1 [x] ctx2 codes2
       | None \<Rightarrow> identity first ctx2 codes2);
     Some (Handle b cls els, ctx2, codes3)
   }"

section \<open>The converter\<close>

lemma lift_cong [fundef_cong]:
  "body = body' \<Longrightarrow> ex body' = ex' body' \<Longrightarrow> lift ex first body = lift ex' first body'"
  by (intro ext) (simp add: lift_def)

lemma atom_of_cong [fundef_cong]:
  assumes "t = t'" and "\<And>c. (c, t') \<in> subtree \<Longrightarrow> ex c = ex' c"
  shows "atom_of ex first ctx t = atom_of ex' first ctx t'"
proof -
  obtain i n where t: "t' = Tree i n" by (cases t')
  show ?thesis
  proof (cases "\<exists>p b. n = TLam p b")
    case True
    then obtain p b where n: "n = TLam p b" by blast
    have "(b, t') \<in> subtree" unfolding t n by (simp add: subtree_def)
    from assms(2) [OF this] show ?thesis
      unfolding assms(1) t n by (intro ext) (simp add: lift_def)
  next
    case False
    then show ?thesis unfolding assms(1) t by (intro ext, cases n) simp_all
  qed
qed

lemma conv_alt_cong [fundef_cong]:
  "a = a' \<Longrightarrow> ex (arm_body a') = ex' (arm_body a') \<Longrightarrow> conv_alt ex a = conv_alt ex' a'"
  by (intro ext) (simp add: conv_alt_def)

lemma variant_field_cong [fundef_cong]:
  assumes "f = f'" and "ex f' = ex' f'" and "\<And>c. (c, f') \<in> subtree \<Longrightarrow> ex c = ex' c"
  shows "variant_field ex first f = variant_field ex' first f'"
proof -
  have "atom_of ex first ctx f' = atom_of ex' first ctx f'" for ctx
    using assms(3) by (intro atom_of_cong refl)
  then show ?thesis using assms(1,2) by (intro ext) (simp add: variant_field_def split: prod.split)
qed

lemma conv_variant_cong [fundef_cong]:
  assumes "fs = fs'" and "\<And>f. f \<in> set fs' \<Longrightarrow> ex f = ex' f"
    and "\<And>f c. f \<in> set fs' \<Longrightarrow> (c, f) \<in> subtree \<Longrightarrow> ex c = ex' c"
  shows "conv_variant ex first ty tag fs = conv_variant ex' first ty tag fs'"
proof -
  have "mapM_st (variant_field ex first) fs = mapM_st (variant_field ex' first) fs'"
    using assms by (intro mapM_st_cong variant_field_cong) auto
  then show ?thesis by (intro ext) (simp add: conv_variant_def)
qed

lemma conv_clause_cong [fundef_cong]:
  "c = c' \<Longrightarrow> ex (clause_body c') = ex' (clause_body c') \<Longrightarrow>
     conv_clause ex first k ctx c = conv_clause ex' first k ctx c'"
  by (intro ext) (simp add: conv_clause_def lift_def)

lemma conv_handle_cong [fundef_cong]:
  assumes "b = b'" and "h = h'" and "ex b' = ex' b'"
    and "\<And>c. c \<in> set (clauses h') \<Longrightarrow> ex (clause_body c) = ex' (clause_body c)"
    and "\<And>x e. handler_default h' = Some (x, e) \<Longrightarrow> ex e = ex' e"
  shows "conv_handle ex first b h = conv_handle ex' first b' h'"
proof -
  have "mapM_st (conv_clause ex first k ctx) (clauses h') = mapM_st (conv_clause ex' first k ctx) (clauses h')" for k ctx
    using assms(4) by (intro mapM_st_cong conv_clause_cong) auto
  moreover have "lift ex first e = lift ex' first e" if "handler_default h' = Some (x, e)" for x e
    using assms(5) [OF that] by (rule lift_cong [OF refl])
  ultimately show ?thesis
    unfolding assms(1,2)
    by (intro ext, cases "handler_default h'") (auto simp: conv_handle_def assms(3))
qed

lemma below_child: "c \<in> set_core_term n \<Longrightarrow> (c, Tree i n) \<in> subtree\<^sup>+"
  by (rule r_into_trancl) simp

lemma below_grandchild:
  "(c, x) \<in> subtree \<Longrightarrow> x \<in> set_core_term n \<Longrightarrow> (c, Tree i n) \<in> subtree\<^sup>+"
  by (meson below_child trancl_into_trancl2)

text \<open>\<^verbatim>\<open>ClosureConverter::expr\<close>, its match one equation an arm.\<close>

function (sequential) expr :: "nat \<Rightarrow> conv_expr" where
  "expr first (Tree i (TFault msg)) tail (ctx, codes) = Some (IFault msg, ctx, codes)"
| "expr first (Tree i (TApp f x)) tail (ctx, codes) = do {
     (fa, codes1) \<leftarrow> atom_of (expr first) first ctx f codes;
     (xa, codes2) \<leftarrow> atom_of (expr first) first ctx x codes1;
     Some (App fa xa tail False, ctx, codes2)
   }"
| "expr first (Tree i (TLet x rec v b)) tail (ctx, codes) = do {
     let (slot, ctx1) = alloc_local ctx;
     (if rec then do {
        (rhs, ctx2, codes1) \<leftarrow> expr first v False (push_atom (Local slot) ctx1, codes);
        (b', ctx3, codes2) \<leftarrow> expr first b tail (ctx2, codes1);
        Some (Let slot rhs b', free_local (pop_atom ctx3), codes2)
      } else do {
        (rhs, ctx2, codes1) \<leftarrow> expr first v False (ctx1, codes);
        (b', ctx3, codes2) \<leftarrow> expr first b tail (push_atom (Local slot) ctx2, codes1);
        Some (Let slot rhs b', free_local (pop_atom ctx3), codes2)
      })
   }"
| "expr first (Tree i (TCase s arms d)) tail (ctx, codes) = do {
     (sa, codes1) \<leftarrow> atom_of (expr first) first ctx s codes;
     (alts, ctx2, codes2) \<leftarrow> mapM_st (conv_alt (expr first)) arms (ctx, codes1);
     (d', ctx3, codes3) \<leftarrow> (case d of
         Some e \<Rightarrow> expr first e tail (ctx2, codes2)
       | None \<Rightarrow> Some (IFault ''no pattern matched (non-exhaustive match)'', ctx2, codes2));
     Some (Case sa alts d', ctx3, codes3)
   }"
| "expr first (Tree i (TTuple ts)) tail (ctx, codes) = do {
     (as, codes1) \<leftarrow> mapM_st (atom_of (expr first) first ctx) ts codes;
     Some (MkTuple as, ctx, codes1)
   }"
| "expr first (Tree i (TStruct nm base fs)) tail (ctx, codes) = do {
     (ba, codes1) \<leftarrow> optM_st (atom_of (expr first) first ctx) base codes;
     (as, codes2) \<leftarrow> mapM_st (atom_of (expr first) first ctx) (map snd fs) codes1;
     Some (MkStruct nm ba (zip (map fst fs) as), ctx, codes2)
   }"
| "expr first (Tree i (TVariant ty tag ts)) tail (ctx, codes) =
     conv_variant (expr first) first ty tag ts (ctx, codes)"
| "expr first (Tree i (TField r l)) tail (ctx, codes) = do {
     (ra, codes1) \<leftarrow> atom_of (expr first) first ctx r codes;
     Some (Field ra l, ctx, codes1)
   }"
| "expr first (Tree i (THandle b h)) tail (ctx, codes) = conv_handle (expr first) first b h (ctx, codes)"
| "expr first (Tree i (TDefer c b)) tail (ctx, codes) = do {
     (cl, codes1) \<leftarrow> lift (expr first) first c 0 [] ctx codes;
     (b', ctx2, codes2) \<leftarrow> expr first b tail (ctx, codes1);
     Some (Defer cl b', ctx2, codes2)
   }"
| "expr first t tail (ctx, codes) = do {
     (a, codes1) \<leftarrow> atom_of (expr first) first ctx t codes;
     Some (Ret a, ctx, codes1)
   }"
  by pat_completeness auto
termination
proof (relation "inv_image (subtree\<^sup>+) (\<lambda>(first, t, tail, s). t)", goal_cases)
  case 1
  show ?case by (intro wf_inv_image wf_trancl wf_subtree)
qed (fastforce intro: below_child below_grandchild
    simp: set_handler_eq set_clause_eq set_arm_eq prod_set_defs)+

section \<open>Programs\<close>

text \<open>
  The arity of a global: how many codes in a row only return the next closure. The
  loop of the source is bounded by the size of the pool, which is enough as a
  closure's code is always older than the code that builds it.
\<close>

fun curried_arity :: "nat \<Rightarrow> code list \<Rightarrow> nat \<Rightarrow> nat \<Rightarrow> nat option" where
  "curried_arity 0 codes first cd = None"
| "curried_arity (Suc fuel) codes first cd =
     (if cd < first then None
      else case nth_opt codes (cd - first) of
        None \<Rightarrow> Some 0
      | Some c \<Rightarrow> (case code_body c of
            Ret (Clos next _) \<Rightarrow> map_option Suc (curried_arity fuel codes first next)
          | _ \<Rightarrow> Some 0))"

text \<open>The first loop of \<^verbatim>\<open>convert_closures_after\<close>: every global as a nullary code.\<close>

fun convert_globals :: "nat \<Rightarrow> (name \<times> nat tree) list \<Rightarrow> code list \<Rightarrow> ((name \<times> nat) list \<times> code list) option" where
  "convert_globals first [] codes = Some ([], codes)"
| "convert_globals first ((x, t) # gs) codes = do {
     (body, ctx, codes1) \<leftarrow> expr first t True (function_scope_new, codes);
     (ids, codes2) \<leftarrow> convert_globals first gs (codes1 @ [new_code 0 (fs_nlocals ctx) body x]);
     Some ((x, first + length codes1) # ids, codes2)
   }"

definition known_arity :: "(name \<times> nat) list \<Rightarrow> name set \<Rightarrow> name \<Rightarrow> nat option" where
  "known_arity arities names x =
     (case map_of arities x of
        Some n \<Rightarrow> Some n
      | None \<Rightarrow> if x \<in> names then None else builtin_arity x)"

definition convert_closures_after :: "nat core_program \<Rightarrow> nat \<Rightarrow> name set \<Rightarrow> ir_program option" where
  "convert_closures_after core first before = do {
     (globals, codes) \<leftarrow> convert_globals first (cp_globals core) [];
     arities \<leftarrow> those (map (\<lambda>(x, i). map_option (Pair x) (curried_arity (length codes + 1) codes first i)) globals);
     let arity = known_arity arities (fst ` set globals \<union> before);
     bodies \<leftarrow> those (map (\<lambda>c. simplify_code arity (code_body c)) codes);
     Some \<lparr>ip_codes = map2 (\<lambda>c b. c\<lparr>code_body := b\<rparr>) codes bodies, ip_globals = globals,
           ip_effects = cp_effects core, ip_crepr_layouts = cp_crepr_layouts core\<rparr>
   }"

definition convert_closures :: "nat core_program \<Rightarrow> ir_program option" where
  "convert_closures core = convert_closures_after core 0 {}"

end
