(* ===== verification/Conversion_Sound.thy ===== *)
theory Conversion_Sound
  imports Closure_Conversion
begin

text \<open>
  Closure conversion never panics on a program in A-normal form, and what it builds
  is well formed: slots are lexical and within the activation, a closure's code
  exists, is older than the code that builds it, and reads no more captured fields
  than the closure holds.
\<close>

section \<open>What an expression refers to\<close>

fun over_atoms :: "(atom \<Rightarrow> 'b set) \<Rightarrow> irexpr \<Rightarrow> 'b set" where
  "over_atoms F e = (\<Union>a \<in> set (ir_operands e). F a) \<union> (\<Union>c \<in> set (ir_children e). over_atoms F c)"

declare over_atoms.simps [simp del]

lemma over_atoms_simps [simp]:
  "over_atoms F (Ret a) = F a"
  "over_atoms F (Let u r e) = over_atoms F r \<union> over_atoms F e"
  "over_atoms F (App f x t l) = F f \<union> F x"
  "over_atoms F (Case a alts d) = F a \<union> (\<Union>l \<in> set alts. over_atoms F (alt_body l)) \<union> over_atoms F d"
  "over_atoms F (MkStruct n base sfs) = (\<Union>b \<in> set_option base. F b) \<union> (\<Union>f \<in> set sfs. F (snd f))"
  "over_atoms F (Field a n) = F a"
  "over_atoms F (MkVariant ty tag fs tok) = (\<Union>a \<in> set fs. F a)"
  "over_atoms F (MkTuple fs) = (\<Union>a \<in> set fs. F a)"
  "over_atoms F (Handle e cls els) = over_atoms F e \<union> (\<Union>c \<in> set cls. F (hc_fun c)) \<union> F els"
  "over_atoms F (Defer a e) = F a \<union> over_atoms F e"
  "over_atoms F (Drop ss e) = over_atoms F e"
  "over_atoms F (IFault msg) = {}"
  by (subst over_atoms.simps; auto split: option.splits)+

fun a_env :: "atom \<Rightarrow> nat set" where
  "a_env (Env i) = {i}"
| "a_env (MoveEnv i) = {i}"
| "a_env (Clos _ captures) = (\<Union>c \<in> set captures. a_env c)"
| "a_env _ = {}"

text \<open>The closures built: their code and how many fields they capture.\<close>

fun a_clos :: "atom \<Rightarrow> (nat \<times> nat) set" where
  "a_clos (Clos c captures) = insert (c, length captures) (\<Union>c \<in> set captures. a_clos c)"
| "a_clos _ = {}"

fun bound_slots :: "irexpr \<Rightarrow> nat set" where
  "bound_slots (Let s r b) = insert s (bound_slots r \<union> bound_slots b)"
| "bound_slots (Case _ alts d) = (\<Union>l \<in> set alts. alt_slots l \<union> bound_slots (alt_body l)) \<union> bound_slots d"
| "bound_slots (Handle b _ _) = bound_slots b"
| "bound_slots (Defer _ b) = bound_slots b"
| "bound_slots (Drop _ b) = bound_slots b"
| "bound_slots _ = {}"

text \<open>Where the payloads of the alternatives start, also those that bind nothing.\<close>

fun alt_bases :: "irexpr \<Rightarrow> nat set" where
  "alt_bases (Let s r b) = alt_bases r \<union> alt_bases b"
| "alt_bases (Case _ alts d) = (\<Union>l \<in> set alts. insert (binder_base l) (alt_bases (alt_body l))) \<union> alt_bases d"
| "alt_bases (Handle b _ _) = alt_bases b"
| "alt_bases (Defer _ b) = alt_bases b"
| "alt_bases (Drop _ b) = alt_bases b"
| "alt_bases _ = {}"

section \<open>Well-formed pools of codes\<close>

definition clos_target :: "nat \<Rightarrow> code list \<Rightarrow> nat \<times> nat \<Rightarrow> bool" where
  "clos_target first codes = (\<lambda>(c, k). first \<le> c \<and> c - first < length codes
     \<and> over_atoms a_env (code_body (codes ! (c - first))) \<subseteq> {..<k})"

definition code_ok :: "nat \<Rightarrow> code list \<Rightarrow> code \<Rightarrow> bool" where
  "code_ok first older c \<longleftrightarrow>
     nparams c \<le> nlocals c \<and> length (borrowed c) = nparams c
     \<and> lexical {0..<nparams c} (code_body c)
     \<and> bound_slots (code_body c) \<subseteq> {nparams c ..< nlocals c}
     \<and> alt_bases (code_body c) \<subseteq> {..nlocals c}
     \<and> (\<forall>x \<in> over_atoms a_clos (code_body c). clos_target first older x)"

definition pool_ok :: "nat \<Rightarrow> code list \<Rightarrow> bool" where
  "pool_ok first codes \<longleftrightarrow> (\<forall>j < length codes. code_ok first (take j codes) (codes ! j))"

lemma clos_target_append: "clos_target first codes x \<Longrightarrow> clos_target first (codes @ newer) x"
  by (auto simp: clos_target_def nth_append split: prod.splits)

lemma pool_ok_Nil [simp]: "pool_ok first []"
  by (simp add: pool_ok_def)

lemma pool_ok_snoc: "pool_ok first (codes @ [c]) \<longleftrightarrow> pool_ok first codes \<and> code_ok first codes c"
  by (auto simp: pool_ok_def nth_append less_Suc_eq)

section \<open>Scopes\<close>

definition ctx_slots :: "function_scope \<Rightarrow> nat set" where
  "ctx_slots ctx = {s. Some (Local s) \<in> set (fs_scope ctx)}"

definition ctx_ok :: "nat \<Rightarrow> function_scope \<Rightarrow> bool" where
  "ctx_ok ne ctx \<longleftrightarrow> fs_floor ctx \<le> next_local ctx \<and> next_local ctx \<le> fs_nlocals ctx
     \<and> (\<forall>a. Some a \<in> set (fs_scope ctx) \<longrightarrow> (\<exists>s < next_local ctx. a = Local s) \<or> (\<exists>i < ne. a = Env i))"

definition covers :: "function_scope \<Rightarrow> nat tree \<Rightarrow> bool" where
  "covers ctx t \<longleftrightarrow> scoped (length (fs_scope ctx)) t
     \<and> (\<forall>p \<in> collect_free t (length (fs_scope ctx)) 0. fs_scope ctx ! p \<noteq> None)"

lemma ctx_slots_below: "ctx_ok ne ctx \<Longrightarrow> ctx_slots ctx \<subseteq> {..<next_local ctx}"
  by (fastforce simp: ctx_ok_def ctx_slots_def)

lemma free_position_below: "free_position n i m d \<subseteq> {..<m}"
  by (cases n) (auto simp: Let_def)

lemma collect_free_below: "collect_free t m d \<subseteq> {..<m}"
proof (induction t arbitrary: d rule: tree_children_induct)
  case (1 i n)
  have "p < m" if "(c, bs) \<in> set (node_children n)" "p \<in> collect_free c m (d + length bs)" for c bs p
    using 1 [OF that(1)] that(2) by blast
  then show ?case using free_position_below [of n i m d] by auto
qed

lemma collect_free_finite [simp]: "finite (collect_free t m d)"
  by (rule finite_subset [OF collect_free_below]) simp

lemma free_position_shift:
  "p \<in> free_position n i (m + k) d \<Longrightarrow> p < m \<Longrightarrow> p \<in> free_position n i m (k + d)"
  by (cases n) (auto simp: Let_def add.assoc split: if_splits)

lemma collect_free_shift:
  "p \<in> collect_free t (m + k) d \<Longrightarrow> p < m \<Longrightarrow> p \<in> collect_free t m (k + d)"
proof (induction t arbitrary: d rule: tree_children_induct)
  case (1 i n)
  from "1.prems"(1) consider "p \<in> free_position n i (m + k) d"
    | c bs where "(c, bs) \<in> set (node_children n)" "p \<in> collect_free c (m + k) (d + length bs)"
    by auto
  then show ?case
  proof cases
    case 1
    then show ?thesis using free_position_shift "1.prems"(2) by auto
  next
    case 2
    then have "p \<in> collect_free c m (k + (d + length bs))" using "1.IH" "1.prems"(2) by blast
    then show ?thesis using 2(1) by (auto simp: add.assoc)
  qed
qed

lemma covers_child:
  assumes "covers ctx (Tree i n)" "(c, bs) \<in> set (node_children n)"
    and "fs_scope ctx' = fs_scope ctx @ map Some as" "length as = length bs"
  shows "covers ctx' c"
  unfolding covers_def
proof (intro conjI ballI)
  let ?m = "length (fs_scope ctx)"
  show "scoped (length (fs_scope ctx')) c" using assms by (auto simp: covers_def)
  fix p assume p: "p \<in> collect_free c (length (fs_scope ctx')) 0"
  show "fs_scope ctx' ! p \<noteq> None"
  proof (cases "p < ?m")
    case True
    then have "p \<in> collect_free c ?m (length bs)"
      using p assms(3,4) collect_free_shift [of p c ?m "length bs" 0] by simp
    then have "p \<in> collect_free (Tree i n) ?m 0" using assms(2) by fastforce
    then have "fs_scope ctx ! p \<noteq> None" using assms(1) unfolding covers_def by blast
    then show ?thesis using True assms(3) by (simp add: nth_append)
  next
    case False
    moreover have "p < ?m + length as" using collect_free_below p assms(3) by fastforce
    ultimately show ?thesis using assms(3) by (simp add: nth_append)
  qed
qed

lemma covers_same:
  "covers ctx (Tree i n) \<Longrightarrow> (c, []) \<in> set (node_children n) \<Longrightarrow> fs_scope ctx' = fs_scope ctx \<Longrightarrow> covers ctx' c"
  by (rule covers_child [where as = "[]"]) auto

section \<open>Converting atoms\<close>

text \<open>What a conversion step does to the pool: it appends well-formed codes.\<close>

definition grows :: "nat \<Rightarrow> code list \<Rightarrow> code list \<Rightarrow> bool" where
  "grows first codes codes' \<longleftrightarrow> (\<exists>new. codes' = codes @ new) \<and> pool_ok first codes'"

definition atom_good :: "nat \<Rightarrow> code list \<Rightarrow> nat \<Rightarrow> nat set \<Rightarrow> atom \<Rightarrow> bool" where
  "atom_good first codes ne D a \<longleftrightarrow>
     a_env a \<subseteq> {..<ne} \<and> (\<forall>x \<in> a_clos a. clos_target first codes x) \<and> reads_in D a"

definition expr_good :: "nat \<Rightarrow> code list \<Rightarrow> nat \<Rightarrow> function_scope \<Rightarrow> nat \<Rightarrow> irexpr \<Rightarrow> bool" where
  "expr_good first codes ne ctx lim e \<longleftrightarrow>
     over_atoms a_env e \<subseteq> {..<ne}
     \<and> (\<forall>x \<in> over_atoms a_clos e. clos_target first codes x)
     \<and> bound_slots e \<subseteq> {next_local ctx ..< lim} \<and> alt_bases e \<subseteq> {..lim}
     \<and> (\<forall>D. ctx_slots ctx \<subseteq> D \<longrightarrow> D \<subseteq> {..<next_local ctx} \<longrightarrow> lexical D e)"

text \<open>What it does to the scope: nothing in scope changes, and slots are only given back above the floor.\<close>

definition ctx_step :: "function_scope \<Rightarrow> function_scope \<Rightarrow> bool" where
  "ctx_step ctx ctx' \<longleftrightarrow> fs_scope ctx' = fs_scope ctx \<and> fs_floor ctx \<le> fs_floor ctx'
     \<and> next_local ctx' = max (next_local ctx) (fs_floor ctx')
     \<and> fs_nlocals ctx \<le> fs_nlocals ctx' \<and> next_local ctx' \<le> fs_nlocals ctx'"

definition converts :: "nat \<Rightarrow> conv_expr \<Rightarrow> nat tree \<Rightarrow> bool" where
  "converts first ex t \<longleftrightarrow> (\<forall>tail ctx codes ne.
     ctx_ok ne ctx \<longrightarrow> covers ctx t \<longrightarrow> pool_ok first codes \<longrightarrow>
     (\<exists>e ctx' codes'. ex t tail (ctx, codes) = Some (e, ctx', codes')
        \<and> ctx_step ctx ctx' \<and> grows first codes codes'
        \<and> expr_good first codes' ne ctx (fs_nlocals ctx') e))"

lemma convertsE:
  assumes "converts first ex t" "ctx_ok ne ctx" "covers ctx t" "pool_ok first codes"
  obtains e ctx' codes' where "ex t tail (ctx, codes) = Some (e, ctx', codes')" "ctx_step ctx ctx'"
    "grows first codes codes'" "expr_good first codes' ne ctx (fs_nlocals ctx') e"
  using assms unfolding converts_def by blast

lemma grows_refl [simp]: "pool_ok first codes \<Longrightarrow> grows first codes codes"
  by (simp add: grows_def)

lemma grows_trans: "grows first c1 c2 \<Longrightarrow> grows first c2 c3 \<Longrightarrow> grows first c1 c3"
  by (auto simp: grows_def)

lemma grows_pool: "grows first codes codes' \<Longrightarrow> pool_ok first codes'"
  by (simp add: grows_def)

lemma clos_target_grows: "clos_target first codes x \<Longrightarrow> grows first codes codes' \<Longrightarrow> clos_target first codes' x"
  by (auto simp: grows_def clos_target_append)

lemma atom_good_grows: "atom_good first codes ne D a \<Longrightarrow> grows first codes codes' \<Longrightarrow> atom_good first codes' ne D a"
  by (auto simp: atom_good_def clos_target_grows)

lemma atom_good_mono: "atom_good first codes ne D a \<Longrightarrow> D \<subseteq> D' \<Longrightarrow> atom_good first codes ne D' a"
  by (auto simp: atom_good_def reads_in_mono)

lemma slots_wider:
  assumes "lim \<le> (lim' :: nat)"
  shows "X \<subseteq> {n ..< lim} \<Longrightarrow> X \<subseteq> {n ..< lim'}" "X \<subseteq> {..lim} \<Longrightarrow> X \<subseteq> {..lim'}"
  using assms by auto

lemma expr_good_grows:
  assumes "expr_good first codes ne ctx lim e" "grows first codes codes'" "lim \<le> lim'"
  shows "expr_good first codes' ne ctx lim' e"
  using assms(1) slots_wider [OF assms(3)] clos_target_grows [OF _ assms(2)]
  by (simp add: expr_good_def)

lemma expr_good_lexical:
  "expr_good first codes ne ctx lim e \<Longrightarrow> ctx_slots ctx \<subseteq> D \<Longrightarrow> D \<subseteq> {..<next_local ctx} \<Longrightarrow> lexical D e"
  by (simp add: expr_good_def)

lemma scope_atom_good:
  assumes "ctx_ok ne ctx" "scope_atom ctx p = Some a"
  shows "atom_good first codes ne (ctx_slots ctx) a"
proof -
  have "Some a \<in> set (fs_scope ctx)"
    using assms(2) by (auto simp: scope_atom_def dest: nth_mem split: option.splits)
  then show ?thesis using assms(1) by (auto simp: ctx_ok_def atom_good_def ctx_slots_def)
qed

lemma map_of_zip_upt:
  assumes "x \<in> set xs"
  obtains e where "map_of (zip xs [0..<length xs]) x = Some e" "e < length xs"
proof -
  have "map_of (zip xs [0..<length xs]) x \<noteq> None" using assms by (simp add: map_of_zip_is_None)
  then obtain e where e: "map_of (zip xs [0..<length xs]) x = Some e" by blast
  then have "e < length xs" by (auto dest!: map_of_SomeD elim: in_set_zipE)
  with e show ?thesis using that by blast
qed

lemma enter_ok:
  assumes ctx: "ctx_ok ne outer" and m: "m = length (fs_scope outer)"
    and sc: "scoped (m + nps) body"
    and have_atom: "\<And>p. p \<in> collect_free body m nps \<Longrightarrow> fs_scope outer ! p \<noteq> None"
  obtains captures inner where
    "enter (sorted_list_of_set (collect_free body m nps)) m nps outer = Some (captures, inner)"
    "\<forall>a \<in> set captures. atom_good first codes ne (ctx_slots outer) a"
    "ctx_ok (length captures) inner" "covers inner body" "ctx_slots inner = {0..<nps}"
    "next_local inner = nps" "fs_nlocals inner = nps"
proof -
  define free where "free = sorted_list_of_set (collect_free body m nps)"
  have set_free: "set free = collect_free body m nps" by (simp add: free_def)
  let ?env = "map_of (zip free [0..<length free])"
  let ?sc = "map (\<lambda>pos. map_option Env (?env pos)) [0..<m] @ map (\<lambda>i. Some (Local i)) [0..<nps]"
  let ?inner = "\<lparr>fs_scope = ?sc, next_local = nps, fs_nlocals = nps, fs_floor = 0\<rparr>"
  have "scope_atom outer p = Some (the (fs_scope outer ! p))" if "p \<in> set free" for p
    using that have_atom collect_free_below [of body m nps] m
    by (fastforce simp: set_free scope_atom_def nth_opt_def)
  note atom = this
  have those: "those (map (scope_atom outer) free) = Some (map (\<lambda>p. the (fs_scope outer ! p)) free)"
    and good: "\<forall>p \<in> set free. atom_good first codes ne (ctx_slots outer) (the (fs_scope outer ! p))"
    using atom scope_atom_good [OF ctx atom] by (blast intro: those_map_Some)+
  have env: "i < length free" if "?env p = Some i" for p i
    using that by (auto dest!: map_of_SomeD elim: in_set_zipE)
  have "ctx_ok (length free) ?inner"
    using env by (fastforce simp: ctx_ok_def eq_commute [of "Some _" "map_option _ _"])
  moreover have "covers ?inner body"
    unfolding covers_def
  proof (intro conjI ballI)
    show "scoped (length (fs_scope ?inner)) body" using sc by simp
    fix p assume p: "p \<in> collect_free body (length (fs_scope ?inner)) 0"
    show "fs_scope ?inner ! p \<noteq> None"
    proof (cases "p < m")
      case True
      then have "p \<in> set free" using p collect_free_shift [of p body m nps 0] by (simp add: set_free)
      then show ?thesis using True by (elim map_of_zip_upt) (simp add: nth_append)
    next
      case False
      moreover have "p < m + nps" using collect_free_below p by fastforce
      ultimately show ?thesis by (simp add: nth_append)
    qed
  qed
  moreover have "ctx_slots ?inner = {0..<nps}"
    by (auto simp: ctx_slots_def eq_commute [of "Some _" "map_option _ _"])
  ultimately show ?thesis
    using that [of "map (\<lambda>p. the (fs_scope outer ! p)) free" ?inner] those good
    by (simp add: enter_def free_def [symmetric])
qed

lemma new_code_sel [simp]:
  "nparams (new_code n k b x) = n" "nlocals (new_code n k b x) = k" "code_body (new_code n k b x) = b"
  "code_name (new_code n k b x) = x" "borrowed (new_code n k b x) = replicate n False"
  by (simp_all add: new_code_def)

lemma clos_good:
  assumes "\<forall>a \<in> set captures. atom_good first (codes @ [c]) ne D a"
    and "over_atoms a_env (code_body c) \<subseteq> {..<length captures}"
  shows "atom_good first (codes @ [c]) ne D (Clos (first + length codes) captures)"
  using assms by (auto simp: atom_good_def clos_target_def list_all_iff)

lemma lift_ok:
  assumes conv: "converts first ex body" and ctx: "ctx_ok ne outer" and pool: "pool_ok first codes"
    and cov: "covers outer (Tree i n)" "(body, bs) \<in> set (node_children n)" "length bs = nps"
  obtains c captures codes' where
    "lift ex first body nps params outer codes = Some (Clos c captures, codes')"
    "grows first codes codes'" "atom_good first codes' ne (ctx_slots outer) (Clos c captures)"
    "first \<le> c" "c - first < length codes'"
proof -
  let ?m = "length (fs_scope outer)"
  have sc: "scoped (?m + nps) body" using cov by (auto simp: covers_def)
  have free: "fs_scope outer ! p \<noteq> None" if "p \<in> collect_free body ?m nps" for p
  proof -
    have "p \<in> collect_free (Tree i n) ?m 0" using that cov(2,3) by fastforce
    then show ?thesis using cov(1) unfolding covers_def by blast
  qed
  obtain captures inner where en:
    "enter (sorted_list_of_set (collect_free body ?m nps)) ?m nps outer = Some (captures, inner)"
    and caps: "\<forall>a \<in> set captures. atom_good first codes ne (ctx_slots outer) a"
    and inner: "ctx_ok (length captures) inner" "covers inner body" "ctx_slots inner = {0..<nps}"
      "next_local inner = nps" "fs_nlocals inner = nps"
    using enter_ok [OF ctx refl sc free, of first codes] by blast
  obtain e inner' codes1 where e: "ex body True (inner, codes) = Some (e, inner', codes1)"
    "ctx_step inner inner'" "grows first codes codes1"
    "expr_good first codes1 (length captures) inner (fs_nlocals inner') e"
    by (rule convertsE [OF conv inner(1,2) pool])
  let ?c = "new_code nps (fs_nlocals inner') e (if params = [] then ''%thunk'' else last params)"
  have "nps \<le> fs_nlocals inner'" using e(2) inner by (simp add: ctx_step_def)
  moreover have "lexical {0..<nps} e" using e(4) inner by (auto simp: expr_good_def)
  ultimately have "code_ok first codes1 ?c"
    using e(4) inner by (auto simp: code_ok_def expr_good_def)
  then have grow: "grows first codes (codes1 @ [?c])"
    using e(3) by (auto simp: grows_def pool_ok_snoc)
  moreover have "atom_good first (codes1 @ [?c]) ne (ctx_slots outer) (Clos (first + length codes1) captures)"
    using e(4) by (intro clos_good ballI atom_good_grows [OF _ grow] caps [rule_format])
      (simp_all add: expr_good_def)
  ultimately show ?thesis
    using that [of "first + length codes1" captures "codes1 @ [?c]"] en e(1)
    by (simp add: lift_def)
qed

lemma identity_ok:
  assumes "pool_ok first codes"
  obtains c codes' where "identity first ctx codes = Some (Clos c [], codes')" "grows first codes codes'"
    "atom_good first codes' ne D (Clos c [])"
proof -
  let ?c = "new_code 1 1 (Ret (Local 0)) ''%x''"
  have "code_ok first codes ?c" by (simp add: code_ok_def)
  then have "grows first codes (codes @ [?c])" using assms by (auto simp: grows_def pool_ok_snoc)
  moreover have "atom_good first (codes @ [?c]) ne D (Clos (first + length codes) [])"
    by (rule clos_good) auto
  ultimately show ?thesis using that by (simp add: identity_def enter_def)
qed

text \<open>An atom converts when, if it is a lambda, its body does.\<close>

lemma atom_of_ok:
  assumes "is_atom t" "\<And>c. (c, t) \<in> subtree \<Longrightarrow> converts first ex c"
    and ctx: "ctx_ok ne ctx" and cov: "covers ctx t" and pool: "pool_ok first codes"
  obtains a codes' where "atom_of ex first ctx t codes = Some (a, codes')" "grows first codes codes'"
    "atom_good first codes' ne (ctx_slots ctx) a"
proof -
  obtain i n where t: "t = Tree i n" by (cases t)
  note result = that
  have leaf: thesis if "atom_of ex first ctx t codes = Some (a, codes)" "a_env a = {}" "a_clos a = {}"
      "reads_in (ctx_slots ctx) a" for a
    using that pool by (intro result [of a codes]) (auto simp: atom_good_def)
  show ?thesis
  proof (cases n)
    case (TLam p b)
    have "(b, t) \<in> subtree" using t TLam by simp
    then have "converts first ex b" by (rule assms(2))
    then show ?thesis
      using lift_ok [OF _ ctx pool cov [unfolded t], of ex b "[p]" 1 "[p]"] t TLam that by auto
  next
    case (TVar md x)
    show ?thesis
    proof (cases "md \<noteq> None \<or> i = 0")
      case True
      then show ?thesis using leaf t TVar by auto
    next
      case False
      then have i: "md = None" "1 \<le> i" "i \<le> length (fs_scope ctx)"
        using cov t by (auto simp: covers_def)
      let ?p = "length (fs_scope ctx) - i"
      have "?p \<in> collect_free t (length (fs_scope ctx)) 0"
        using t TVar i by (auto simp: Let_def nat_diff_distrib)
      then obtain a where "fs_scope ctx ! ?p = Some a" using cov unfolding covers_def by blast
      then have "scope_atom ctx ?p = Some a" using i by (simp add: scope_atom_def nth_opt_def)
      then show ?thesis
        using that [of a codes] scope_atom_good [OF ctx] t TVar i pool by auto
    qed
  qed (use assms(1) t leaf in \<open>auto simp: is_atom_def\<close>)
qed

definition atom_conv :: "nat \<Rightarrow> conv_expr \<Rightarrow> nat tree \<Rightarrow> bool" where
  "atom_conv first ex t \<longleftrightarrow> is_atom t \<and> (\<forall>c. (c, t) \<in> subtree \<longrightarrow> converts first ex c)"

lemma atom_conv_ok:
  assumes "atom_conv first ex t" "ctx_ok ne ctx" "covers ctx t" "pool_ok first codes"
  obtains a codes' where "atom_of ex first ctx t codes = Some (a, codes')" "grows first codes codes'"
    "atom_good first codes' ne (ctx_slots ctx) a"
  using assms atom_of_ok unfolding atom_conv_def by metis

lemma mapM_atoms_ok:
  assumes "\<And>t. t \<in> set ts \<Longrightarrow> atom_conv first ex t \<and> covers ctx t"
    and ctx: "ctx_ok ne ctx" and pool: "pool_ok first codes"
  obtains as codes' where "mapM_st (atom_of ex first ctx) ts codes = Some (as, codes')"
    "length as = length ts" "grows first codes codes'"
    "\<forall>a \<in> set as. atom_good first codes' ne (ctx_slots ctx) a"
  using assms(1) pool
proof (induction ts arbitrary: codes thesis)
  case Nil
  then show ?case by simp
next
  case (Cons t ts)
  have t: "atom_conv first ex t" "covers ctx t" using Cons.prems(2) by auto
  obtain a codes1 where a: "atom_of ex first ctx t codes = Some (a, codes1)" "grows first codes codes1"
    "atom_good first codes1 ne (ctx_slots ctx) a"
    by (rule atom_conv_ok [OF t(1) ctx t(2) Cons.prems(3)])
  obtain as codes2 where as: "mapM_st (atom_of ex first ctx) ts codes1 = Some (as, codes2)"
    "length as = length ts" "grows first codes1 codes2"
    "\<forall>a \<in> set as. atom_good first codes2 ne (ctx_slots ctx) a"
    using Cons.IH [of codes1] Cons.prems(2) grows_pool [OF a(2)] by auto
  show ?case
    using Cons.prems(1) [of "a # as" codes2] a as grows_trans [OF a(2) as(3)]
      atom_good_grows [OF a(3) as(3)] by simp
qed

section \<open>Slot arithmetic\<close>

lemma alloc_local_sel [simp]:
  "fst (alloc_local ctx) = next_local ctx"
  "fs_scope (snd (alloc_local ctx)) = fs_scope ctx"
  "next_local (snd (alloc_local ctx)) = Suc (next_local ctx)"
  "fs_nlocals (snd (alloc_local ctx)) = max (fs_nlocals ctx) (Suc (next_local ctx))"
  "fs_floor (snd (alloc_local ctx)) = fs_floor ctx"
  by (simp_all add: alloc_local_def)

lemma push_pop_sel [simp]:
  "fs_scope (push_atom a ctx) = fs_scope ctx @ [Some a]" "next_local (push_atom a ctx) = next_local ctx"
  "fs_nlocals (push_atom a ctx) = fs_nlocals ctx" "fs_floor (push_atom a ctx) = fs_floor ctx"
  "fs_scope (pop_atom ctx) = butlast (fs_scope ctx)" "next_local (pop_atom ctx) = next_local ctx"
  "fs_nlocals (pop_atom ctx) = fs_nlocals ctx" "fs_floor (pop_atom ctx) = fs_floor ctx"
  by (simp_all add: push_atom_def pop_atom_def)

lemma free_local_sel [simp]:
  "fs_scope (free_local ctx) = fs_scope ctx" "fs_nlocals (free_local ctx) = fs_nlocals ctx"
  "fs_floor (free_local ctx) = fs_floor ctx"
  "next_local (free_local ctx) = (if fs_floor ctx < next_local ctx then next_local ctx - 1 else next_local ctx)"
  by (simp_all add: free_local_def)

lemma free_locals_sel [simp]:
  "fs_scope (free_locals k ctx) = fs_scope ctx" "fs_nlocals (free_locals k ctx) = fs_nlocals ctx"
  "fs_floor (free_locals k ctx) = fs_floor ctx"
  by (induction k arbitrary: ctx) auto

lemma free_locals_next:
  "fs_floor ctx \<le> next_local ctx \<Longrightarrow> next_local (free_locals k ctx) = max (next_local ctx - k) (fs_floor ctx)"
proof (induction k arbitrary: ctx)
  case (Suc k)
  have "fs_floor (free_local ctx) \<le> next_local (free_local ctx)" using Suc.prems by auto
  from Suc.IH [OF this] Suc.prems show ?case by auto
qed simp

lemma release_slots_eq:
  "release_slots k ctx = (free_locals k ctx)\<lparr>fs_scope := take (length (fs_scope ctx) - k) (fs_scope ctx)\<rparr>"
proof (induction k arbitrary: ctx)
  case (Suc k)
  have "free_locals k (free_local (pop_atom ctx)) =
      (free_locals k (free_local ctx))\<lparr>fs_scope := butlast (fs_scope ctx)\<rparr>"
    for k ctx
  proof (induction k arbitrary: ctx)
    case (Suc k)
    have swap: "free_local (pop_atom ctx) = pop_atom (free_local ctx)"
      by (simp add: free_local_def pop_atom_def)
    show ?case using Suc [of "free_local ctx"]
      by (simp only: free_locals.simps swap free_local_sel)
  qed (simp add: free_local_def pop_atom_def)
  then show ?case using Suc [of "free_local (pop_atom ctx)"]
    by (simp add: butlast_conv_take take_take min_def)
qed simp

lemma bind_slots_sel:
  "fs_scope (bind_slots k ctx) = fs_scope ctx @ map (\<lambda>i. Some (Local i)) [next_local ctx ..< next_local ctx + k]
   \<and> next_local (bind_slots k ctx) = next_local ctx + k
   \<and> fs_nlocals (bind_slots k ctx) = (if k = 0 then fs_nlocals ctx else max (fs_nlocals ctx) (next_local ctx + k))
   \<and> fs_floor (bind_slots k ctx) = fs_floor ctx"
proof (induction k arbitrary: ctx)
  case (Suc k)
  have "[n ..< n + Suc k] = n # [Suc n ..< Suc n + k]" for n
    by (simp add: upt_rec)
  then show ?case using Suc by (auto simp: Let_def case_prod_beta)
qed simp

section \<open>Scope steps\<close>

lemma ctx_step_refl [simp]: "ctx_ok ne ctx \<Longrightarrow> ctx_step ctx ctx"
  by (simp add: ctx_step_def ctx_ok_def)

lemma ctx_step_trans: "ctx_step c1 c2 \<Longrightarrow> ctx_step c2 c3 \<Longrightarrow> ctx_step c1 c3"
  by (auto simp: ctx_step_def)

lemma ctx_step_ok: "ctx_ok ne ctx \<Longrightarrow> ctx_step ctx ctx' \<Longrightarrow> ctx_ok ne ctx'"
  by (fastforce simp: ctx_step_def ctx_ok_def)

lemma ctx_step_slots: "ctx_step ctx ctx' \<Longrightarrow> ctx_slots ctx' = ctx_slots ctx"
  by (simp add: ctx_step_def ctx_slots_def)

lemma ctx_step_covers: "ctx_step ctx ctx' \<Longrightarrow> covers ctx' t = covers ctx t"
  by (simp add: ctx_step_def covers_def)

lemma expr_good_step:
  assumes "ctx_step ctx ctx1" "expr_good first codes ne ctx1 lim e"
  shows "expr_good first codes ne ctx lim e"
proof -
  have n: "next_local ctx \<le> next_local ctx1" using assms(1) by (simp add: ctx_step_def)
  then have "{next_local ctx1..<lim} \<subseteq> {next_local ctx..<lim}" "{..<next_local ctx} \<subseteq> {..<next_local ctx1}"
    by auto
  then show ?thesis
    using assms(2) unfolding expr_good_def ctx_step_slots [OF assms(1)] by (meson order_trans)
qed

text \<open>Binding \<open>k\<close> fresh slots for a body, and releasing them after it.\<close>

lemma bind_slots_ok:
  assumes "ctx_ok ne ctx"
  shows "ctx_ok ne (bind_slots k ctx)"
    and "ctx_slots (bind_slots k ctx) = ctx_slots ctx \<union> {next_local ctx ..< next_local ctx + k}"
proof -
  note b = bind_slots_sel [of k ctx]
  have "(\<exists>s < next_local ctx + k. a = Local s) \<or> (\<exists>i < ne. a = Env i)"
    if "Some a \<in> set (fs_scope (bind_slots k ctx))" for a
  proof (cases "Some a \<in> set (fs_scope ctx)")
    case True
    then show ?thesis using assms unfolding ctx_ok_def by (meson trans_less_add1)
  next
    case False
    then show ?thesis using that b by auto
  qed
  then show "ctx_ok ne (bind_slots k ctx)" using assms b by (simp add: ctx_ok_def)
  show "ctx_slots (bind_slots k ctx) = ctx_slots ctx \<union> {next_local ctx ..< next_local ctx + k}"
    using b by (auto simp: ctx_slots_def)
qed

lemma bind_slots_covers:
  assumes "covers ctx (Tree i n)" "(c, bs) \<in> set (node_children n)" "length bs = k"
  shows "covers (bind_slots k ctx) c"
  using bind_slots_sel [of k ctx] assms(3)
  by (intro covers_child [OF assms(1,2), where as = "map Local [next_local ctx ..< next_local ctx + k]"])
    (simp_all add: comp_def)

lemma release_step:
  assumes "ctx_ok ne ctx" "ctx_step (bind_slots k ctx) ctx2"
  shows "ctx_step ctx (release_slots k ctx2)"
proof -
  note b = bind_slots_sel [of k ctx]
  have "next_local (free_locals k ctx2) = max (next_local ctx) (fs_floor ctx2)"
    using assms(2) b free_locals_next [of ctx2 k] by (auto simp: ctx_step_def)
  then show ?thesis
    using assms b by (auto simp: ctx_step_def release_slots_eq ctx_ok_def split: if_splits)
qed

section \<open>Case alternatives\<close>

definition alt_good :: "nat \<Rightarrow> code list \<Rightarrow> nat \<Rightarrow> function_scope \<Rightarrow> nat \<Rightarrow> irexpr alt \<Rightarrow> bool" where
  "alt_good first codes ne ctx lim l \<longleftrightarrow>
     over_atoms a_env (alt_body l) \<subseteq> {..<ne}
     \<and> (\<forall>x \<in> over_atoms a_clos (alt_body l). clos_target first codes x)
     \<and> alt_slots l \<union> bound_slots (alt_body l) \<subseteq> {next_local ctx ..< lim}
     \<and> None \<notin> set (binders l) \<and> alt_unpack l = Borrow \<and> insert (binder_base l) (alt_bases (alt_body l)) \<subseteq> {..lim}
     \<and> (\<forall>D. ctx_slots ctx \<subseteq> D \<longrightarrow> D \<subseteq> {..<next_local ctx} \<longrightarrow>
          alt_slots l \<inter> D = {} \<and> lexical (D \<union> alt_slots l) (alt_body l))"

lemma alt_good_grows:
  assumes "alt_good first codes ne ctx lim l" "grows first codes codes'" "lim \<le> lim'"
  shows "alt_good first codes' ne ctx lim' l"
  using assms(1,3) slots_wider [OF assms(3)] clos_target_grows [OF _ assms(2)]
  by (simp add: alt_good_def)

lemma alt_good_step:
  assumes "ctx_step ctx ctx1" "alt_good first codes ne ctx1 lim l"
  shows "alt_good first codes ne ctx lim l"
proof -
  have n: "next_local ctx \<le> next_local ctx1" using assms(1) by (simp add: ctx_step_def)
  then have "{next_local ctx1..<lim} \<subseteq> {next_local ctx..<lim}" "{..<next_local ctx} \<subseteq> {..<next_local ctx1}"
    by auto
  then show ?thesis
    using assms(2) unfolding alt_good_def ctx_step_slots [OF assms(1)] by (meson order_trans)
qed

lemma alt_head_ok:
  assumes "shallow_pat p"
  obtains kind names where "alt_head p = Some (kind, names)" "length names = length (pat_binders p)"
    "None \<notin> set names"
proof (cases p)
  case (PVariant tag ps)
  then have ps: "list_all simple_pat ps" using assms by simp
  have "\<exists>names. those (map (\<lambda>p. case p of PVar n \<Rightarrow> Some (Some n) | PWild \<Rightarrow> Some None | _ \<Rightarrow> None) ps) = Some names
      \<and> length names = length (concat (map pat_binders ps)) \<and> None \<notin> set names"
    using ps
  proof (induction ps)
    case (Cons q ps)
    then show ?case by (cases q) auto
  qed simp
  then show ?thesis using that PVariant by auto
qed (use assms that in auto)

lemma conv_alt_ok:
  assumes "converts first ex (arm_body a)" "shallow_pat (arm_pat a)" "ctx_ok ne ctx"
    "pool_ok first codes" "covers ctx (Tree i n)"
    "(arm_body a, pat_binders (arm_pat a)) \<in> set (node_children n)"
  obtains l ctx' codes' where "conv_alt ex a (ctx, codes) = Some (l, ctx', codes')" "ctx_step ctx ctx'"
    "grows first codes codes'" "alt_good first codes' ne ctx (fs_nlocals ctx') l"
proof -
  obtain kind names where h: "alt_head (arm_pat a) = Some (kind, names)"
    "length (pat_binders (arm_pat a)) = length names" "None \<notin> set names"
    using alt_head_ok [OF assms(2)] by metis
  let ?k = "length names"
  let ?b = "bind_slots ?k ctx"
  note b = bind_slots_sel [of ?k ctx]
  obtain e ctx2 codes' where e: "ex (arm_body a) True (?b, codes) = Some (e, ctx2, codes')" "ctx_step ?b ctx2"
    "grows first codes codes'" "expr_good first codes' ne ?b (fs_nlocals ctx2) e"
    by (rule convertsE [OF assms(1) bind_slots_ok(1) [OF assms(3)] bind_slots_covers [OF assms(5,6) h(2)] assms(4)])
  let ?l = "Alt kind (next_local ctx) names e Borrow"
  let ?c = "release_slots ?k ctx2"
  have step: "ctx_step ctx ?c" by (rule release_step [OF assms(3) e(2)])
  have lim: "fs_nlocals ?c = fs_nlocals ctx2" "next_local ctx + ?k \<le> fs_nlocals ctx2"
    using e(2) b assms(3) by (auto simp: release_slots_eq ctx_step_def ctx_ok_def split: if_splits)
  have "alt_good first codes' ne ctx (fs_nlocals ?c) ?l"
    unfolding alt_good_def
  proof (intro conjI allI impI)
    show "alt_slots ?l \<union> bound_slots (alt_body ?l) \<subseteq> {next_local ctx ..< fs_nlocals ?c}"
      using e(4) b lim by (fastforce simp: expr_good_def alt_slots_def)
    show "insert (binder_base ?l) (alt_bases (alt_body ?l)) \<subseteq> {..fs_nlocals ?c}"
      using e(4) lim by (simp add: expr_good_def)
  next
    fix D assume D: "ctx_slots ctx \<subseteq> D" "D \<subseteq> {..<next_local ctx}"
    then show "alt_slots ?l \<inter> D = {}" by (fastforce simp: alt_slots_def)
    have "ctx_slots ?b \<subseteq> D \<union> alt_slots ?l" "D \<union> alt_slots ?l \<subseteq> {..<next_local ?b}"
      using D b bind_slots_ok(2) [OF assms(3), of ?k] by (auto simp: alt_slots_def)
    then show "lexical (D \<union> alt_slots ?l) (alt_body ?l)" using e(4) by (simp add: expr_good_def)
  qed (use e(4) h(3) in \<open>simp_all add: expr_good_def\<close>)
  then show ?thesis using that step e(1,3) h(1) by (simp add: conv_alt_def Let_def)
qed

lemma mapM_alts_ok:
  assumes "\<And>a. a \<in> set arms \<Longrightarrow> converts first ex (arm_body a) \<and> shallow_pat (arm_pat a)
      \<and> (arm_body a, pat_binders (arm_pat a)) \<in> set (node_children n)"
    and "ctx_ok ne ctx" "pool_ok first codes" "covers ctx (Tree i n)"
  obtains alts ctx' codes' where "mapM_st (conv_alt ex) arms (ctx, codes) = Some (alts, ctx', codes')"
    "ctx_step ctx ctx'" "grows first codes codes'" "\<forall>l \<in> set alts. alt_good first codes' ne ctx (fs_nlocals ctx') l"
  using assms
proof (induction arms arbitrary: ctx codes thesis)
  case Nil
  then show ?case by simp
next
  case (Cons a arms)
  have a: "converts first ex (arm_body a)" "shallow_pat (arm_pat a)"
    "(arm_body a, pat_binders (arm_pat a)) \<in> set (node_children n)" using Cons.prems(2) by auto
  obtain l ctx1 codes1 where l: "conv_alt ex a (ctx, codes) = Some (l, ctx1, codes1)" "ctx_step ctx ctx1"
    "grows first codes codes1" "alt_good first codes1 ne ctx (fs_nlocals ctx1) l"
    by (rule conv_alt_ok [OF a(1,2) Cons.prems(3-5) a(3)])
  obtain ls ctx2 codes2 where ls: "mapM_st (conv_alt ex) arms (ctx1, codes1) = Some (ls, ctx2, codes2)"
    "ctx_step ctx1 ctx2" "grows first codes1 codes2"
    "\<forall>l \<in> set ls. alt_good first codes2 ne ctx1 (fs_nlocals ctx2) l"
    using Cons.IH [OF _ Cons.prems(2) ctx_step_ok [OF Cons.prems(3) l(2)] grows_pool [OF l(3)]]
      Cons.prems(5) ctx_step_covers [OF l(2)] by auto
  have "fs_nlocals ctx1 \<le> fs_nlocals ctx2" using ls(2) by (simp add: ctx_step_def)
  then have "alt_good first codes2 ne ctx (fs_nlocals ctx2) l" by (rule alt_good_grows [OF l(4) ls(3)])
  moreover have "\<forall>l \<in> set ls. alt_good first codes2 ne ctx (fs_nlocals ctx2) l"
    using ls(4) alt_good_step [OF l(2)] by blast
  ultimately show ?case
    using Cons.prems(1) [of "l # ls" ctx2 codes2] l(1) ls(1) ctx_step_trans [OF l(2) ls(2)]
      grows_trans [OF l(3) ls(3)] by simp
qed

section \<open>Variants\<close>

text \<open>Taking one slot and binding it to a computed field.\<close>

lemma alloc_ok:
  assumes "ctx_ok ne ctx"
  shows "ctx_ok ne (snd (alloc_local ctx))" "ctx_slots (snd (alloc_local ctx)) = ctx_slots ctx"
    "covers (snd (alloc_local ctx)) t = covers ctx t"
  using assms by (fastforce simp: ctx_ok_def, simp_all add: ctx_slots_def covers_def)

lemma bound_slots_let_all:
  "bound_slots (let_all ls e) = fst ` set ls \<union> (\<Union>l \<in> set ls. bound_slots (snd l)) \<union> bound_slots e"
  by (induction ls e rule: let_all.induct) auto

lemma alt_bases_let_all:
  "alt_bases (let_all ls e) = (\<Union>l \<in> set ls. alt_bases (snd l)) \<union> alt_bases e"
  by (induction ls e rule: let_all.induct) auto

lemma over_atoms_let_all:
  "over_atoms F (let_all ls e) = (\<Union>l \<in> set ls. over_atoms F (snd l)) \<union> over_atoms F e"
  by (induction ls e rule: let_all.induct) auto

text \<open>
  The fields of a variant: the atoms that hold them and the bindings hoisted before
  it, for an activation whose slots in scope are those of \<open>ctx\<close>.
\<close>

definition fields_good :: "nat \<Rightarrow> code list \<Rightarrow> nat \<Rightarrow> function_scope \<Rightarrow> nat \<Rightarrow> (atom \<times> (nat \<times> irexpr) list) list \<Rightarrow> bool" where
  "fields_good first codes ne ctx lim rs \<longleftrightarrow>
     (let lets = concat (map snd rs); hs = fst ` set lets
      in (\<forall>l \<in> set lets. over_atoms a_env (snd l) \<subseteq> {..<ne}
            \<and> (\<forall>x \<in> over_atoms a_clos (snd l). clos_target first codes x)
            \<and> bound_slots (snd l) \<subseteq> {next_local ctx ..< lim} \<and> alt_bases (snd l) \<subseteq> {..lim})
       \<and> hs \<subseteq> {next_local ctx ..< lim}
       \<and> (\<forall>r \<in> set rs. atom_good first codes ne (ctx_slots ctx \<union> hs) (fst r))
       \<and> (\<forall>D e. ctx_slots ctx \<subseteq> D \<longrightarrow> D \<subseteq> {..<next_local ctx} \<longrightarrow> lexical (D \<union> hs) e \<longrightarrow>
            lexical D (let_all lets e)))"

lemma fields_goodD:
  assumes "fields_good first codes ne ctx lim rs"
  shows "\<forall>l \<in> set (concat (map snd rs)). over_atoms a_env (snd l) \<subseteq> {..<ne}
            \<and> (\<forall>x \<in> over_atoms a_clos (snd l). clos_target first codes x)
            \<and> bound_slots (snd l) \<subseteq> {next_local ctx ..< lim} \<and> alt_bases (snd l) \<subseteq> {..lim}"
    and "fst ` set (concat (map snd rs)) \<subseteq> {next_local ctx ..< lim}"
    and "\<forall>r \<in> set rs. atom_good first codes ne (ctx_slots ctx \<union> fst ` set (concat (map snd rs))) (fst r)"
    and "ctx_slots ctx \<subseteq> D \<Longrightarrow> D \<subseteq> {..<next_local ctx} \<Longrightarrow>
         lexical (D \<union> fst ` set (concat (map snd rs))) e \<Longrightarrow> lexical D (let_all (concat (map snd rs)) e)"
  by (rule assms [unfolded fields_good_def Let_def, THEN conjunct1]
      assms [unfolded fields_good_def Let_def, THEN conjunct2, THEN conjunct1]
      assms [unfolded fields_good_def Let_def, THEN conjunct2, THEN conjunct2, THEN conjunct1]
      assms [unfolded fields_good_def Let_def, THEN conjunct2, THEN conjunct2, THEN conjunct2, rule_format];
      assumption)+

lemma fields_good_Nil: "fields_good first codes ne ctx lim []"
  by (simp add: fields_good_def)

lemma fields_good_atom:
  assumes "fields_good first codes ne ctx lim rs" "atom_good first codes ne (ctx_slots ctx) a"
  shows "fields_good first codes ne ctx lim ((a, []) # rs)"
  using assms atom_good_mono [OF assms(2)] by (auto simp: fields_good_def Let_def)

lemma fields_good_let:
  assumes rs: "fields_good first codes ne ctx2 lim rs"
    and rhs: "expr_good first codes ne (snd (alloc_local ctx)) lim rhs"
    and step: "ctx_step (snd (alloc_local ctx)) ctx2" and lim: "Suc (next_local ctx) \<le> lim"
  shows "fields_good first codes ne ctx lim ((Local (next_local ctx), [(next_local ctx, rhs)]) # rs)"
proof -
  let ?s = "next_local ctx" and ?lets = "concat (map snd rs)"
  let ?hs = "fst ` set ?lets"
  have n: "Suc ?s \<le> next_local ctx2" and sl: "ctx_slots ctx2 = ctx_slots ctx"
    using step ctx_step_slots [OF step] by (auto simp: ctx_step_def ctx_slots_def)
  have sub: "{next_local ctx2 ..< lim} \<subseteq> {?s ..< lim}" "{Suc ?s ..< lim} \<subseteq> {?s ..< lim}" using n by auto
  have lets: "over_atoms a_env (snd l) \<subseteq> {..<ne} \<and> (\<forall>x \<in> over_atoms a_clos (snd l). clos_target first codes x)
      \<and> bound_slots (snd l) \<subseteq> {?s ..< lim} \<and> alt_bases (snd l) \<subseteq> {..lim}" if "l \<in> insert (?s, rhs) (set ?lets)" for l
  proof (cases "l = (?s, rhs)")
    case True
    have "bound_slots rhs \<subseteq> {Suc ?s ..< lim}" using rhs by (simp add: expr_good_def)
    then show ?thesis using True rhs sub(2) by (simp add: expr_good_def subset_trans)
  next
    case False
    then have "l \<in> set ?lets" using that by simp
    then have l: "over_atoms a_env (snd l) \<subseteq> {..<ne}" "\<forall>x \<in> over_atoms a_clos (snd l). clos_target first codes x"
      "bound_slots (snd l) \<subseteq> {next_local ctx2 ..< lim}" "alt_bases (snd l) \<subseteq> {..lim}"
      using fields_goodD(1) [OF rs] by blast+
    show ?thesis using l(1,2,4) subset_trans [OF l(3) sub(1)] by blast
  qed
  note hs = fields_goodD(2) [OF rs]
  have atoms: "atom_good first codes ne (ctx_slots ctx \<union> insert ?s ?hs) (fst r)" if "r \<in> set rs" for r
  proof (rule atom_good_mono)
    show "atom_good first codes ne (ctx_slots ctx \<union> ?hs) (fst r)"
      using fields_goodD(3) [OF rs] that unfolding sl by (rule bspec)
  qed auto
  have lex: "lexical D (Let ?s rhs (let_all ?lets e))"
    if D: "ctx_slots ctx \<subseteq> D" "D \<subseteq> {..<?s}" and e: "lexical (D \<union> insert ?s ?hs) e" for D e
  proof -
    have "lexical (insert ?s D) rhs"
      using D by (intro expr_good_lexical [OF rhs]) (auto simp: ctx_slots_def)
    moreover have "lexical (insert ?s D) (let_all ?lets e)"
    proof -
      have "lexical (insert ?s D \<union> ?hs) e" using e by (simp add: insert_commute)
      moreover have "ctx_slots ctx2 \<subseteq> insert ?s D" "insert ?s D \<subseteq> {..<next_local ctx2}" using D n sl by auto
      ultimately show ?thesis by (intro fields_goodD(4) [OF rs])
    qed
    moreover have "?s \<notin> D" using D by auto
    ultimately show ?thesis by simp
  qed
  have own: "atom_good first codes ne (ctx_slots ctx \<union> insert ?s ?hs) (Local ?s)"
    by (simp add: atom_good_def)
  have hs': "insert ?s ?hs \<subseteq> {?s ..< lim}" using subset_trans [OF hs sub(1)] lim by simp
  have eq: "concat (map snd ((Local ?s, [(?s, rhs)]) # rs)) = (?s, rhs) # ?lets" by simp
  have fsts: "fst ` set ((?s, rhs) # ?lets) = insert ?s ?hs" by simp
  show ?thesis
    unfolding fields_good_def Let_def eq fsts let_all.simps
    using lets hs' own atoms by (intro conjI ballI allI impI lex) (auto simp del: set_concat)
qed

text \<open>After \<open>k\<close> slots have been taken and not given back.\<close>

definition slots_taken :: "function_scope \<Rightarrow> nat \<Rightarrow> function_scope \<Rightarrow> bool" where
  "slots_taken ctx k ctx' \<longleftrightarrow> fs_floor ctx' \<le> next_local ctx' \<and> next_local ctx + k \<le> next_local ctx'
     \<and> next_local ctx' \<le> max (next_local ctx) (fs_floor ctx') + k"

lemma slots_taken_free:
  "slots_taken ctx k ctx' \<Longrightarrow> next_local (free_locals k ctx') = max (next_local ctx) (fs_floor ctx')"
  by (auto simp: slots_taken_def free_locals_next)

lemma variant_fields_ok:
  assumes "\<And>f. f \<in> set fs \<Longrightarrow> covers ctx f \<and> (if is_atom f then atom_conv first ex f else converts first ex f)"
    and "ctx_ok ne ctx" "pool_ok first codes"
  obtains rs ctx' codes' where "mapM_st (variant_field ex first) fs (ctx, codes) = Some (rs, ctx', codes')"
    "length rs = length fs" "fs_scope ctx' = fs_scope ctx" "fs_floor ctx \<le> fs_floor ctx'"
    "slots_taken ctx (length (concat (map snd rs))) ctx'"
    "fs_nlocals ctx \<le> fs_nlocals ctx'" "next_local ctx' \<le> fs_nlocals ctx'"
    "grows first codes codes'" "fields_good first codes' ne ctx (fs_nlocals ctx') rs"
  using assms
proof (induction fs arbitrary: ctx codes thesis)
  case Nil
  then show ?case by (simp add: ctx_ok_def fields_good_Nil slots_taken_def)
next
  case (Cons f fs)
  show ?case
  proof (cases "is_atom f")
    case True
    have f: "atom_conv first ex f" "covers ctx f" using Cons.prems(2) [of f] True by auto
    obtain a codes1 where a: "atom_of ex first ctx f codes = Some (a, codes1)" "grows first codes codes1"
      "atom_good first codes1 ne (ctx_slots ctx) a"
      by (rule atom_conv_ok [OF f(1) Cons.prems(3) f(2) Cons.prems(4)])
    obtain rs ctx2 codes2 where rs: "mapM_st (variant_field ex first) fs (ctx, codes1) = Some (rs, ctx2, codes2)"
      "length rs = length fs" "fs_scope ctx2 = fs_scope ctx" "fs_floor ctx \<le> fs_floor ctx2"
      "slots_taken ctx (length (concat (map snd rs))) ctx2"
      "fs_nlocals ctx \<le> fs_nlocals ctx2" "next_local ctx2 \<le> fs_nlocals ctx2"
      "grows first codes1 codes2" "fields_good first codes2 ne ctx (fs_nlocals ctx2) rs"
      using Cons.IH [OF _ Cons.prems(2) Cons.prems(3) grows_pool [OF a(2)]] by (metis list.set_intros(2))
    have "variant_field ex first f (ctx, codes) = Some ((a, []), ctx, codes1)"
      using True a(1) by (simp add: variant_field_def)
    then show ?thesis
      using Cons.prems(1) [of "(a, []) # rs" ctx2 codes2] rs grows_trans [OF a(2) rs(8)]
        fields_good_atom [OF rs(9) atom_good_grows [OF a(3) rs(8)]]
      by simp
  next
    case False
    let ?c = "snd (alloc_local ctx)"
    have f: "converts first ex f" "covers ?c f" using Cons.prems(2) [of f] False alloc_ok(3) [OF Cons.prems(3)] by auto
    obtain rhs ctx1 codes1 where rhs: "ex f False (?c, codes) = Some (rhs, ctx1, codes1)" "ctx_step ?c ctx1"
      "grows first codes codes1" "expr_good first codes1 ne ?c (fs_nlocals ctx1) rhs"
      by (rule convertsE [OF f(1) alloc_ok(1) [OF Cons.prems(3)] f(2) Cons.prems(4)])
    have cov: "covers ctx1 g \<and> (if is_atom g then atom_conv first ex g else converts first ex g)" if "g \<in> set fs" for g
      using Cons.prems(2) [of g] that alloc_ok(3) [OF Cons.prems(3)] ctx_step_covers [OF rhs(2)] by auto
    obtain rs ctx2 codes2 where rs: "mapM_st (variant_field ex first) fs (ctx1, codes1) = Some (rs, ctx2, codes2)"
      "length rs = length fs" "fs_scope ctx2 = fs_scope ctx1" "fs_floor ctx1 \<le> fs_floor ctx2"
      "slots_taken ctx1 (length (concat (map snd rs))) ctx2"
      "fs_nlocals ctx1 \<le> fs_nlocals ctx2" "next_local ctx2 \<le> fs_nlocals ctx2"
      "grows first codes1 codes2" "fields_good first codes2 ne ctx1 (fs_nlocals ctx2) rs"
      using Cons.IH [OF _ cov ctx_step_ok [OF alloc_ok(1) [OF Cons.prems(3)] rhs(2)] grows_pool [OF rhs(3)]] by metis
    have "fields_good first codes2 ne ctx (fs_nlocals ctx2) ((Local (next_local ctx), [(next_local ctx, rhs)]) # rs)"
      using expr_good_grows [OF rhs(4) rs(8,6)] rs(5,6,7) rhs(2)
      by (intro fields_good_let [OF rs(9) _ rhs(2)]) (auto simp: ctx_step_def slots_taken_def)
    moreover have "slots_taken ctx (Suc (length (concat (map snd rs)))) ctx2"
      using rs(4,5) rhs(2) by (auto simp: ctx_step_def slots_taken_def)
    moreover have "variant_field ex first f (ctx, codes) =
        Some ((Local (next_local ctx), [(next_local ctx, rhs)]), ctx1, codes1)"
      using False rhs(1) by (simp add: variant_field_def case_prod_beta Let_def)
    ultimately show ?thesis
      using Cons.prems(1) [of "(Local (next_local ctx), [(next_local ctx, rhs)]) # rs" ctx2 codes2]
        rs rhs(2) grows_trans [OF rhs(3) rs(8)]
      by (simp add: ctx_step_def)
  qed
qed

lemma conv_variant_ok:
  assumes "\<And>f. f \<in> set fs \<Longrightarrow> covers ctx f \<and> (if is_atom f then atom_conv first ex f else converts first ex f)"
    and "ctx_ok ne ctx" "pool_ok first codes"
  obtains e ctx' codes' where "conv_variant ex first ty tag fs (ctx, codes) = Some (e, ctx', codes')"
    "ctx_step ctx ctx'" "grows first codes codes'" "expr_good first codes' ne ctx (fs_nlocals ctx') e"
proof -
  obtain rs ctx2 codes2 where rs: "mapM_st (variant_field ex first) fs (ctx, codes) = Some (rs, ctx2, codes2)"
    "fs_scope ctx2 = fs_scope ctx" "fs_floor ctx \<le> fs_floor ctx2"
    "slots_taken ctx (length (concat (map snd rs))) ctx2"
    "fs_nlocals ctx \<le> fs_nlocals ctx2" "next_local ctx2 \<le> fs_nlocals ctx2"
    "grows first codes codes2" and good: "fields_good first codes2 ne ctx (fs_nlocals ctx2) rs"
    using variant_fields_ok [OF assms] by metis
  let ?lets = "concat (map snd rs)"
  let ?e = "let_all ?lets (MkVariant ty tag (map fst rs) None)"
  let ?c = "free_locals (length ?lets) ctx2"
  have step: "ctx_step ctx ?c"
    using rs slots_taken_free [OF rs(4)] assms(2) by (auto simp: ctx_step_def ctx_ok_def slots_taken_def)
  note g = fields_goodD [OF good]
  have "expr_good first codes2 ne ctx (fs_nlocals ?c) ?e"
    unfolding expr_good_def
  proof (intro conjI allI impI)
    show "over_atoms a_env ?e \<subseteq> {..<ne}"
      using g(1,3) by (simp add: over_atoms_let_all atom_good_def UN_subset_iff del: set_concat)
    show "\<forall>x \<in> over_atoms a_clos ?e. clos_target first codes2 x"
      using g(1,3) by (simp add: over_atoms_let_all atom_good_def ball_Un ball_UN del: set_concat)
    show "bound_slots ?e \<subseteq> {next_local ctx ..< fs_nlocals ?c}"
      using g(1,2) by (simp add: bound_slots_let_all UN_subset_iff del: set_concat)
    show "alt_bases ?e \<subseteq> {..fs_nlocals ?c}"
      using g(1) by (simp add: alt_bases_let_all UN_subset_iff del: set_concat)
    fix D assume D: "ctx_slots ctx \<subseteq> D" "D \<subseteq> {..<next_local ctx}"
    have "reads_in (D \<union> fst ` set ?lets) (fst r)" if "r \<in> set rs" for r
    proof (rule reads_in_mono)
      show "reads_in (ctx_slots ctx \<union> fst ` set ?lets) (fst r)"
        using bspec [OF g(3) that] by (simp only: atom_good_def)
    qed (use D in blast)
    then have "lexical (D \<union> fst ` set ?lets) (MkVariant ty tag (map fst rs) None)"
      by (simp add: list_all_iff del: set_concat)
    then show "lexical D ?e" by (rule g(4) [OF D])
  qed
  then show ?thesis using that step rs(1,7) by (simp add: conv_variant_def Let_def)
qed

section \<open>Handlers\<close>

lemma mapM_clauses_ok:
  assumes "\<And>c. c \<in> set cls \<Longrightarrow> converts first ex (clause_body c)
      \<and> (clause_body c, [clause_arg c, k]) \<in> set (node_children n)"
    and ctx: "ctx_ok ne ctx" and pool: "pool_ok first codes" and cov: "covers ctx (Tree i n)"
  obtains hs codes' where "mapM_st (conv_clause ex first k ctx) cls codes = Some (hs, codes')"
    "grows first codes codes'" "\<forall>h \<in> set hs. atom_good first codes' ne (ctx_slots ctx) (hc_fun h)"
  using assms(1) pool
proof (induction cls arbitrary: codes thesis)
  case Nil
  then show ?case by simp
next
  case (Cons c cls)
  have c: "converts first ex (clause_body c)" "(clause_body c, [clause_arg c, k]) \<in> set (node_children n)"
    using Cons.prems(2) by auto
  obtain id caps codes1 where l: "lift ex first (clause_body c) 2 [clause_arg c, k] ctx codes = Some (Clos id caps, codes1)"
    "grows first codes codes1" "atom_good first codes1 ne (ctx_slots ctx) (Clos id caps)"
    "first \<le> id" "id - first < length codes1"
    using lift_ok [OF c(1) ctx Cons.prems(3) cov c(2), of 2 "[clause_arg c, k]"] by auto
  obtain h where h: "conv_clause ex first k ctx c codes = Some (h, codes1)" "hc_fun h = Clos id caps"
    using l by (simp add: conv_clause_def nth_opt_def)
  obtain hs codes2 where hs: "mapM_st (conv_clause ex first k ctx) cls codes1 = Some (hs, codes2)"
    "grows first codes1 codes2" "\<forall>h \<in> set hs. atom_good first codes2 ne (ctx_slots ctx) (hc_fun h)"
    using Cons.IH [of codes1] Cons.prems(2) grows_pool [OF l(2)] by auto
  show ?case
    using Cons.prems(1) [of "h # hs" codes2] h hs grows_trans [OF l(2) hs(2)]
      atom_good_grows [OF l(3) hs(2)] by simp
qed

lemma seal_slots_ok:
  assumes "ctx_ok ne ctx" "ctx_step (ctx\<lparr>fs_nlocals := next_local ctx\<rparr>) ctx1"
  shows "ctx_step ctx (seal_slots (fs_nlocals ctx) ctx1)" "fs_nlocals ctx1 \<le> fs_nlocals (seal_slots (fs_nlocals ctx) ctx1)"
  using assms by (auto simp: ctx_step_def seal_slots_def Let_def ctx_ok_def)

lemma conv_handle_ok:
  assumes body: "converts first ex b" "(b, []) \<in> set (node_children n)"
    and cls: "\<And>c. c \<in> set (clauses h) \<Longrightarrow> converts first ex (clause_body c)
      \<and> (clause_body c, [clause_arg c, continuation h]) \<in> set (node_children n)"
    and dflt: "\<And>x e. handler_default h = Some (x, e) \<Longrightarrow> converts first ex e \<and> (e, [x]) \<in> set (node_children n)"
    and ctx: "ctx_ok ne ctx" and pool: "pool_ok first codes" and cov: "covers ctx (Tree i n)"
  obtains e ctx' codes' where "conv_handle ex first b h (ctx, codes) = Some (e, ctx', codes')"
    "ctx_step ctx ctx'" "grows first codes codes'" "expr_good first codes' ne ctx (fs_nlocals ctx') e"
proof -
  let ?c = "ctx\<lparr>fs_nlocals := next_local ctx\<rparr>"
  have c: "ctx_ok ne ?c" using ctx by (simp add: ctx_ok_def)
  have cb: "covers ?c b" by (rule covers_same [OF cov body(2)]) simp
  obtain be ctx1 codes1 where b: "ex b True (?c, codes) = Some (be, ctx1, codes1)" "ctx_step ?c ctx1"
    "grows first codes codes1" "expr_good first codes1 ne ?c (fs_nlocals ctx1) be"
    by (rule convertsE [OF body(1) c cb pool])
  let ?s = "seal_slots (fs_nlocals ctx) ctx1"
  note seal = seal_slots_ok [OF ctx b(2)]
  have s: "ctx_ok ne ?s" "covers ?s (Tree i n)" "ctx_slots ?s = ctx_slots ctx"
    using ctx_step_ok [OF ctx seal(1)] ctx_step_covers [OF seal(1)] ctx_step_slots [OF seal(1)] cov by auto
  obtain hs codes2 where hs: "mapM_st (conv_clause ex first (continuation h) ?s) (clauses h) codes1 = Some (hs, codes2)"
    "grows first codes1 codes2" "\<forall>h \<in> set hs. atom_good first codes2 ne (ctx_slots ctx) (hc_fun h)"
    using mapM_clauses_ok [OF cls s(1) grows_pool [OF b(3)] s(2)] s(3) by metis
  have "\<exists>els codes3. (case handler_default h of Some (x, e) \<Rightarrow> lift ex first e 1 [x] ?s codes2
        | None \<Rightarrow> identity first ?s codes2) = Some (els, codes3)
      \<and> grows first codes2 codes3 \<and> atom_good first codes3 ne (ctx_slots ctx) els"
  proof (cases "handler_default h")
    case None
    then show ?thesis using identity_ok [OF grows_pool [OF hs(2)], of ?s ne "ctx_slots ctx"] by fastforce
  next
    case (Some xe)
    obtain x e where xe: "xe = (x, e)" by fastforce
    note d = dflt [OF Some [unfolded xe]]
    obtain id caps codes3 where "lift ex first e 1 [x] ?s codes2 = Some (Clos id caps, codes3)"
      "grows first codes2 codes3" "atom_good first codes3 ne (ctx_slots ?s) (Clos id caps)"
      using lift_ok [OF conjunct1 [OF d] s(1) grows_pool [OF hs(2)] s(2) conjunct2 [OF d], of 1 "[x]"]
      by (metis One_nat_def length_Cons list.size(3))
    then show ?thesis using Some xe s(3) by auto
  qed
  then obtain els codes3 where els: "(case handler_default h of Some (x, e) \<Rightarrow> lift ex first e 1 [x] ?s codes2
        | None \<Rightarrow> identity first ?s codes2) = Some (els, codes3)"
    "grows first codes2 codes3" "atom_good first codes3 ne (ctx_slots ctx) els" by blast
  have be: "expr_good first codes3 ne ctx (fs_nlocals ?s) be"
    using expr_good_grows [OF b(4) grows_trans [OF hs(2) els(2)] seal(2)]
    by (simp add: expr_good_def ctx_slots_def)
  have good: "atom_good first codes3 ne (ctx_slots ctx) (hc_fun c)" if "c \<in> set hs" for c
    using hs(3) that atom_good_grows [OF _ els(2)] by blast
  have reads: "reads_in D a" if "atom_good first codes3 ne (ctx_slots ctx) a" "ctx_slots ctx \<subseteq> D" for a D
    using that by (auto simp: atom_good_def intro: reads_in_mono)
  have "expr_good first codes3 ne ctx (fs_nlocals ?s) (Handle be hs els)"
    unfolding expr_good_def
  proof (intro conjI allI impI)
    show "over_atoms a_env (Handle be hs els) \<subseteq> {..<ne}"
      using be good els(3) by (auto simp: expr_good_def atom_good_def)
    show "\<forall>x \<in> over_atoms a_clos (Handle be hs els). clos_target first codes3 x"
      using be good els(3) by (auto simp: expr_good_def atom_good_def)
    show "bound_slots (Handle be hs els) \<subseteq> {next_local ctx ..< fs_nlocals ?s}"
      "alt_bases (Handle be hs els) \<subseteq> {..fs_nlocals ?s}"
      using be by (simp_all add: expr_good_def)
    fix D assume D: "ctx_slots ctx \<subseteq> D" "D \<subseteq> {..<next_local ctx}"
    show "lexical D (Handle be hs els)"
      using expr_good_lexical [OF be D] reads [OF good D(1)] reads [OF els(3) D(1)] by (simp add: list_all_iff)
  qed
  then show ?thesis
    using that seal(1) b(1) hs(1) els(1) grows_trans [OF b(3) grows_trans [OF hs(2) els(2)]]
    by (simp add: conv_handle_def Let_def)
qed

section \<open>Every A-normal term converts\<close>

lemma anf_children: "anf (Tree i n) \<Longrightarrow> (c, bs) \<in> set (node_children n) \<Longrightarrow> anf c"
  by fastforce

lemma expr_good_leaf:
  assumes "\<And>a. a \<in> set (ir_operands e) \<Longrightarrow> atom_good first codes ne (ctx_slots ctx) a"
    and "ir_children e = []" "bound_slots e = {}" "alt_bases e = {}"
    and "\<And>D. lexical D e = list_all (reads_in D) (ir_operands e)"
  shows "expr_good first codes ne ctx lim e"
proof -
  have "reads_in D a" if "a \<in> set (ir_operands e)" "ctx_slots ctx \<subseteq> D" for a D
    using assms(1) [OF that(1)] that(2) by (auto simp: atom_good_def intro: reads_in_mono)
  moreover have "over_atoms a_env e = (\<Union>a \<in> set (ir_operands e). a_env a)"
    "over_atoms a_clos e = (\<Union>a \<in> set (ir_operands e). a_clos a)"
    using assms(2) by (subst over_atoms.simps, simp)+
  ultimately show ?thesis
    using assms by (simp add: expr_good_def atom_good_def list_all_iff UN_subset_iff ball_UN)
qed

lemma converts_leaf:
  assumes "\<And>tail ctx codes ne. ctx_ok ne ctx \<Longrightarrow> covers ctx t \<Longrightarrow> pool_ok first codes \<Longrightarrow>
      \<exists>e codes'. ex t tail (ctx, codes) = Some (e, ctx, codes') \<and> grows first codes codes'
        \<and> expr_good first codes' ne ctx (fs_nlocals ctx) e"
  shows "converts first ex t"
  unfolding converts_def using assms ctx_step_refl by meson

lemma converts_let:
  assumes v: "converts first (expr first) v" and b: "converts first (expr first) b"
  shows "converts first (expr first) (Tree i (TLet x rec v b))"
  unfolding converts_def
proof (intro allI impI)
  fix tail ctx codes ne
  assume ctx: "ctx_ok ne ctx" and cov: "covers ctx (Tree i (TLet x rec v b))" and pool: "pool_ok first codes"
  let ?s = "next_local ctx"
  let ?c = "snd (alloc_local ctx)"
  let ?p = "push_atom (Local ?s) ?c"
  have p: "ctx_ok ne ?p" "fs_scope ?p = fs_scope ctx @ [Some (Local ?s)]" "ctx_slots ?p = insert ?s (ctx_slots ctx)"
    using ctx by (fastforce simp: ctx_ok_def, simp, auto simp: ctx_slots_def)
  have cb: "covers c b" if "fs_scope c = fs_scope ctx @ [Some (Local ?s)]" for c
    by (rule covers_child [OF cov, where as = "[Local ?s]"]) (use that in auto)
  have cv: "covers (if rec then ?p else ?c) v"
    by (rule covers_child [OF cov, where as = "if rec then [Local ?s] else []" and bs = "if rec then [x] else []"])
      auto
  have c1: "ctx_ok ne (if rec then ?p else ?c)" using p(1) alloc_ok(1) [OF ctx] by simp
  obtain r ctx1 codes1 where r: "expr first v False (if rec then ?p else ?c, codes) = Some (r, ctx1, codes1)"
    "ctx_step (if rec then ?p else ?c) ctx1" "grows first codes codes1"
    "expr_good first codes1 ne (if rec then ?p else ?c) (fs_nlocals ctx1) r"
    by (rule convertsE [OF v c1 cv pool])
  let ?c2 = "if rec then ctx1 else push_atom (Local ?s) ctx1"
  have c2: "fs_scope ?c2 = fs_scope ctx @ [Some (Local ?s)]" "next_local ?c2 = next_local ctx1"
    "fs_floor ?c2 = fs_floor ctx1" "fs_nlocals ?c2 = fs_nlocals ctx1"
    and n1: "fs_floor ctx \<le> fs_floor ctx1" "next_local ctx1 = max (Suc ?s) (fs_floor ctx1)"
      "fs_nlocals ctx \<le> fs_nlocals ctx1" "next_local ctx1 \<le> fs_nlocals ctx1"
    using r(2) by (auto simp: ctx_step_def split: if_splits)
  have ok2: "ctx_ok ne ?c2"
    using p(1) c2 n1 unfolding ctx_ok_def p(2) c2 by fastforce
  obtain e ctx3 codes2 where e: "expr first b tail (?c2, codes1) = Some (e, ctx3, codes2)"
    "ctx_step ?c2 ctx3" "grows first codes1 codes2" "expr_good first codes2 ne ?c2 (fs_nlocals ctx3) e"
    by (rule convertsE [OF b ok2 cb [OF c2(1)] grows_pool [OF r(3)]])
  let ?c3 = "free_local (pop_atom ctx3)"
  have step: "ctx_step ctx ?c3"
    using e(2) c2 n1 ctx unfolding ctx_step_def ctx_ok_def by auto
  have lim: "fs_nlocals ctx1 \<le> fs_nlocals ?c3" using e(2) c2 by (simp add: ctx_step_def)
  have rg: "expr_good first codes2 ne (if rec then ?p else ?c) (fs_nlocals ?c3) r"
    by (rule expr_good_grows [OF r(4) e(3) lim])
  have eg: "expr_good first codes2 ne ?c2 (fs_nlocals ?c3) e" using e(4) by simp
  have "expr_good first codes2 ne ctx (fs_nlocals ?c3) (Let ?s r e)"
    unfolding expr_good_def
  proof (intro conjI allI impI)
    have "bound_slots r \<subseteq> {Suc ?s ..< fs_nlocals ?c3}" "bound_slots e \<subseteq> {next_local ctx1 ..< fs_nlocals ?c3}"
      using rg eg c2(2) by (auto simp: expr_good_def split: if_splits)
    moreover have "{Suc ?s ..< fs_nlocals ?c3} \<subseteq> {?s ..< fs_nlocals ?c3}"
      "{next_local ctx1 ..< fs_nlocals ?c3} \<subseteq> {?s ..< fs_nlocals ?c3}" "?s < fs_nlocals ?c3"
      using n1 lim by auto
    ultimately show "bound_slots (Let ?s r e) \<subseteq> {?s ..< fs_nlocals ?c3}" by (simp add: subset_trans)
    fix D assume D: "ctx_slots ctx \<subseteq> D" "D \<subseteq> {..<?s}"
    have "lexical (insert ?s D) r"
    proof (rule expr_good_lexical [OF rg])
      show "ctx_slots (if rec then ?p else ?c) \<subseteq> insert ?s D"
        using D p(3) alloc_ok(2) [OF ctx] by auto
    qed (use D in \<open>auto split: if_splits\<close>)
    moreover have "lexical (insert ?s D) e"
    proof (rule expr_good_lexical [OF eg])
      show "ctx_slots ?c2 \<subseteq> insert ?s D" using D unfolding ctx_slots_def c2(1) by auto
    qed (use D c2(2) n1 in auto)
    ultimately show "lexical D (Let ?s r e)" using D by auto
  qed (use rg eg in \<open>auto simp: expr_good_def\<close>)
  moreover have "expr first (Tree i (TLet x rec v b)) tail (ctx, codes) = Some (Let ?s r e, ?c3, codes2)"
    using r(1) e(1) by (cases rec) (simp_all add: Let_def alloc_local_def)
  ultimately show "\<exists>e' ctx' codes'. expr first (Tree i (TLet x rec v b)) tail (ctx, codes) = Some (e', ctx', codes')
      \<and> ctx_step ctx ctx' \<and> grows first codes codes' \<and> expr_good first codes' ne ctx (fs_nlocals ctx') e'"
    using step grows_trans [OF r(3) e(3)] by blast
qed

lemma converts_case:
  assumes s: "atom_conv first (expr first) s" and arms: "\<And>a. a \<in> set arms \<Longrightarrow> converts first (expr first) (arm_body a) \<and> shallow_pat (arm_pat a)"
    and d: "\<And>e. d = Some e \<Longrightarrow> converts first (expr first) e"
  shows "converts first (expr first) (Tree i (TCase s arms d))"
  unfolding converts_def
proof (intro allI impI)
  fix tail ctx codes ne
  assume ctx: "ctx_ok ne ctx" and cov: "covers ctx (Tree i (TCase s arms d))" and pool: "pool_ok first codes"
  note child = case_children [where s = s and arms = arms and d = d]
  obtain sa codes1 where sa: "atom_of (expr first) first ctx s codes = Some (sa, codes1)" "grows first codes codes1"
    "atom_good first codes1 ne (ctx_slots ctx) sa"
    by (rule atom_conv_ok [OF s ctx covers_same [OF cov child(1) refl] pool])
  have "converts first (expr first) (arm_body a) \<and> shallow_pat (arm_pat a)
      \<and> (arm_body a, pat_binders (arm_pat a)) \<in> set (node_children (TCase s arms d))" if "a \<in> set arms" for a
    using arms [OF that] child(3) [OF that] by blast
  then obtain alts ctx2 codes2 where alts: "mapM_st (conv_alt (expr first)) arms (ctx, codes1) = Some (alts, ctx2, codes2)"
    "ctx_step ctx ctx2" "grows first codes1 codes2" "\<forall>l \<in> set alts. alt_good first codes2 ne ctx (fs_nlocals ctx2) l"
    using mapM_alts_ok [OF _ ctx grows_pool [OF sa(2)] cov] by metis
  let ?default = "case d of Some e \<Rightarrow> expr first e tail (ctx2, codes2)
      | None \<Rightarrow> Some (IFault ''no pattern matched (non-exhaustive match)'', ctx2, codes2)"
  have "\<exists>e ctx3 codes3. ?default = Some (e, ctx3, codes3) \<and> ctx_step ctx2 ctx3 \<and> grows first codes2 codes3
      \<and> expr_good first codes3 ne ctx2 (fs_nlocals ctx3) e"
  proof (cases d)
    case None
    have "expr_good first codes2 ne ctx2 (fs_nlocals ctx2) (IFault ''no pattern matched (non-exhaustive match)'')"
      by (rule expr_good_leaf) auto
    then show ?thesis using None ctx_step_refl [OF ctx_step_ok [OF ctx alts(2)]] grows_pool [OF alts(3)] by auto
  next
    case (Some e)
    have "covers ctx2 e" using covers_same [OF cov child(2) [OF Some] refl] ctx_step_covers [OF alts(2)] by simp
    from convertsE [OF d [OF Some] ctx_step_ok [OF ctx alts(2)] this grows_pool [OF alts(3)]]
    obtain e' ctx3 codes3 where "expr first e tail (ctx2, codes2) = Some (e', ctx3, codes3)" "ctx_step ctx2 ctx3"
      "grows first codes2 codes3" "expr_good first codes3 ne ctx2 (fs_nlocals ctx3) e'" .
    then show ?thesis using Some by auto
  qed
  then obtain e ctx3 codes3 where e: "?default = Some (e, ctx3, codes3)" "ctx_step ctx2 ctx3" "grows first codes2 codes3"
    "expr_good first codes3 ne ctx2 (fs_nlocals ctx3) e" by blast
  have lim: "fs_nlocals ctx2 \<le> fs_nlocals ctx3" using e(2) by (simp add: ctx_step_def)
  have eg: "expr_good first codes3 ne ctx (fs_nlocals ctx3) e" by (rule expr_good_step [OF alts(2) e(4)])
  have ag: "alt_good first codes3 ne ctx (fs_nlocals ctx3) l" if "l \<in> set alts" for l
    using alts(4) that alt_good_grows [OF _ e(3) lim] by blast
  have sg: "atom_good first codes3 ne (ctx_slots ctx) sa"
    by (rule atom_good_grows [OF sa(3) grows_trans [OF alts(3) e(3)]])
  have "expr_good first codes3 ne ctx (fs_nlocals ctx3) (Case sa alts e)"
    unfolding expr_good_def
  proof (intro conjI allI impI)
    show "over_atoms a_env (Case sa alts e) \<subseteq> {..<ne}"
      using eg ag sg by (simp add: expr_good_def alt_good_def atom_good_def UN_subset_iff)
    show "\<forall>x \<in> over_atoms a_clos (Case sa alts e). clos_target first codes3 x"
      using eg ag sg by (auto simp: expr_good_def alt_good_def atom_good_def)
    show "bound_slots (Case sa alts e) \<subseteq> {next_local ctx ..< fs_nlocals ctx3}"
      "alt_bases (Case sa alts e) \<subseteq> {..fs_nlocals ctx3}"
      using eg ag by (simp_all add: expr_good_def alt_good_def UN_subset_iff)
    fix D assume D: "ctx_slots ctx \<subseteq> D" "D \<subseteq> {..<next_local ctx}"
    have "reads_in D sa" using sg D(1) by (auto simp: atom_good_def intro: reads_in_mono)
    moreover have "alt_slots l \<inter> D = {} \<and> None \<notin> set (binders l) \<and> alt_unpack l = Borrow
        \<and> lexical (D \<union> alt_slots l) (alt_body l)" if "l \<in> set alts" for l
      using ag [OF that] D by (simp add: alt_good_def)
    ultimately show "lexical D (Case sa alts e)" using expr_good_lexical [OF eg D] by (simp add: list_all_iff)
  qed
  moreover have "expr first (Tree i (TCase s arms d)) tail (ctx, codes) = Some (Case sa alts e, ctx3, codes3)"
    using sa(1) alts(1) e(1) by simp
  ultimately show "\<exists>e' ctx' codes'. expr first (Tree i (TCase s arms d)) tail (ctx, codes) = Some (e', ctx', codes')
      \<and> ctx_step ctx ctx' \<and> grows first codes codes' \<and> expr_good first codes' ne ctx (fs_nlocals ctx') e'"
    using ctx_step_trans [OF alts(2) e(2)] grows_trans [OF sa(2) grows_trans [OF alts(3) e(3)]] by blast
qed

lemma converts_atom:
  assumes "atom_conv first (expr first) t"
  shows "converts first (expr first) t"
proof (rule converts_leaf)
  fix tail ctx codes ne
  assume ctx: "ctx_ok ne ctx" "covers ctx t" "pool_ok first codes"
  obtain a codes' where a: "atom_of (expr first) first ctx t codes = Some (a, codes')" "grows first codes codes'"
    "atom_good first codes' ne (ctx_slots ctx) a"
    by (rule atom_conv_ok [OF assms ctx])
  obtain i n where t: "t = Tree i n" by (cases t)
  have "expr first t tail (ctx, codes) = Some (Ret a, ctx, codes')"
    using assms a(1) unfolding t by (cases n) (auto simp: atom_conv_def is_atom_def)
  moreover have "expr_good first codes' ne ctx (fs_nlocals ctx) (Ret a)"
    using a(3) by (intro expr_good_leaf) auto
  ultimately show "\<exists>e codes'. expr first t tail (ctx, codes) = Some (e, ctx, codes') \<and> grows first codes codes'
      \<and> expr_good first codes' ne ctx (fs_nlocals ctx) e"
    using a(2) by blast
qed

text \<open>A node whose operands are all atoms, built by \<open>mk\<close> from their conversions.\<close>

lemma converts_operands:
  assumes ops: "\<And>c. c \<in> set ts \<Longrightarrow> atom_conv first (expr first) c \<and> (c, []) \<in> set (node_children n)"
    and eq: "\<And>tail ctx codes as codes'. mapM_st (atom_of (expr first) first ctx) ts codes = Some (as, codes') \<Longrightarrow>
      expr first (Tree i n) tail (ctx, codes) = Some (mk tail as, ctx, codes')"
    and mk: "\<And>tail as. length as = length ts \<Longrightarrow> set (ir_operands (mk tail as)) \<subseteq> set as"
      "\<And>tail as. ir_children (mk tail as) = []" "\<And>tail as. bound_slots (mk tail as) = {}"
      "\<And>tail as. alt_bases (mk tail as) = {}"
      "\<And>tail as D. lexical D (mk tail as) = list_all (reads_in D) (ir_operands (mk tail as))"
  shows "converts first (expr first) (Tree i n)"
proof (rule converts_leaf)
  fix tail ctx codes ne
  assume ctx: "ctx_ok ne ctx" and cov: "covers ctx (Tree i n)" and pool: "pool_ok first codes"
  have "atom_conv first (expr first) t \<and> covers ctx t" if "t \<in> set ts" for t
    using ops [OF that] covers_same [OF cov _ refl] by blast
  then obtain as codes' where as: "mapM_st (atom_of (expr first) first ctx) ts codes = Some (as, codes')"
    "length as = length ts" "grows first codes codes'"
    "\<forall>a \<in> set as. atom_good first codes' ne (ctx_slots ctx) a"
    using mapM_atoms_ok [OF _ ctx pool] by metis
  have "expr_good first codes' ne ctx (fs_nlocals ctx) (mk tail as)"
    using as(4) mk(1) [OF as(2)] by (intro expr_good_leaf mk(2-5)) blast
  then show "\<exists>e codes'. expr first (Tree i n) tail (ctx, codes) = Some (e, ctx, codes') \<and> grows first codes codes'
      \<and> expr_good first codes' ne ctx (fs_nlocals ctx) e"
    using eq [OF as(1)] as(3) by blast
qed

lemma converts_defer:
  assumes c: "converts first (expr first) c" and b: "converts first (expr first) b"
  shows "converts first (expr first) (Tree i (TDefer c b))"
  unfolding converts_def
proof (intro allI impI)
  fix tail ctx codes ne
  assume ctx: "ctx_ok ne ctx" and cov: "covers ctx (Tree i (TDefer c b))" and pool: "pool_ok first codes"
  obtain id caps codes1 where l: "lift (expr first) first c 0 [] ctx codes = Some (Clos id caps, codes1)"
    "grows first codes codes1" "atom_good first codes1 ne (ctx_slots ctx) (Clos id caps)"
    by (rule lift_ok [OF c ctx pool cov, of "[]" 0 "[]"]) (simp, simp, rule that)
  have cb: "covers ctx b" by (rule covers_same [OF cov _ refl]) simp
  obtain e ctx2 codes2 where e: "expr first b tail (ctx, codes1) = Some (e, ctx2, codes2)" "ctx_step ctx ctx2"
    "grows first codes1 codes2" "expr_good first codes2 ne ctx (fs_nlocals ctx2) e"
    by (rule convertsE [OF b ctx cb grows_pool [OF l(2)]])
  have a: "atom_good first codes2 ne (ctx_slots ctx) (Clos id caps)" by (rule atom_good_grows [OF l(3) e(3)])
  have "expr_good first codes2 ne ctx (fs_nlocals ctx2) (Defer (Clos id caps) e)"
    unfolding expr_good_def
  proof (intro conjI allI impI)
    show "over_atoms a_env (Defer (Clos id caps) e) \<subseteq> {..<ne}"
      using a e(4) by (simp add: expr_good_def atom_good_def ball_Un del: a_env.simps a_clos.simps)
    show "\<forall>x \<in> over_atoms a_clos (Defer (Clos id caps) e). clos_target first codes2 x"
      using a e(4) by (simp add: expr_good_def atom_good_def ball_Un del: a_env.simps a_clos.simps)
    show "bound_slots (Defer (Clos id caps) e) \<subseteq> {next_local ctx ..< fs_nlocals ctx2}"
      "alt_bases (Defer (Clos id caps) e) \<subseteq> {..fs_nlocals ctx2}"
      using e(4) by (simp_all add: expr_good_def)
    fix D assume D: "ctx_slots ctx \<subseteq> D" "D \<subseteq> {..<next_local ctx}"
    have "reads_in D (Clos id caps)" using a D(1) unfolding atom_good_def by (blast intro: reads_in_mono)
    then show "lexical D (Defer (Clos id caps) e)" using expr_good_lexical [OF e(4) D] by simp
  qed
  then show "\<exists>e' ctx' codes'. expr first (Tree i (TDefer c b)) tail (ctx, codes) = Some (e', ctx', codes')
      \<and> ctx_step ctx ctx' \<and> grows first codes codes' \<and> expr_good first codes' ne ctx (fs_nlocals ctx') e'"
    using l(1) e(1,2) grows_trans [OF l(2) e(3)] by auto
qed

lemma anf_converts:
  assumes "anf t"
  shows "converts first (expr first) t \<and> (\<forall>c. (c, t) \<in> subtree \<longrightarrow> converts first (expr first) c)"
  using assms
proof (induction t rule: tree_children_induct)
  case (1 i n)
  have child: "converts first (expr first) c \<and> (\<forall>g. (g, c) \<in> subtree \<longrightarrow> converts first (expr first) g)"
    if "(c, bs) \<in> set (node_children n)" for c bs
    using "1.IH" [OF that] anf_children [OF "1.prems" that] by blast
  have sub: "\<forall>c. (c, Tree i n) \<in> subtree \<longrightarrow> converts first (expr first) c"
  proof (intro allI impI)
    fix c assume "(c, Tree i n) \<in> subtree"
    then have "c \<in> fst ` set (node_children n)" by (simp add: set_node_children)
    then obtain bs where "(c, bs) \<in> set (node_children n)" by force
    then show "converts first (expr first) c" using child by blast
  qed
  have op: "atom_conv first (expr first) c" if "c \<in> set (operands n)" "(c, bs) \<in> set (node_children n)" for c bs
    using "1.prems" that child by (auto simp: atom_conv_def list_all_iff)
  have "converts first (expr first) (Tree i n)"
  proof (cases n)
    case (TApp f x)
    show ?thesis unfolding TApp
      by (rule converts_operands [where ts = "[f, x]" and mk = "\<lambda>tail as. App (as ! 0) (as ! 1) tail False"])
        (use op TApp in \<open>auto simp: length_Suc_conv split: bind_splits\<close>)
  next
    case (TField r l)
    show ?thesis unfolding TField
      by (rule converts_operands [where ts = "[r]" and mk = "\<lambda>tail as. Field (as ! 0) l"])
        (use op TField in \<open>auto simp: length_Suc_conv split: bind_splits\<close>)
  next
    case (TTuple ts)
    show ?thesis unfolding TTuple
      by (rule converts_operands [where ts = ts and mk = "\<lambda>tail as. MkTuple as"]) (use op TTuple in auto)
  next
    case (TStruct nm base fs)
    let ?ts = "(case base of None \<Rightarrow> [] | Some b \<Rightarrow> [b]) @ map snd fs"
    let ?mk = "\<lambda>(tail :: bool) as. case base of
        None \<Rightarrow> MkStruct nm None (zip (map fst fs) as)
      | Some b \<Rightarrow> MkStruct nm (Some (hd as)) (zip (map fst fs) (tl as))"
    have "(c, []) \<in> set (node_children n)" if "c \<in> set ?ts" for c
      using that TStruct by (auto split: option.splits)
    moreover have "set ?ts = set (operands n)" using TStruct by simp
    ultimately have ops: "atom_conv first (expr first) c \<and> (c, []) \<in> set (node_children n)" if "c \<in> set ?ts" for c
      using op that by blast
    have eq: "expr first (Tree i n) tail (ctx, codes) = Some (?mk tail as, ctx, codes')"
      if "mapM_st (atom_of (expr first) first ctx) ?ts codes = Some (as, codes')" for tail ctx codes as codes'
      using that TStruct by (cases base) (auto simp: optM_st_def split: bind_splits)
    show ?thesis
      by (rule converts_operands [OF ops eq])
        (auto simp: TStruct length_Suc_conv dest!: set_zip_rightD split: option.splits)
  next
    case (TLet x rec v b)
    have "converts first (expr first) v" "converts first (expr first) b"
      using child [of v "if rec then [x] else []"] child [of b "[x]"] TLet by auto
    then show ?thesis unfolding TLet by (rule converts_let)
  next
    case (TCase s arms d)
    note ch = case_children [where s = s and arms = arms and d = d, folded TCase]
    have "atom_conv first (expr first) s" using op [OF _ ch(1)] TCase by simp
    moreover have "converts first (expr first) (arm_body a) \<and> shallow_pat (arm_pat a)" if "a \<in> set arms" for a
      using child [OF ch(3) [OF that]] "1.prems" TCase that by (auto simp: list_all_iff)
    moreover have "converts first (expr first) e" if "d = Some e" for e using child [OF ch(2) [OF that]] by blast
    ultimately show ?thesis unfolding TCase by (rule converts_case)
  next
    case (TVariant ty tag ts)
    have f: "(f, []) \<in> set (node_children n)" if "f \<in> set ts" for f using TVariant that by auto
    have g: "if is_atom f then atom_conv first (expr first) f else converts first (expr first) f" if "f \<in> set ts" for f
      using child [OF f [OF that]] by (simp add: atom_conv_def)
    show ?thesis
      unfolding converts_def
    proof (intro allI impI)
      fix tail ctx codes ne
      assume ctx: "ctx_ok ne ctx" and cov: "covers ctx (Tree i n)" and pool: "pool_ok first codes"
      have "covers ctx f \<and> (if is_atom f then atom_conv first (expr first) f else converts first (expr first) f)"
        if "f \<in> set ts" for f using g [OF that] covers_same [OF cov f [OF that] refl] by blast
      from conv_variant_ok [OF this ctx pool, where ty = ty and tag = tag] show
        "\<exists>e ctx' codes'. expr first (Tree i n) tail (ctx, codes) = Some (e, ctx', codes') \<and> ctx_step ctx ctx'
          \<and> grows first codes codes' \<and> expr_good first codes' ne ctx (fs_nlocals ctx') e"
        unfolding TVariant by (metis expr.simps(7))
    qed
  next
    case (THandle b h)
    note ch = handle_children [where b = b and h = h, folded THandle]
    show ?thesis
      unfolding converts_def
    proof (intro allI impI)
      fix tail ctx codes ne
      assume ctx: "ctx_ok ne ctx" and cov: "covers ctx (Tree i n)" and pool: "pool_ok first codes"
      have b: "converts first (expr first) b" using child [OF ch(1)] by blast
      have cl: "converts first (expr first) (clause_body c)
          \<and> (clause_body c, [clause_arg c, continuation h]) \<in> set (node_children n)" if "c \<in> set (clauses h)" for c
        using child [OF ch(2) [OF that]] ch(2) [OF that] by blast
      have df: "converts first (expr first) e \<and> (e, [x]) \<in> set (node_children n)"
        if "handler_default h = Some (x, e)" for x e
        using child [OF ch(3) [OF that]] ch(3) [OF that] by blast
      from conv_handle_ok [OF b ch(1) cl df ctx pool cov] show
        "\<exists>e ctx' codes'. expr first (Tree i n) tail (ctx, codes) = Some (e, ctx', codes') \<and> ctx_step ctx ctx'
          \<and> grows first codes codes' \<and> expr_good first codes' ne ctx (fs_nlocals ctx') e"
        unfolding THandle by (metis expr.simps(9))
    qed
  next
    case (TDefer c b)
    show ?thesis unfolding TDefer
      using child [of c "[]"] child [of b "[]"] TDefer by (intro converts_defer) auto
  next
    case (TFault msg)
    show ?thesis unfolding TFault
      by (rule converts_operands [where ts = "[]" and mk = "\<lambda>tail as. IFault msg"]) auto
  qed (use sub in \<open>intro converts_atom; simp add: atom_conv_def is_atom_def\<close>)+
  with sub show ?case by blast
qed

end
