(* ===== verification/Conversion_Program.thy ===== *)
theory Conversion_Program
  imports Conversion_Sound
begin

text \<open>
  Closure conversion of whole programs: the rewrites that end it keep every code
  well formed, the arity of a global is always found, and so every program in
  A-normal form converts to a well-formed pool of codes.
\<close>

section \<open>The rewrites keep a code well formed\<close>

text \<open>An expression that refers to and binds nothing the other does not.\<close>

definition refers_within :: "irexpr \<Rightarrow> irexpr \<Rightarrow> bool" where
  "refers_within e' e \<longleftrightarrow> over_atoms a_env e' \<subseteq> over_atoms a_env e
     \<and> over_atoms a_clos e' \<subseteq> over_atoms a_clos e \<and> bound_slots e' \<subseteq> bound_slots e
     \<and> alt_bases e' \<subseteq> alt_bases e"

lemma refers_within_trans: "refers_within a b \<Longrightarrow> refers_within b c \<Longrightarrow> refers_within a c"
  by (auto simp: refers_within_def)

lemma subst_atom_refs:
  "a_env (subst_atom s x a) \<subseteq> a_env a \<union> a_env x"
  "copy_atom x \<Longrightarrow> a_clos (subst_atom s x a) = a_clos a"
  by (induction a) (auto simp: copy_atom_def)

lemma map2_with_body_set:
  assumes "those (map g alts) = Some bs" "l \<in> set (map2 with_body alts bs)"
  obtains k where "k \<in> set alts" "g k = Some (alt_body l)" "alt_slots l = alt_slots k"
    "binder_base l = binder_base k"
proof -
  have len: "length bs = length alts" by (rule those_map_length [OF assms(1)])
  from assms(2) obtain j where j: "j < length alts" "l = with_body (alts ! j) (bs ! j)"
    by (auto simp: in_set_conv_nth len)
  with those_map_nth [OF assms(1) j(1)] show ?thesis by (intro that [of "alts ! j"]) auto
qed

lemma three_unions:
  "A' \<subseteq> A \<union> X \<Longrightarrow> Z' \<subseteq> Z \<union> X \<Longrightarrow> B' \<subseteq> B \<union> X \<Longrightarrow> A' \<union> Z' \<union> B' \<subseteq> A \<union> Z \<union> B \<union> X"
  by blast

lemma substitute_refs:
  assumes "substitute s x e = Some e'" "copy_atom x"
  shows "over_atoms a_env e' \<subseteq> over_atoms a_env e \<union> a_env x
       \<and> over_atoms a_clos e' \<subseteq> over_atoms a_clos e \<and> bound_slots e' \<subseteq> bound_slots e
       \<and> alt_bases e' \<subseteq> alt_bases e"
  using assms(1)
proof (induction e arbitrary: e')
  case (Case a alts d)
  obtain bs d' where e': "those (map (\<lambda>l. substitute s x (alt_body l)) alts) = Some bs" "substitute s x d = Some d'"
    "e' = Case (subst_atom s x a) (map2 with_body alts bs) d'"
    using Case.prems by (auto split: bind_splits)
  have alts: "over_atoms a_env (alt_body l) \<subseteq> (\<Union>k \<in> set alts. over_atoms a_env (alt_body k)) \<union> a_env x
      \<and> over_atoms a_clos (alt_body l) \<subseteq> (\<Union>k \<in> set alts. over_atoms a_clos (alt_body k))
      \<and> alt_slots l \<union> bound_slots (alt_body l) \<subseteq> (\<Union>k \<in> set alts. alt_slots k \<union> bound_slots (alt_body k))
      \<and> insert (binder_base l) (alt_bases (alt_body l)) \<subseteq> (\<Union>k \<in> set alts. insert (binder_base k) (alt_bases (alt_body k)))"
    if mem: "l \<in> set (map2 with_body alts bs)" for l
  proof -
    obtain k where k: "k \<in> set alts" "substitute s x (alt_body k) = Some (alt_body l)" "alt_slots l = alt_slots k"
      "binder_base l = binder_base k"
      by (rule map2_with_body_set [OF e'(1) mem])
    show ?thesis using Case.IH(1) [OF k(1) _ k(2)] k(1,3,4) by fastforce
  qed
  let ?zs = "set (map2 with_body alts bs)"
  have zs: "(\<Union>l \<in> ?zs. over_atoms a_env (alt_body l)) \<subseteq> (\<Union>k \<in> set alts. over_atoms a_env (alt_body k)) \<union> a_env x"
    "(\<Union>l \<in> ?zs. over_atoms a_clos (alt_body l)) \<subseteq> (\<Union>k \<in> set alts. over_atoms a_clos (alt_body k))"
    "(\<Union>l \<in> ?zs. alt_slots l \<union> bound_slots (alt_body l)) \<subseteq> (\<Union>k \<in> set alts. alt_slots k \<union> bound_slots (alt_body k))"
    "(\<Union>l \<in> ?zs. insert (binder_base l) (alt_bases (alt_body l))) \<subseteq> (\<Union>k \<in> set alts. insert (binder_base k) (alt_bases (alt_body k)))"
    by (rule UN_least, drule alts, elim conjE, assumption)+
  note d = Case.IH(2) [OF e'(2)]
  show ?case unfolding e'(3) over_atoms_simps bound_slots.simps alt_bases.simps subst_atom_refs(2) [OF assms(2)]
    by (intro conjI three_unions [OF subst_atom_refs(1) zs(1) conjunct1 [OF d]]
        Un_mono [OF Un_mono [OF order_refl zs(2)] conjunct1 [OF conjunct2 [OF d]]]
        Un_mono [OF zs(3) conjunct1 [OF conjunct2 [OF conjunct2 [OF d]]]]
        Un_mono [OF zs(4) conjunct2 [OF conjunct2 [OF conjunct2 [OF d]]]])
next
  case (MkStruct n base fs)
  have "a_env (subst_atom s x (snd f)) \<subseteq> a_env (snd f) \<union> a_env x" for f
    by (rule subst_atom_refs(1))
  then show ?case
    using MkStruct subst_atom_refs(1) [of s x] subst_atom_refs(2) [OF assms(2), of s]
    by (cases base) (fastforce simp: case_prod_beta)+
next
  case (Handle b cls els)
  then show ?case
    using subst_atom_refs(1) [of s x] subst_atom_refs(2) [OF assms(2), of s]
    by (fastforce split: bind_splits)
qed (use subst_atom_refs(1) [of s x] subst_atom_refs(2) [OF assms(2), of s] in
    \<open>fastforce split: bind_splits\<close>)+

lemma propagate_copies_refs: "propagate_copies e = Some e' \<Longrightarrow> refers_within e' e"
proof (induction e arbitrary: e')
  case (Let s r b)
  show ?case
  proof (cases "copied s r")
    case None
    then obtain r' b' where "propagate_copies r = Some r'" "propagate_copies b = Some b'" "e' = Let s r' b'"
      using Let.prems by (auto split: bind_splits)
    then show ?thesis using Let.IH by (fastforce simp: refers_within_def)
  next
    case (Some x)
    then have x: "r = Ret x" "copy_atom x" using copied_Some by auto
    obtain b' where b': "propagate_copies b = Some b'" "substitute s x b' = Some e'"
      using Let.prems Some by (auto split: bind_splits)
    have "refers_within b' b" by (rule Let.IH(2) [OF b'(1)])
    then show ?thesis using substitute_refs [OF b'(2) x(2)] x(1) by (fastforce simp: refers_within_def)
  qed
next
  case (Case a alts d)
  obtain bs d' where e': "those (map (\<lambda>l. propagate_copies (alt_body l)) alts) = Some bs" "propagate_copies d = Some d'"
    "e' = Case a (map2 with_body alts bs) d'"
    using Case.prems by (auto split: bind_splits)
  have alts: "over_atoms a_env (alt_body l) \<subseteq> (\<Union>k \<in> set alts. over_atoms a_env (alt_body k))
      \<and> over_atoms a_clos (alt_body l) \<subseteq> (\<Union>k \<in> set alts. over_atoms a_clos (alt_body k))
      \<and> alt_slots l \<union> bound_slots (alt_body l) \<subseteq> (\<Union>k \<in> set alts. alt_slots k \<union> bound_slots (alt_body k))
      \<and> insert (binder_base l) (alt_bases (alt_body l)) \<subseteq> (\<Union>k \<in> set alts. insert (binder_base k) (alt_bases (alt_body k)))"
    if mem: "l \<in> set (map2 with_body alts bs)" for l
  proof -
    obtain k where k: "k \<in> set alts" "propagate_copies (alt_body k) = Some (alt_body l)" "alt_slots l = alt_slots k"
      "binder_base l = binder_base k"
      by (rule map2_with_body_set [OF e'(1) mem])
    show ?thesis using Case.IH(1) [OF k(1) _ k(2)] k(1,3,4) unfolding refers_within_def by fastforce
  qed
  let ?zs = "set (map2 with_body alts bs)"
  have zs: "(\<Union>l \<in> ?zs. over_atoms a_env (alt_body l)) \<subseteq> (\<Union>k \<in> set alts. over_atoms a_env (alt_body k))"
    "(\<Union>l \<in> ?zs. over_atoms a_clos (alt_body l)) \<subseteq> (\<Union>k \<in> set alts. over_atoms a_clos (alt_body k))"
    "(\<Union>l \<in> ?zs. alt_slots l \<union> bound_slots (alt_body l)) \<subseteq> (\<Union>k \<in> set alts. alt_slots k \<union> bound_slots (alt_body k))"
    "(\<Union>l \<in> ?zs. insert (binder_base l) (alt_bases (alt_body l))) \<subseteq> (\<Union>k \<in> set alts. insert (binder_base k) (alt_bases (alt_body k)))"
    by (rule UN_least, drule alts, elim conjE, assumption)+
  have d: "over_atoms a_env d' \<subseteq> over_atoms a_env d" "over_atoms a_clos d' \<subseteq> over_atoms a_clos d"
    "bound_slots d' \<subseteq> bound_slots d" "alt_bases d' \<subseteq> alt_bases d"
    using Case.IH(2) [OF e'(2)] by (simp_all add: refers_within_def)
  show ?case unfolding e'(3) refers_within_def over_atoms_simps bound_slots.simps alt_bases.simps
    by (intro conjI Un_mono zs d order_refl)
qed (fastforce simp: refers_within_def split: bind_splits)+

lemma place_partial_refs:
  "place_partial s r e = Inr e' \<Longrightarrow> refers_within e' (Let s r e)"
  by (induction s r e arbitrary: e' rule: place_partial.induct)
    (fastforce simp: refers_within_def split: if_splits sum.splits)+

lemma sink_partials_refs: "refers_within (sink_partials ar partials e) e"
proof (induction e arbitrary: partials)
  case (Let s r b)
  let ?r = "sink_partials ar partials r"
  have rb: "refers_within (Let s ?r (sink_partials ar p b)) (Let s r b)" for p
    using Let.IH(1) [of partials] Let.IH(2) [of p] by (auto simp: refers_within_def)
  show ?case
  proof (cases "\<exists>n. operands_left ar partials ?r = Some (Suc n)")
    case True
    then obtain n where n: "operands_left ar partials ?r = Some (Suc n)" by blast
    let ?b = "sink_partials ar (partials(s \<mapsto> Suc n)) b"
    show ?thesis
    proof (cases "place_partial s ?r ?b")
      case (Inl b')
      then show ?thesis using n rb place_partial_Inl [OF Inl] by (simp add: Let_def)
    next
      case (Inr placed)
      then show ?thesis using n refers_within_trans [OF place_partial_refs [OF Inr] rb] by (simp add: Let_def)
    qed
  next
    case False
    then have "sink_partials ar partials (Let s r b) = Let s ?r (sink_partials ar (partials(s := None)) b)"
      by (auto simp: Let_def split: option.split nat.split)
    then show ?thesis using rb by simp
  qed
next
  case (Case a alts d)
  have "over_atoms a_env (sink_partials ar partials (alt_body l)) \<subseteq> over_atoms a_env (alt_body l)
      \<and> over_atoms a_clos (sink_partials ar partials (alt_body l)) \<subseteq> over_atoms a_clos (alt_body l)
      \<and> bound_slots (sink_partials ar partials (alt_body l)) \<subseteq> bound_slots (alt_body l)
      \<and> alt_bases (sink_partials ar partials (alt_body l)) \<subseteq> alt_bases (alt_body l)" if "l \<in> set alts" for l
    using Case.IH(1) [OF that, of "alt_body l" partials] by (simp add: refers_within_def)
  then show ?case using Case.IH(2) [of partials]
    by (simp add: refers_within_def) (fastforce)
next
  case (Handle b cls els)
  then show ?case by (simp add: refers_within_def le_supI2 le_supI1)
next
  case (Defer c b)
  then show ?case by (simp add: refers_within_def le_supI2 le_supI1)
qed (auto simp: refers_within_def)

lemma simplify_code_refs: "simplify_code ar e = Some e' \<Longrightarrow> refers_within e' e"
  unfolding simplify_code_def by (blast intro: refers_within_trans propagate_copies_refs sink_partials_refs)

section \<open>The arity of a global\<close>

text \<open>The loop ends: each closure it follows belongs to an older code.\<close>

lemma curried_arity_ends:
  "pool_ok first codes \<Longrightarrow> first \<le> cd \<Longrightarrow> cd - first < fuel \<Longrightarrow>
     \<exists>n. curried_arity fuel codes first cd = Some n"
proof (induction fuel arbitrary: cd)
  case (Suc fuel)
  show ?case
  proof (cases "cd - first < length codes")
    case False
    then show ?thesis using Suc.prems by (simp add: nth_opt_def)
  next
    case True
    show ?thesis
    proof (cases "\<exists>next caps. code_body (codes ! (cd - first)) = Ret (Clos next caps)")
      case False
      then show ?thesis using Suc.prems True
        by (auto simp: nth_opt_def split: irexpr.split atom.split)
    next
      case True
      then obtain "next" caps where body: "code_body (codes ! (cd - first)) = Ret (Clos next caps)" by blast
      have "code_ok first (take (cd - first) codes) (codes ! (cd - first))"
        using Suc.prems(1) \<open>cd - first < length codes\<close> by (simp add: pool_ok_def)
      then have "first \<le> next" "next - first < cd - first"
        using body by (auto simp: code_ok_def clos_target_def)
      then obtain n where "curried_arity fuel codes first next = Some n"
        using Suc.IH [of "next"] Suc.prems by auto
      then show ?thesis using body Suc.prems \<open>cd - first < length codes\<close> by (simp add: nth_opt_def)
    qed
  qed
qed simp

section \<open>Programs\<close>

definition global_ok :: "nat \<Rightarrow> code list \<Rightarrow> name \<times> nat \<Rightarrow> bool" where
  "global_ok first codes g \<longleftrightarrow> first \<le> snd g \<and> snd g - first < length codes
     \<and> nparams (codes ! (snd g - first)) = 0 \<and> code_name (codes ! (snd g - first)) = fst g
     \<and> over_atoms a_env (code_body (codes ! (snd g - first))) = {}"

lemma global_ok_grows: "global_ok first codes g \<Longrightarrow> grows first codes codes' \<Longrightarrow> global_ok first codes' g"
  by (auto simp: global_ok_def grows_def nth_append)

lemma convert_globals_ok:
  assumes "\<forall>(x, t) \<in> set gs. anf t \<and> scoped 0 t" "pool_ok first codes"
  obtains ids codes' where "convert_globals first gs codes = Some (ids, codes')" "grows first codes codes'"
    "map fst ids = map fst gs" "\<forall>g \<in> set ids. global_ok first codes' g"
  using assms
proof (induction gs arbitrary: codes thesis)
  case Nil
  then show ?case by simp
next
  case (Cons g gs)
  obtain x t where g: "g = (x, t)" by fastforce
  have t: "converts first (expr first) t" using Cons.prems(2) anf_converts g by auto
  have new: "ctx_ok 0 function_scope_new" "covers function_scope_new t"
    using Cons.prems(2) collect_free_below [of t 0 0] g
    by (auto simp: function_scope_new_def ctx_ok_def covers_def)
  obtain e ctx codes1 where e: "expr first t True (function_scope_new, codes) = Some (e, ctx, codes1)"
    "ctx_step function_scope_new ctx" "grows first codes codes1"
    "expr_good first codes1 0 function_scope_new (fs_nlocals ctx) e"
    by (rule convertsE [OF t new Cons.prems(3)])
  let ?c = "new_code 0 (fs_nlocals ctx) e x"
  have "lexical {} e" using expr_good_lexical [OF e(4)] by (auto simp: function_scope_new_def ctx_slots_def)
  then have "code_ok first codes1 ?c"
    using e(4) by (auto simp: code_ok_def expr_good_def function_scope_new_def)
  then have grow: "grows first codes (codes1 @ [?c])" "pool_ok first (codes1 @ [?c])"
    using e(3) by (auto simp: grows_def pool_ok_snoc)
  obtain ids codes2 where ids: "convert_globals first gs (codes1 @ [?c]) = Some (ids, codes2)"
    "grows first (codes1 @ [?c]) codes2" "map fst ids = map fst gs" "\<forall>g \<in> set ids. global_ok first codes2 g"
    using Cons.IH [OF _ _ grow(2)] Cons.prems(2) by auto
  have "global_ok first (codes1 @ [?c]) (x, first + length codes1)"
    using e(4) by (auto simp: global_ok_def expr_good_def)
  from global_ok_grows [OF this ids(2)] show ?case
    using Cons.prems(1) [of "(x, first + length codes1) # ids" codes2] e(1) ids grows_trans [OF grow(1) ids(2)] g
    by simp
qed

text \<open>Replacing every body by one that refers to no more keeps the pool well formed.\<close>

lemma pool_ok_simplified:
  assumes "pool_ok first codes" "those (map (\<lambda>c. simplify_code ar (code_body c)) codes) = Some bodies"
  shows "pool_ok first (map2 (\<lambda>c b. c\<lparr>code_body := b\<rparr>) codes bodies)"
  unfolding pool_ok_def
proof (intro allI impI)
  let ?codes = "map2 (\<lambda>c b. c\<lparr>code_body := b\<rparr>) codes bodies"
  have len: "length bodies = length codes" by (rule those_map_length [OF assms(2)])
  have body: "simplify_code ar (code_body (codes ! j)) = Some (bodies ! j)" if "j < length codes" for j
    using those_map_nth [OF assms(2) that] .
  fix j assume "j < length ?codes"
  then have j: "j < length codes" using len by simp
  have old: "code_ok first (take j codes) (codes ! j)" using assms(1) j by (simp add: pool_ok_def)
  have refs: "refers_within (bodies ! j) (code_body (codes ! j))" by (rule simplify_code_refs [OF body [OF j]])
  have "lexical {0..<nparams (codes ! j)} (bodies ! j)"
  proof -
    have "lexical {0..<nparams (codes ! j)} (code_body (codes ! j))" using old by (simp add: code_ok_def)
    then have "lexical {0..<nparams (codes ! j)} (sink_partials ar Map.empty (code_body (codes ! j)))"
      by (intro sink_partials_lexical) auto
    from propagate_copies_sound [OF this, of ar] body [OF j] show ?thesis
      by (auto simp: simplify_code_def same_meaning_def)
  qed
  moreover have "clos_target first (take j ?codes) x" if "x \<in> over_atoms a_clos (bodies ! j)" for x
  proof -
    obtain c k where x: "x = (c, k)" by fastforce
    have "clos_target first (take j codes) (c, k)"
      using that refs old x by (auto simp: refers_within_def code_ok_def)
    then have c: "first \<le> c" "c - first < j" "over_atoms a_env (code_body (codes ! (c - first))) \<subseteq> {..<k}"
      using j by (auto simp: clos_target_def)
    then have "refers_within (bodies ! (c - first)) (code_body (codes ! (c - first)))"
      using j by (intro simplify_code_refs [OF body]) simp
    then show ?thesis using c j len x by (auto simp: clos_target_def refers_within_def)
  qed
  moreover have "bound_slots (bodies ! j) \<subseteq> {nparams (codes ! j) ..< nlocals (codes ! j)}"
    "alt_bases (bodies ! j) \<subseteq> {..nlocals (codes ! j)}"
    using old refs unfolding code_ok_def refers_within_def by (meson subset_trans)+
  moreover have "?codes ! j = (codes ! j)\<lparr>code_body := bodies ! j\<rparr>" using j len by simp
  ultimately show "code_ok first (take j ?codes) (?codes ! j)"
    using old by (simp add: code_ok_def)
qed

lemma simplify_all:
  assumes "pool_ok first codes"
  shows "\<exists>bodies. those (map (\<lambda>c. simplify_code ar (code_body c)) codes) = Some bodies"
proof -
  have "\<exists>b. simplify_code ar (code_body c) = Some b" if "c \<in> set codes" for c
  proof -
    obtain j where "j < length codes" "c = codes ! j" using \<open>c \<in> set codes\<close> by (auto simp: in_set_conv_nth)
    then have "lexical {0..<nparams c} (code_body c)" using assms by (auto simp: pool_ok_def code_ok_def)
    then have "lexical {0..<nparams c} (sink_partials ar Map.empty (code_body c))"
      by (intro sink_partials_lexical) auto
    from propagate_copies_sound [OF this, of ar] show ?thesis by (auto simp: simplify_code_def)
  qed
  then obtain f where "\<And>c. c \<in> set codes \<Longrightarrow> simplify_code ar (code_body c) = Some (f c)" by metis
  then have "those (map (\<lambda>c. simplify_code ar (code_body c)) codes) = Some (map f codes)"
    by (rule those_map_Some)
  then show ?thesis ..
qed

lemma convert_closures_after_wf:
  assumes "\<forall>(x, t) \<in> set (cp_globals core). anf t \<and> scoped 0 t"
  obtains p where "convert_closures_after core first before = Some p" "pool_ok first (ip_codes p)"
    "map fst (ip_globals p) = map fst (cp_globals core)" "\<forall>g \<in> set (ip_globals p). global_ok first (ip_codes p) g"
    "ip_effects p = cp_effects core"
proof -
  obtain ids codes where c: "convert_globals first (cp_globals core) [] = Some (ids, codes)"
    "grows first [] codes" "map fst ids = map fst (cp_globals core)" "\<forall>g \<in> set ids. global_ok first codes g"
    using convert_globals_ok [OF assms pool_ok_Nil] by metis
  have pool: "pool_ok first codes" by (rule grows_pool [OF c(2)])
  have "\<exists>n. curried_arity (length codes + 1) codes first i = Some n" if "(x, i) \<in> set ids" for x i
    using c(4) that by (intro curried_arity_ends [OF pool]) (auto simp: global_ok_def)
  then obtain f where f: "\<And>x i. (x, i) \<in> set ids \<Longrightarrow> curried_arity (length codes + 1) codes first i = Some (f x i)"
    by metis
  have "those (map (\<lambda>(x, i). map_option (Pair x) (curried_arity (length codes + 1) codes first i)) ids)
      = Some (map (\<lambda>(x, i). (x, f x i)) ids)"
    using f by (intro those_map_Some) auto
  then obtain arities where ar: "those (map (\<lambda>(x, i). map_option (Pair x) (curried_arity (length codes + 1) codes first i)) ids)
      = Some arities" by blast
  let ?ar = "known_arity arities (fst ` set ids \<union> before)"
  obtain bodies where b: "those (map (\<lambda>c. simplify_code ?ar (code_body c)) codes) = Some bodies"
    using simplify_all [OF pool] by blast
  let ?codes = "map2 (\<lambda>c b. c\<lparr>code_body := b\<rparr>) codes bodies"
  have "global_ok first ?codes g" if "g \<in> set ids" for g
  proof -
    let ?j = "snd g - first"
    have j: "?j < length codes" "over_atoms a_env (code_body (codes ! ?j)) = {}" using c(4) that by (auto simp: global_ok_def)
    then have "over_atoms a_env (bodies ! ?j) = {}"
      using simplify_code_refs [OF those_map_nth [OF b j(1)]] by (simp add: refers_within_def)
    then show ?thesis using c(4) that j those_map_length [OF b] by (auto simp: global_ok_def)
  qed
  then show ?thesis
    using that c(1,3) ar b pool_ok_simplified [OF pool b] by (simp add: convert_closures_after_def Let_def)
qed

text \<open>
  C3: Closure conversion never panics on an indexed program in A-normal form, and
  its loops end. Every code it yields reads only slots in scope and binds only free
  slots of its activation, below \<open>nlocals\<close>; every closure is over an existing,
  older code and captures every field that code reads; and every global is a
  nullary code of its name that reads no captured field.
\<close>

theorem convert_closures_after_total:
  assumes "\<forall>(x, t) \<in> set (cp_globals core). anf t \<and> scoped 0 t"
  shows "\<exists>p. convert_closures_after core first before = Some p \<and> pool_ok first (ip_codes p)
       \<and> map fst (ip_globals p) = map fst (cp_globals core)
       \<and> (\<forall>g \<in> set (ip_globals p). global_ok first (ip_codes p) g)"
  using convert_closures_after_wf [OF assms, of first before] by blast

section \<open>Witness\<close>

definition demo_indexed :: "nat core_program" where
  "demo_indexed = (core_program_new ''M'')\<lparr>cp_globals :=
     [(''k'', Tree 0 (TLam ''x'' (Tree 0 (TLam ''y'' (Tree 2 (TVar None ''x''))))))]\<rparr>"

theorem convert_closures_after_total_witness:
  "\<exists>p. convert_closures_after demo_indexed 3 {} = Some p \<and> pool_ok 3 (ip_codes p)
     \<and> map fst (ip_globals p) = [''k'']"
  using convert_closures_after_total [of demo_indexed 3 "{}"]
  by (auto simp: demo_indexed_def core_program_new_def is_atom_def)

end
