(* ===== verification/Ownership.thy ===== *)
theory Ownership
  imports IR_Simplify "HOL-Library.Monad_Syntax"
begin

text \<open>
  Ownership \<^verbatim>\<open>crates/frontend/src/ir/ownership.rs\<close>: the backward liveness walk that turns the
  last use of a slot into a move and a value that dies unread into a drop, and the
  second walk that pairs a consumed scrutinee with a constructor that reuses its
  cell. A panic of the source is \<open>None\<close>. The theories \<^verbatim>\<open>Ownership_Safe\<close> and
  \<^verbatim>\<open>Ownership_Reuse\<close> prove what the marks promise.
\<close>

section \<open>Places\<close>

datatype place = PLocal nat | PEnv nat

type_synonym live = "place set"

record flow =
  fl_live :: live
  fl_leftover :: "nat set"

fun var_of :: "atom \<Rightarrow> place option" where
  "var_of (Local s) = Some (PLocal s)"
| "var_of (Move s) = Some (PLocal s)"
| "var_of (Env i) = Some (PEnv i)"
| "var_of (MoveEnv i) = Some (PEnv i)"
| "var_of _ = None"

text \<open>
  \<^verbatim>\<open>each_var\<close>: the variable occurrences among some atoms, those in the captures of a
  closure included; and the same traversal when the visitor rewrites what it sees.
\<close>

definition each_var :: "atom list \<Rightarrow> place list" where
  "each_var as = List.map_filter var_of (concat (map leaves as))"

fun rewrite_vars :: "(place \<Rightarrow> atom \<Rightarrow> atom) \<Rightarrow> atom \<Rightarrow> atom" where
  "rewrite_vars f (Clos cd captures) = Clos cd (map (rewrite_vars f) captures)"
| "rewrite_vars f a = (case var_of a of Some v \<Rightarrow> f v a | None \<Rightarrow> a)"

definition locals_in :: "live \<Rightarrow> nat set" where
  "locals_in vars = {s. PLocal s \<in> vars}"

section \<open>One node\<close>

text \<open>
  The occurrences of a node, a lent variable counted once more. An occurrence moves
  when its variable is dead afterwards and is counted once.
\<close>

definition occurrences :: "atom list \<Rightarrow> place option \<Rightarrow> place list" where
  "occurrences as lent = each_var as @ (case lent of Some v \<Rightarrow> [v] | None \<Rightarrow> [])"

definition settle :: "(place \<Rightarrow> nat) \<Rightarrow> live \<Rightarrow> place \<Rightarrow> atom \<Rightarrow> atom" where
  "settle count out v a =
     (if v \<in> out \<or> count v \<noteq> 1 then a else case v of PLocal s \<Rightarrow> Move s | PEnv i \<Rightarrow> MoveEnv i)"

definition node_lending :: "atom list \<Rightarrow> place option \<Rightarrow> live \<Rightarrow> atom list \<times> flow" where
  "node_lending as lent out =
     (let count = count_list (occurrences as lent)
      in (map (rewrite_vars (settle count out)) as,
          \<lparr>fl_live = out \<union> set (each_var as),
           fl_leftover = {s. PLocal s \<in> set (each_var as) \<and> PLocal s \<notin> out \<and> count (PLocal s) \<noteq> 1}\<rparr>))"

lemma locals_in_code [code]:
  "locals_in vars = (\<lambda>v. case v of PLocal s \<Rightarrow> s | PEnv i \<Rightarrow> i) ` Set.filter (\<lambda>v. case v of PLocal s \<Rightarrow> True | PEnv _ \<Rightarrow> False) vars"
  by (force simp: locals_in_def split: place.splits)

lemma node_lending_code [code]:
  "node_lending as lent out =
     (let count = count_list (occurrences as lent)
      in (map (rewrite_vars (settle count out)) as,
          \<lparr>fl_live = out \<union> set (each_var as),
           fl_leftover = locals_in (set (filter (\<lambda>v. v \<notin> out \<and> count v \<noteq> 1) (each_var as)))\<rparr>))"
  by (simp add: node_lending_def locals_in_def Let_def)

definition node :: "atom list \<Rightarrow> live \<Rightarrow> atom list \<times> flow" where
  "node as out = node_lending as None out"

fun with_drops :: "nat list \<Rightarrow> irexpr \<Rightarrow> irexpr" where
  "with_drops slots body =
     (if slots = [] then body
      else case body of
        Drop inner b \<Rightarrow> Drop (remdups_adj (sort (slots @ inner))) b
      | _ \<Rightarrow> Drop (remdups_adj (sort slots)) body)"

declare with_drops.simps [simp del]

fun is_fault :: "irexpr \<Rightarrow> bool" where
  "is_fault (IFault _) = True"
| "is_fault _ = False"

section \<open>The walk\<close>

text \<open>
  The alternatives of a \<^verbatim>\<open>Case\<close>: a binder the body does not read is not bound, and is
  not live before the alternative; then each branch that does not fault drops what
  another branch needs and it does not, save its own binders.
\<close>

definition unbind :: "live \<Rightarrow> irexpr alt \<Rightarrow> name option list" where
  "unbind live a =
     map (\<lambda>(i, b). if PLocal (binder_base a + i) \<in> live then b else None) (enumerate 0 (binders a))"

definition alt_live :: "live \<Rightarrow> irexpr alt \<Rightarrow> live" where
  "alt_live live a = live - PLocal ` alt_slots a"

definition drop_dead :: "live \<Rightarrow> live \<Rightarrow> nat set \<Rightarrow> irexpr \<Rightarrow> irexpr" where
  "drop_dead alive live own body =
     (if is_fault body then body
      else with_drops (sorted_list_of_set (locals_in (alive - live) - own)) body)"

definition own_alt :: "live \<Rightarrow> irexpr alt \<Rightarrow> irexpr \<Rightarrow> live \<Rightarrow> irexpr alt" where
  "own_alt alive a body live =
     Alt (alt_kind a) (binder_base a) (unbind live a)
       (drop_dead alive (alt_live live a) (alt_slots a) body) (alt_unpack a)"

text \<open>\<^verbatim>\<open>expr\<close>: the walk, given what is live after the expression.\<close>

fun own_expr :: "irexpr \<Rightarrow> live \<Rightarrow> (irexpr \<times> flow) option" where
  "own_expr (Ret a) out = (let (as, f) = node [a] out in Some (Ret (as ! 0), f))"
| "own_expr (App g x tail lend) out =
     (let (as, f) = node_lending [g, x] (if lend then var_of x else None) out
      in Some (App (as ! 0) (as ! 1) tail lend, f))"
| "own_expr (MkStruct n base fs) out =
     (case base of
        None \<Rightarrow> (let (as, f) = node (map snd fs) out in Some (MkStruct n None (zip (map fst fs) as), f))
      | Some b \<Rightarrow> (let (as, f) = node (b # map snd fs) out
                   in Some (MkStruct n (Some (hd as)) (zip (map fst fs) (tl as)), f)))"
| "own_expr (Field r n) out = (let (as, f) = node [r] out in Some (Field (as ! 0) n, f))"
| "own_expr (MkVariant ty tag fs reuse) out = (let (as, f) = node fs out in Some (MkVariant ty tag as reuse, f))"
| "own_expr (MkTuple fs) out = (let (as, f) = node fs out in Some (MkTuple as, f))"
| "own_expr (IFault msg) out = Some (IFault msg, \<lparr>fl_live = {}, fl_leftover = {}\<rparr>)"
| "own_expr (Let slot rhs body) out = do {
     let body_out = (if ir_mentions rhs slot then insert (PLocal slot) out else out);
     (body', fb) \<leftarrow> own_expr body body_out;
     (rhs', fr) \<leftarrow> own_expr rhs (insert (PLocal slot) (fl_live fb));
     let dead = sorted_list_of_set (fl_leftover fr - locals_in (fl_live fb))
                @ (if PLocal slot \<in> fl_live fb then [] else [slot]);
     Some (Let slot rhs' (with_drops dead body'),
           \<lparr>fl_live = fl_live fr - {PLocal slot}, fl_leftover = fl_leftover fb\<rparr>)
   }"
| "own_expr (Case scrut alts d) out = do {
     rs \<leftarrow> those (map (\<lambda>a. own_expr (alt_body a) out) alts);
     (d', fd) \<leftarrow> own_expr d out;
     let alive = (\<Union>(a, _, fa) \<in> set (zip alts rs). alt_live (fl_live fa) a) \<union> fl_live fd;
     let (ss, fs) = node [scrut] alive;
     Some (Case (ss ! 0) (map (\<lambda>(a, b, fa). own_alt alive a b (fl_live fa)) (zip alts rs))
             (drop_dead alive (fl_live fd) {} d'),
           \<lparr>fl_live = fl_live fs,
            fl_leftover = (\<Union>r \<in> set rs. fl_leftover (snd r)) \<union> fl_leftover fd \<union> fl_leftover fs\<rparr>)
   }"
| "own_expr (Handle body cls els) out = do {
     (body', fb) \<leftarrow> own_expr body out;
     let (as, fi) = node (map hc_fun cls @ [els]) (fl_live fb);
     Some (Handle (with_drops (sorted_list_of_set (fl_leftover fi)) body')
             (map2 (\<lambda>c a. HandleClause (hc_effect c) (hc_op c) a (hc_resume c)) cls (butlast as)) (last as),
           \<lparr>fl_live = fl_live fi, fl_leftover = fl_leftover fb\<rparr>)
   }"
| "own_expr (Defer cleanup body) out = do {
     (body', fb) \<leftarrow> own_expr body out;
     let (as, fi) = node [cleanup] (fl_live fb);
     Some (Defer (as ! 0) (with_drops (sorted_list_of_set (fl_leftover fi)) body'),
           \<lparr>fl_live = fl_live fi, fl_leftover = fl_leftover fb\<rparr>)
   }"
| "own_expr (Drop _ _) out = None"

section \<open>What handler bodies read\<close>

fun all_nodes :: "irexpr \<Rightarrow> irexpr list" where
  "all_nodes e = e # concat (map all_nodes (ir_children e))"

declare all_nodes.simps [simp del]

fun node_binds :: "irexpr \<Rightarrow> live" where
  "node_binds (Let slot _ _) = {PLocal slot}"
| "node_binds (Case _ alts _) = PLocal ` (\<Union>a \<in> set alts. alt_slots a)"
| "node_binds _ = {}"

definition node_reads :: "irexpr \<Rightarrow> live" where
  "node_reads e = set (List.map_filter var_of (ir_atoms e))"

definition reads_from_outside :: "irexpr \<Rightarrow> live" where
  "reads_from_outside body =
     (\<Union>n \<in> set (all_nodes body). node_reads n) - (\<Union>n \<in> set (all_nodes body). node_binds n)"

definition handler_reads :: "irexpr \<Rightarrow> live" where
  "handler_reads e =
     (\<Union>n \<in> set (all_nodes e). case n of Handle body _ _ \<Rightarrow> reads_from_outside body | _ \<Rightarrow> {})"

section \<open>Constructor reuse\<close>

fun take_drop :: "irexpr \<Rightarrow> nat \<Rightarrow> bool \<times> irexpr" where
  "take_drop (Drop slots body) slot =
     (if slot \<in> set slots
      then let rest = remove1 slot slots in (True, if rest = [] then body else Drop rest body)
      else (False, Drop slots body))"
| "take_drop e slot = (False, e)"

fun take_con :: "irexpr \<Rightarrow> nat \<Rightarrow> nat \<Rightarrow> bool \<times> irexpr" where
  "take_con (MkVariant ty tag fs reuse) arity token =
     (if reuse = None \<and> length fs = arity then (True, MkVariant ty tag fs (Some token))
      else (False, MkVariant ty tag fs reuse))"
| "take_con e arity token = (False, e)"

text \<open>A branch that did not take the token drops it on entry, unless it faults.\<close>

definition end_token :: "nat \<Rightarrow> bool \<times> irexpr \<Rightarrow> irexpr" where
  "end_token token r = (if \<not> fst r \<and> \<not> is_fault (snd r) then with_drops [token] (snd r) else snd r)"

fun claim :: "irexpr \<Rightarrow> nat \<Rightarrow> nat \<Rightarrow> bool \<times> irexpr" where
  "claim (MkVariant ty tag fs reuse) arity token = take_con (MkVariant ty tag fs reuse) arity token"
| "claim (Let slot rhs body) arity token =
     (let (took, rhs') = take_con rhs arity token
      in if took then (True, Let slot rhs' body)
         else let (took, body') = claim body arity token in (took, Let slot rhs' body'))"
| "claim (Drop slots body) arity token =
     (let (took, body') = claim body arity token in (took, Drop slots body'))"
| "claim (Case scrut alts d) arity token =
     (let rd = claim d arity token
      in if \<not> list_ex (\<lambda>a. fst (claim (alt_body a) arity token)) alts \<and> \<not> fst rd
         then (False, Case scrut (map (\<lambda>a. with_body a (snd (claim (alt_body a) arity token))) alts) (snd rd))
         else (True, Case scrut (map (\<lambda>a. with_body a (end_token token (claim (alt_body a) arity token))) alts)
                       (end_token token rd)))"
| "claim e arity token = (False, e)"

fun is_con :: "altkind \<Rightarrow> bool" where
  "is_con (KCon _) = True"
| "is_con _ = False"

text \<open>
  One alternative of a \<^verbatim>\<open>Case\<close>: the slot that dies there, if one does, with the body
  it leaves; then the alternative with its scrutinee consumed.
\<close>

definition dies_in :: "nat option \<Rightarrow> nat option \<Rightarrow> irexpr alt \<Rightarrow> nat option \<times> irexpr" where
  "dies_in moved held a =
     (case (moved, held) of
        (Some s, _) \<Rightarrow> (Some s, alt_body a)
      | (None, Some s) \<Rightarrow>
          (if is_con (alt_kind a)
           then let (found, b) = take_drop (alt_body a) s in (if found then Some s else None, b)
           else (None, alt_body a))
      | _ \<Rightarrow> (None, alt_body a))"

definition consume_alt :: "nat option \<Rightarrow> nat option \<Rightarrow> irexpr alt \<Rightarrow> nat \<Rightarrow> irexpr alt \<times> nat" where
  "consume_alt moved held a nl =
     (case dies_in moved held a of
        (None, b) \<Rightarrow> (with_body a b, nl)
      | (Some s, b) \<Rightarrow>
          if \<not> is_con (alt_kind a)
          then (with_body a (if is_fault b then b else with_drops [s] b), nl)
          else let (took, b') = claim b (length (binders a)) nl
               in (Alt (alt_kind a) (binder_base a) (binders a) b' (Consume s (if took then Some nl else None)),
                   if took then nl + 1 else nl))"

fun consume_alts :: "nat option \<Rightarrow> nat option \<Rightarrow> irexpr alt list \<Rightarrow> nat \<Rightarrow> irexpr alt list \<times> nat" where
  "consume_alts moved held [] nl = ([], nl)"
| "consume_alts moved held (a # as) nl =
     (let (a', nl1) = consume_alt moved held a nl; (as', nl2) = consume_alts moved held as nl1
      in (a' # as', nl2))"

text \<open>The first half of \<^verbatim>\<open>consume_scrutinees\<close>, on the node itself.\<close>

definition moved_scrut :: "atom \<Rightarrow> irexpr alt list \<Rightarrow> nat option" where
  "moved_scrut scrut alts =
     (case scrut of Move s \<Rightarrow> if list_ex (\<lambda>a. is_con (alt_kind a)) alts then Some s else None | _ \<Rightarrow> None)"

definition held_scrut :: "atom \<Rightarrow> nat option" where
  "held_scrut scrut = (case scrut of Local s \<Rightarrow> Some s | _ \<Rightarrow> None)"

fun consume_node :: "irexpr \<Rightarrow> nat \<Rightarrow> irexpr \<times> nat" where
  "consume_node (Case scrut alts d) nl =
     (let moved = moved_scrut scrut alts; (alts', nl') = consume_alts moved (held_scrut scrut) alts nl
      in case moved of
           None \<Rightarrow> (Case scrut alts' d, nl')
         | Some s \<Rightarrow> (Case (Local s) alts' (if is_fault d then d else with_drops [s] d), nl'))"
| "consume_node e nl = (e, nl)"


text \<open>Its second half: the walk into the children of the rewritten node, in order.\<close>

fun thread_alts :: "(irexpr \<Rightarrow> nat \<Rightarrow> irexpr \<times> nat) \<Rightarrow> irexpr alt list \<Rightarrow> nat \<Rightarrow> irexpr alt list \<times> nat" where
  "thread_alts f [] nl = ([], nl)"
| "thread_alts f (a # as) nl =
     (let (b, nl1) = f (alt_body a) nl; (as', nl2) = thread_alts f as nl1 in (with_body a b # as', nl2))"

fun thread_children :: "(irexpr \<Rightarrow> nat \<Rightarrow> irexpr \<times> nat) \<Rightarrow> irexpr \<Rightarrow> nat \<Rightarrow> irexpr \<times> nat" where
  "thread_children f (Let slot rhs body) nl =
     (let (rhs', nl1) = f rhs nl; (body', nl2) = f body nl1 in (Let slot rhs' body', nl2))"
| "thread_children f (Case scrut alts d) nl =
     (let (alts', nl1) = thread_alts f alts nl; (d', nl2) = f d nl1 in (Case scrut alts' d', nl2))"
| "thread_children f (Handle body cls els) nl = (let (body', nl1) = f body nl in (Handle body' cls els, nl1))"
| "thread_children f (Defer cleanup body) nl = (let (body', nl1) = f body nl in (Defer cleanup body', nl1))"
| "thread_children f (Drop slots body) nl = (let (body', nl1) = f body nl in (Drop slots body', nl1))"
| "thread_children f e nl = (e, nl)"

lemma thread_alts_cong:
  "(\<And>c n. c \<in> alt_body ` set as \<Longrightarrow> f c n = g c n) \<Longrightarrow> thread_alts f as nl = thread_alts g as nl"
  by (induction as arbitrary: nl) (auto split: prod.splits)

lemma thread_children_cong [fundef_cong]:
  assumes "e = e'" and "nl = nl'" and "\<And>c n. c \<in> set (ir_children e') \<Longrightarrow> f c n = g c n"
  shows "thread_children f e nl = thread_children g e' nl'"
  unfolding assms(1,2)
proof (cases e')
  case (Case scrut alts d)
  then show "thread_children f e' nl' = thread_children g e' nl'"
    using assms(3) thread_alts_cong [of alts f g nl'] by auto
qed (use assms(3) in auto)

text \<open>
  The rewriting of a node adds and removes drops below it, so the walk ends because
  it passes fewer nodes that are not drops each time, or leaves a drop.
\<close>

fun weight :: "irexpr \<Rightarrow> nat" where
  "weight e = (case e of Drop _ _ \<Rightarrow> 0 | _ \<Rightarrow> 1) + sum_list (map weight (ir_children e))"

declare weight.simps [simp del]

lemma weight_simps [simp]:
  "weight (Ret a) = 1" "weight (App f x t l) = 1" "weight (MkStruct n base sfs) = 1" "weight (Field a n) = 1"
  "weight (MkVariant ty tag fs reuse) = 1" "weight (MkTuple fs) = 1" "weight (IFault msg) = 1"
  "weight (Let s r b) = Suc (weight r + weight b)"
  "weight (Case a alts d) = Suc (sum_list (map (\<lambda>l. weight (alt_body l)) alts) + weight d)"
  "weight (Handle b cls els) = Suc (weight b)" "weight (Defer c b) = Suc (weight b)"
  "weight (Drop ss b) = weight b"
  by (subst weight.simps; simp add: comp_def)+

lemma weight_with_drops [simp]: "weight (with_drops ss b) = weight b"
  by (cases b) (simp_all add: with_drops.simps)

lemma weight_take_drop [simp]: "weight (snd (take_drop b s)) = weight b"
  by (cases "(b, s)" rule: take_drop.cases) (auto simp: Let_def)

lemma weight_take_con [simp]: "weight (snd (take_con b n t)) = weight b"
  by (cases "(b, n, t)" rule: take_con.cases) auto

lemma weight_taken:
  "take_drop b s = (found, b') \<Longrightarrow> weight b' = weight b"
  "take_con b n t = (took, b') \<Longrightarrow> weight b' = weight b"
  by (metis snd_conv weight_take_drop) (metis snd_conv weight_take_con)

lemma weight_end_token [simp]: "weight (end_token t r) = weight (snd r)"
  by (simp add: end_token_def)

lemma weight_claim [simp]: "weight (snd (claim b n t)) = weight b"
proof (induction b n t rule: claim.induct)
  case (2 slot rhs body arity token)
  then show ?case
    by (auto dest: weight_taken split: prod.splits)
next
  case (4 scrut alts d arity token)
  then show ?case
    by (simp add: Let_def comp_def cong: map_cong)
qed (auto split: prod.splits)

lemma weight_claimed: "claim b n t = (took, b') \<Longrightarrow> weight b' = weight b"
  by (metis snd_conv weight_claim)

lemma weight_consume_alt: "weight (alt_body (fst (consume_alt moved held a nl))) = weight (alt_body a)"
proof -
  have "weight (snd (dies_in moved held a)) = weight (alt_body a)"
    by (auto simp: dies_in_def dest: weight_taken split: option.splits prod.splits)
  then show ?thesis
    by (auto simp: consume_alt_def dest: weight_claimed split: option.splits prod.splits)
qed

lemma weight_consume_alts:
  "map (\<lambda>l. weight (alt_body l)) (fst (consume_alts moved held alts nl)) = map (\<lambda>l. weight (alt_body l)) alts"
proof (induction alts arbitrary: nl)
  case (Cons a alts)
  then show ?case using weight_consume_alt [of moved held a nl]
    by (auto split: prod.splits) (metis fst_conv)+
qed simp

lemma weight_consume_node: "weight (fst (consume_node e nl)) = weight e"
proof (cases e)
  case (Case scrut alts d)
  then show ?thesis
    using weight_consume_alts [of "moved_scrut scrut alts" "held_scrut scrut" alts nl]
    by (auto simp: Let_def split: prod.splits option.splits)
qed simp_all

lemma weight_child: "c \<in> set (ir_children e) \<Longrightarrow> (\<nexists>ss b. e = Drop ss b) \<Longrightarrow> weight c < weight e"
proof (cases e)
  case (Case scrut alts d)
  have "weight (alt_body a) \<le> (\<Sum>l\<leftarrow>alts. weight (alt_body l))" if "a \<in> set alts" for a
    using that by (intro member_le_sum_list) auto
  moreover assume "c \<in> set (ir_children e)"
  ultimately show ?thesis using Case by fastforce
qed auto

lemma consume_node_other: "(\<nexists>a alts d. e = Case a alts d) \<Longrightarrow> consume_node e nl = (e, nl)"
  by (cases e) auto

function consume_scrutinees :: "irexpr \<Rightarrow> nat \<Rightarrow> irexpr \<times> nat" where
  "consume_scrutinees e nl = (let (e1, nl1) = consume_node e nl in thread_children consume_scrutinees e1 nl1)"
  by pat_completeness auto
termination
proof (relation "measures [\<lambda>(e, nl). weight e, \<lambda>(e, nl). size e]", goal_cases)
  case (2 e nl r e1 nl1 c n)
  then have e1: "fst (consume_node e nl) = e1" by (metis fst_conv)
  show ?case
  proof (cases "\<exists>ss b. e = Drop ss b")
    case True
    then show ?thesis using 2 by auto
  next
    case False
    then have "\<nexists>ss b. e1 = Drop ss b"
      using 2 by (cases e) (auto simp: Let_def split: prod.splits option.splits)
    then show ?thesis using 2 weight_child weight_consume_node [of e nl] e1 by fastforce
  qed
qed simp

declare consume_scrutinees.simps [simp del]

section \<open>Codes\<close>

definition pinned_in :: "code \<Rightarrow> live" where
  "pinned_in c = handler_reads (code_body c) \<union> PLocal ` set (filter ((!) (borrowed c)) [0..<nparams c])"

text \<open>Reading \<^verbatim>\<open>code.borrowed[p]\<close> panics when a parameter has no flag.\<close>

definition own_code :: "code \<Rightarrow> code option" where
  "own_code c = do {
     _ \<leftarrow> (if nparams c \<le> length (borrowed c) then Some () else None);
     (body, f) \<leftarrow> own_expr (code_body c) (pinned_in c);
     let dead_params = filter (\<lambda>p. PLocal p \<notin> fl_live f) [0..<nparams c];
     let (body', nl) = consume_scrutinees (with_drops dead_params body) (nlocals c);
     Some (c\<lparr>nlocals := nl, code_body := body'\<rparr>)
   }"

definition insert_moves_and_drops :: "code list \<Rightarrow> code list option" where
  "insert_moves_and_drops codes = those (map own_code codes)"

end
