(* ===== verification/Ownership_Safe.thy ===== *)
theory Ownership_Safe
  imports Ownership
begin

text \<open>
  What the marks of the ownership walk promise, stated on the paths through an
  expression: a path carries the set of slots that hold a reference. Reading a slot
  that holds none, or moving a slot another operand of the same node reads, makes
  the path \<open>None\<close>; a fault ends it. No path of a marked expression is \<open>None\<close>, and
  the slots it leaves full are those the source exempts.
\<close>

section \<open>Paths\<close>

definition slots_moved :: "atom list \<Rightarrow> nat list" where
  "slots_moved as = List.map_filter (\<lambda>a. case a of Move s \<Rightarrow> Some s | _ \<Rightarrow> None) (concat (map leaves as))"

text \<open>
  The operands of one node, evaluated in no fixed order; a slot the node lends is
  read until the node is done, so it counts as one more occurrence.
\<close>

definition take_operands :: "atom list \<Rightarrow> place option \<Rightarrow> nat set \<Rightarrow> nat set option" where
  "take_operands as lent H =
     (if list_all (\<lambda>v. case v of PLocal s \<Rightarrow> s \<in> H | PEnv _ \<Rightarrow> True) (occurrences as lent)
         \<and> list_all (\<lambda>s. count_list (occurrences as lent) (PLocal s) = 1) (slots_moved as)
      then Some (H - set (slots_moved as)) else None)"

definition bound_by :: "'e alt \<Rightarrow> nat set" where
  "bound_by a = (\<lambda>i. binder_base a + i) ` {i. i < length (binders a) \<and> binders a ! i \<noteq> None}"

definition enter_alt :: "'e alt \<Rightarrow> nat set \<Rightarrow> nat set option" where
  "enter_alt a H =
     (case alt_unpack a of
        Borrow \<Rightarrow> Some (H \<union> bound_by a)
      | Consume s token \<Rightarrow>
          if s \<in> H then Some ((H - {s}) \<union> bound_by a \<union> set_option token) else None)"

text \<open>\<open>followed P o\<close>: the path goes on with \<open>P\<close> from the slots \<open>o\<close> leaves full.\<close>

definition followed :: "(nat set \<Rightarrow> nat set option set) \<Rightarrow> nat set option \<Rightarrow> nat set option set" where
  "followed P r = (case r of None \<Rightarrow> {None} | Some H \<Rightarrow> P H)"

fun paths :: "irexpr \<Rightarrow> nat set \<Rightarrow> nat set option set" where
  "paths (Let s r b) H = (\<Union>o1 \<in> paths r (insert s H). followed (\<lambda>H1. paths b (insert s H1)) o1)"
| "paths (App f x tail lend) H = {take_operands [f, x] (if lend then var_of x else None) H}"
| "paths (Case a alts d) H =
     followed (\<lambda>H1. (\<Union>l \<in> set alts. followed (paths (alt_body l)) (enter_alt l H1)) \<union> paths d H1)
       (take_operands [a] None H)"
| "paths (MkVariant ty tag fs reuse) H =
     {case reuse of
        None \<Rightarrow> take_operands fs None H
      | Some t \<Rightarrow> if t \<in> H then take_operands fs None (H - {t}) else None}"
| "paths (Handle b cls els) H = followed (paths b) (take_operands (map hc_fun cls @ [els]) None H)"
| "paths (Defer c b) H = followed (paths b) (take_operands [c] None H)"
| "paths (Drop ss b) H = paths b (H - set ss)"
| "paths (IFault msg) H = {}"
| "paths e H = {take_operands (ir_operands e) None H}"

lemma followed_simps [simp]: "followed P None = {None}" "followed P (Some H) = P H"
  by (simp_all add: followed_def)

lemma with_drops_paths [simp]: "paths (with_drops ss b) H = paths b (H - set ss)"
proof (cases "ss = []")
  case False
  then show ?thesis by (cases b) (simp_all add: with_drops.simps Diff_eq Int_assoc)
qed (simp add: with_drops.simps)

section \<open>One node\<close>

lemma each_var_simps [simp]:
  "each_var [] = []" "each_var (a # as) = List.map_filter var_of (leaves a) @ each_var as"
  by (auto simp: each_var_def List.map_filter_def)

lemma map_filter_append [simp]: "List.map_filter f (xs @ ys) = List.map_filter f xs @ List.map_filter f ys"
  by (simp add: List.map_filter_def)

lemma map_filter_concat: "List.map_filter f (concat xss) = concat (map (List.map_filter f) xss)"
  by (induction xss) auto

lemma each_var_append [simp]: "each_var (as @ bs) = each_var as @ each_var bs"
  by (induction as) auto

lemma slots_moved_simps [simp]:
  "slots_moved [] = []"
  "slots_moved (a # as) = List.map_filter (\<lambda>a. case a of Move s \<Rightarrow> Some s | _ \<Rightarrow> None) (leaves a) @ slots_moved as"
  by (auto simp: slots_moved_def List.map_filter_def)

lemma settle_var: "var_of a = Some v \<Longrightarrow> var_of (settle count out v a) = Some v"
  by (auto simp: settle_def split: place.splits)

lemma settle_leaf: "var_of a = Some v \<Longrightarrow> leaves (settle count out v a) = [settle count out v a]"
  by (cases a) (auto simp: settle_def split: place.splits)

lemma rewrite_leaves:
  "leaves (rewrite_vars (settle count out) a) =
     map (\<lambda>l. case var_of l of Some v \<Rightarrow> settle count out v l | None \<Rightarrow> l) (leaves a)"
proof (induction a)
  case (Clos cd captures)
  then show ?case by (simp add: map_concat comp_def cong: map_cong)
qed (simp_all add: settle_leaf)

lemma rewrite_vars_same: "List.map_filter var_of (leaves (rewrite_vars (settle count out) a)) = List.map_filter var_of (leaves a)"
proof -
  have "List.map_filter var_of (map (\<lambda>l. case var_of l of Some v \<Rightarrow> settle count out v l | None \<Rightarrow> l) ls)
      = List.map_filter var_of ls" for ls
    by (induction ls) (auto simp: List.map_filter_simps settle_var split: option.splits)
  then show ?thesis by (simp add: rewrite_leaves)
qed

lemma each_var_rewritten [simp]: "each_var (map (rewrite_vars (settle count out)) as) = each_var as"
  by (induction as) (simp_all add: rewrite_vars_same)

lemma occurrences_rewritten [simp]:
  "occurrences (map (rewrite_vars (settle count out)) as) lent = occurrences as lent"
  by (simp add: occurrences_def)

lemma reads_in_leaf: "reads_in S a \<Longrightarrow> l \<in> set (leaves a) \<Longrightarrow> reads_in S l"
  by (induction a) (auto simp: list_all_iff)

lemma reads_in_var: "reads_in S a \<Longrightarrow> PLocal s \<in> set (List.map_filter var_of (leaves a)) \<Longrightarrow> s \<in> S"
proof -
  assume "reads_in S a" "PLocal s \<in> set (List.map_filter var_of (leaves a))"
  then obtain l where "reads_in S l" "var_of l = Some (PLocal s)"
    by (auto simp: List.map_filter_def dest: reads_in_leaf)
  then show ?thesis by (cases l) auto
qed

lemma reads_in_vars:
  "list_all (reads_in S) as \<Longrightarrow> PLocal s \<in> set (each_var as) \<Longrightarrow> s \<in> S"
  by (induction as) (auto dest: reads_in_var)

definition node_moves :: "atom list \<Rightarrow> place option \<Rightarrow> live \<Rightarrow> nat set" where
  "node_moves as lent out =
     {s. PLocal s \<in> set (each_var as) \<and> PLocal s \<notin> out \<and> count_list (occurrences as lent) (PLocal s) = 1}"

lemma settled_moves:
  assumes "reads_in S a"
  shows "set (List.map_filter (\<lambda>a. case a of Move s \<Rightarrow> Some s | _ \<Rightarrow> None)
            (leaves (rewrite_vars (settle count out) a)))
       = {s. PLocal s \<in> set (List.map_filter var_of (leaves a)) \<and> PLocal s \<notin> out \<and> count (PLocal s) = 1}"
proof -
  have "set (List.map_filter (\<lambda>a. case a of Move s \<Rightarrow> Some s | _ \<Rightarrow> None)
            (map (\<lambda>l. case var_of l of Some v \<Rightarrow> settle count out v l | None \<Rightarrow> l) ls))
       = {s. PLocal s \<in> set (List.map_filter var_of ls) \<and> PLocal s \<notin> out \<and> count (PLocal s) = 1}"
    if "list_all (reads_in S) ls" for ls
    using that
  proof (induction ls)
    case (Cons l ls)
    then show ?case by (cases l) (auto simp: List.map_filter_simps settle_def)
  qed simp
  moreover have "list_all (reads_in S) (leaves a)"
    using assms reads_in_leaf by (auto simp: list_all_iff)
  ultimately show ?thesis by (simp add: rewrite_leaves)
qed

lemma node_moves_slots:
  assumes "list_all (reads_in S) as"
  shows "set (slots_moved (map (rewrite_vars (settle count out)) as))
       = {s. PLocal s \<in> set (each_var as) \<and> PLocal s \<notin> out \<and> count (PLocal s) = 1}"
  using assms
proof (induction as)
  case (Cons a as)
  then have "list_all (reads_in S) as" "reads_in S a" by simp_all
  from Cons.IH [OF this(1)] settled_moves [OF this(2), of count out] show ?case by (simp del: rewrite_vars.simps) blast
qed simp

text \<open>What one node needs, moves and leaves.\<close>

lemma node_lending_takes:
  assumes "node_lending as lent out = (as', f)" "list_all (reads_in S) as" "set_option lent \<subseteq> set (each_var as)"
    and "locals_in (fl_live f) \<inter> S \<subseteq> H"
  shows "take_operands as' lent H = Some (H - node_moves as lent out)"
proof -
  have as': "as' = map (rewrite_vars (settle (count_list (occurrences as lent)) out)) as"
    and f: "fl_live f = out \<union> set (each_var as)"
    using assms(1) by (auto simp: node_lending_def Let_def)
  have occ: "set (occurrences as lent) = set (each_var as)"
    using assms(3) by (auto simp: occurrences_def split: option.splits)
  have "s \<in> H" if "PLocal s \<in> set (each_var as)" for s
    using assms(4) f that reads_in_vars [OF assms(2) that] by (auto simp: locals_in_def)
  then show ?thesis
    using node_moves_slots [OF assms(2)] occ
    by (auto simp: as' take_operands_def node_moves_def list_all_iff split: place.splits)
qed

lemma node_lending_flow:
  assumes "node_lending as lent out = (as', f)"
  shows "fl_live f = out \<union> set (each_var as)"
    and "length as' = length as"
    and "fl_leftover f = {s. PLocal s \<in> set (each_var as) - out} - node_moves as lent out"
  using assms by (auto simp: node_lending_def Let_def node_moves_def)

section \<open>The walk\<close>

text \<open>
  The input of the pass: no alternative consumes, no constructor reuses, and every
  payload position is bound (match compilation names wildcards).
\<close>

fun fresh_marks :: "irexpr \<Rightarrow> bool" where
  "fresh_marks (Let s r b) = (fresh_marks r \<and> fresh_marks b)"
| "fresh_marks (Case a alts d) =
     (list_all (\<lambda>l. alt_unpack l = Borrow \<and> None \<notin> set (binders l) \<and> fresh_marks (alt_body l)) alts
      \<and> fresh_marks d)"
| "fresh_marks (MkVariant ty tag fs reuse) = (reuse = None)"
| "fresh_marks (Handle b cls els) = fresh_marks b"
| "fresh_marks (Defer c b) = fresh_marks b"
| "fresh_marks (Drop ss b) = False"
| "fresh_marks e = True"

lemma lexical_fresh: "lexical S e \<Longrightarrow> fresh_marks e"
proof (induction e arbitrary: S)
  case (Case a alts d)
  have "fresh_marks (alt_body l)" if "l \<in> set alts" for l
    using Case.IH(1) [OF that, of "alt_body l" "S \<union> alt_slots l"] Case.prems that by (simp add: list_all_iff)
  then show ?case using Case by (auto simp: list_all_iff)
qed auto

text \<open>The slots of recursive bindings, which keep their value until the activation ends.\<close>

fun rec_slots :: "irexpr \<Rightarrow> nat set" where
  "rec_slots (Let s r b) = (if ir_mentions r s then {s} else {}) \<union> rec_slots r \<union> rec_slots b"
| "rec_slots (Case a alts d) = (\<Union>l \<in> set alts. rec_slots (alt_body l)) \<union> rec_slots d"
| "rec_slots (Handle b cls els) = rec_slots b"
| "rec_slots (Defer c b) = rec_slots b"
| "rec_slots (Drop ss b) = rec_slots b"
| "rec_slots e = {}"

definition keeps :: "nat set \<Rightarrow> live \<Rightarrow> irexpr \<Rightarrow> live \<Rightarrow> bool" where
  "keeps S live e' out \<longleftrightarrow>
     (\<forall>H. locals_in live \<inter> S \<subseteq> H \<longrightarrow> (\<forall>r \<in> paths e' H. \<exists>H'. r = Some H' \<and> locals_in out \<inter> S \<subseteq> H'))"

definition frees :: "live \<Rightarrow> irexpr \<Rightarrow> nat set \<Rightarrow> bool" where
  "frees live e' after \<longleftrightarrow>
     (\<forall>H X H'. H \<subseteq> locals_in live \<union> X \<longrightarrow> Some H' \<in> paths e' H \<longrightarrow> H' \<subseteq> after \<union> X)"

definition marked :: "nat set \<Rightarrow> irexpr \<Rightarrow> live \<Rightarrow> irexpr \<Rightarrow> flow \<Rightarrow> bool" where
  "marked S e out e' f \<longleftrightarrow>
     finite (fl_live f) \<and> finite (fl_leftover f)
     \<and> locals_in (fl_live f) \<subseteq> locals_in out \<union> S
     \<and> keeps S (fl_live f) e' out
     \<and> frees (fl_live f) e' (locals_in out \<union> fl_leftover f \<union> rec_slots e)"

lemma locals_in_simps [simp]:
  "locals_in (A \<union> B) = locals_in A \<union> locals_in B" "locals_in (A - B) = locals_in A - locals_in B"
  "locals_in (insert (PLocal s) A) = insert s (locals_in A)" "locals_in {} = {}"
  "locals_in (PLocal ` N) = N"
  by (auto simp: locals_in_def)

lemma locals_in_UN [simp]: "locals_in (\<Union>x \<in> N. F x) = (\<Union>x \<in> N. locals_in (F x))"
  by (auto simp: locals_in_def)

lemma keepsD:
  "keeps S live e' out \<Longrightarrow> locals_in live \<inter> S \<subseteq> H \<Longrightarrow> r \<in> paths e' H \<Longrightarrow>
     \<exists>H'. r = Some H' \<and> locals_in out \<inter> S \<subseteq> H'"
  by (auto simp: keeps_def)

lemma freesD:
  "frees live e' after \<Longrightarrow> H \<subseteq> locals_in live \<union> X \<Longrightarrow> Some H' \<in> paths e' H \<Longrightarrow> H' \<subseteq> after \<union> X"
  by (auto simp: frees_def)

lemma node_marked:
  assumes n: "node_lending as lent out = (as', f)" and r: "list_all (reads_in S) as"
    and l: "set_option lent \<subseteq> set (each_var as)"
    and p: "\<And>H. paths e' H = {take_operands as' lent H}" and fin: "finite out"
  shows "marked S e out e' f"
proof -
  note fl = node_lending_flow [OF n]
  have "locals_in (fl_live f) \<subseteq> locals_in out \<union> S"
    using reads_in_vars [OF r] by (auto simp: fl locals_in_def)
  moreover have "keeps S (fl_live f) e' out"
    using node_lending_takes [OF n r l]
    by (auto simp: keeps_def p fl node_moves_def locals_in_def)
  moreover have "frees (fl_live f) e' (locals_in out \<union> fl_leftover f \<union> rec_slots e)"
  proof -
    have "set (slots_moved as') = node_moves as lent out"
      using node_moves_slots [OF r] n by (auto simp: node_lending_def Let_def node_moves_def)
    then show ?thesis
      by (auto simp: frees_def p fl locals_in_def take_operands_def split: if_splits)
  qed
  moreover have "finite (fl_live f)" "finite (fl_leftover f)"
    using fin by (auto simp: fl intro: finite_subset [OF _ finite_vimageI [of "set (each_var as)" PLocal]] simp: inj_def)
  ultimately show ?thesis by (simp add: marked_def)
qed

lemma finite_locals_in: "finite A \<Longrightarrow> finite (locals_in A)"
  using finite_vimageI [of A PLocal] by (simp add: inj_def vimage_def locals_in_def)

lemma set_sorted [simp]: "finite A \<Longrightarrow> set (sorted_list_of_set A) = A"
  by simp

lemma let_marked:
  assumes b: "marked (insert s S) b (if ir_mentions r s then insert (PLocal s) out else out) b' fb"
    and r: "marked (insert s S) r (insert (PLocal s) (fl_live fb)) r' fr" and s: "s \<notin> S"
  shows "marked S (Let s r b) out
     (Let s r' (with_drops (sorted_list_of_set (fl_leftover fr - locals_in (fl_live fb))
                  @ (if PLocal s \<in> fl_live fb then [] else [s])) b'))
     \<lparr>fl_live = fl_live fr - {PLocal s}, fl_leftover = fl_leftover fb\<rparr>"
proof -
  let ?dead = "sorted_list_of_set (fl_leftover fr - locals_in (fl_live fb)) @ (if PLocal s \<in> fl_live fb then [] else [s])"
  let ?f = "\<lparr>fl_live = fl_live fr - {PLocal s}, fl_leftover = fl_leftover fb\<rparr>"
  have dead: "set ?dead = (fl_leftover fr \<union> {s}) - locals_in (fl_live fb)"
    using r by (auto simp: marked_def locals_in_def)
  have kr: "keeps (insert s S) (fl_live fr) r' (insert (PLocal s) (fl_live fb))"
    and kb: "keeps (insert s S) (fl_live fb) b' (if ir_mentions r s then insert (PLocal s) out else out)"
    and fb: "frees (fl_live fb) b' (locals_in (if ir_mentions r s then insert (PLocal s) out else out)
               \<union> fl_leftover fb \<union> rec_slots b)"
    using b r by (simp_all add: marked_def)
  have keep: "keeps S (fl_live ?f) (Let s r' (with_drops ?dead b')) out"
    unfolding keeps_def
  proof (intro allI impI ballI)
    fix H p assume H: "locals_in (fl_live ?f) \<inter> S \<subseteq> H" and p: "p \<in> paths (Let s r' (with_drops ?dead b')) H"
    have "locals_in (fl_live fr) \<inter> insert s S \<subseteq> insert s H" using H by (auto simp: locals_in_def)
    from p obtain o1 where o1: "o1 \<in> paths r' (insert s H)"
      "p \<in> followed (\<lambda>H1. paths b' (insert s H1 - set ?dead)) o1" by auto
    from keepsD [OF kr \<open>locals_in (fl_live fr) \<inter> insert s S \<subseteq> insert s H\<close> o1(1)]
    obtain H1 where H1: "o1 = Some H1" "insert s (locals_in (fl_live fb)) \<inter> insert s S \<subseteq> H1"
      by auto
    have "locals_in (fl_live fb) \<inter> insert s S \<subseteq> insert s H1 - set ?dead" using H1(2) unfolding dead by auto
    from keepsD [OF kb this] o1(2) H1(1)
    obtain H2 where "p = Some H2" "locals_in (if ir_mentions r s then insert (PLocal s) out else out) \<inter> insert s S \<subseteq> H2"
      by auto
    then show "\<exists>H'. p = Some H' \<and> locals_in out \<inter> S \<subseteq> H'" by (auto split: if_splits)
  qed
  have free: "frees (fl_live ?f) (Let s r' (with_drops ?dead b'))
      (locals_in out \<union> fl_leftover ?f \<union> rec_slots (Let s r b))"
    unfolding frees_def
  proof (intro allI impI)
    fix H X H' assume H: "H \<subseteq> locals_in (fl_live ?f) \<union> X" and p: "Some H' \<in> paths (Let s r' (with_drops ?dead b')) H"
    from p obtain H1 where H1: "Some H1 \<in> paths r' (insert s H)"
      "Some H' \<in> paths b' (insert s H1 - set ?dead)" by (auto simp: followed_def split: option.splits)
    have "insert s H \<subseteq> locals_in (fl_live fr) \<union> insert s X" using H by (auto simp: locals_in_def)
    from freesD [OF _ this H1(1)] r
    have "H1 \<subseteq> insert s (locals_in (fl_live fb)) \<union> fl_leftover fr \<union> rec_slots r \<union> insert s X"
      by (auto simp: marked_def)
    then have "insert s H1 - set ?dead \<subseteq> locals_in (fl_live fb) \<union> (rec_slots r \<union> X)"
      unfolding dead by auto
    from freesD [OF fb this H1(2)] show "H' \<subseteq> locals_in out \<union> fl_leftover ?f \<union> rec_slots (Let s r b) \<union> X"
      by (auto split: if_splits)
  qed
  have "locals_in (fl_live ?f) \<subseteq> locals_in out \<union> S"
    using b r s by (fastforce simp: marked_def split: if_splits simp: locals_in_def)
  then show ?thesis using keep free b r by (simp add: marked_def)
qed

lemma guarded_marked:
  assumes b: "marked S b out b' fb" and n: "node as (fl_live fb) = (as', fi)"
    and rd: "list_all (reads_in S) as"
    and p: "\<And>H. paths e' H = followed (paths (with_drops (sorted_list_of_set (fl_leftover fi)) b')) (take_operands as' None H)"
    and rs: "rec_slots e = rec_slots b"
  shows "marked S e out e' \<lparr>fl_live = fl_live fi, fl_leftover = fl_leftover fb\<rparr>"
proof -
  have "marked S (MkTuple as) (fl_live fb) (MkTuple as') fi"
    using n rd b by (intro node_marked [where lent = None]) (auto simp: node_def marked_def)
  then have lf: "finite (fl_leftover fi)" "finite (fl_live fi)" "locals_in (fl_live fi) \<subseteq> locals_in (fl_live fb) \<union> S"
    and kp: "keeps S (fl_live fi) (MkTuple as') (fl_live fb)"
    and fr: "frees (fl_live fi) (MkTuple as') (locals_in (fl_live fb) \<union> fl_leftover fi)"
    by (auto simp: marked_def)
  have off: "fl_leftover fi \<inter> locals_in (fl_live fb) = {}"
    using node_lending_flow(3) n by (fastforce simp: node_def locals_in_def)
  have "keeps S (fl_live fi) e' out"
    unfolding keeps_def p
  proof (intro allI impI ballI)
    fix H r assume H: "locals_in (fl_live fi) \<inter> S \<subseteq> H"
      and r: "r \<in> followed (paths (with_drops (sorted_list_of_set (fl_leftover fi)) b')) (take_operands as' None H)"
    from keepsD [OF kp H] obtain H1 where H1: "take_operands as' None H = Some H1" "locals_in (fl_live fb) \<inter> S \<subseteq> H1"
      by auto
    then have "locals_in (fl_live fb) \<inter> S \<subseteq> H1 - fl_leftover fi" using off by auto
    from keepsD [OF _ this] b r lf H1 show "\<exists>H'. r = Some H' \<and> locals_in out \<inter> S \<subseteq> H'"
      by (auto simp: marked_def)
  qed
  moreover have "frees (fl_live fi) e' (locals_in out \<union> fl_leftover fb \<union> rec_slots b)"
    unfolding frees_def p
  proof (intro allI impI)
    fix H X H' assume H: "H \<subseteq> locals_in (fl_live fi) \<union> X"
      and r: "Some H' \<in> followed (paths (with_drops (sorted_list_of_set (fl_leftover fi)) b')) (take_operands as' None H)"
    then obtain H1 where H1: "take_operands as' None H = Some H1" "Some H' \<in> paths b' (H1 - fl_leftover fi)"
      using lf by (auto simp: followed_def split: option.splits)
    then have "H1 - fl_leftover fi \<subseteq> locals_in (fl_live fb) \<union> X"
      using freesD [OF fr H, of H1] by auto
    from freesD [OF _ this H1(2)] b show "H' \<subseteq> locals_in out \<union> fl_leftover fb \<union> rec_slots b \<union> X"
      by (auto simp: marked_def)
  qed
  ultimately show ?thesis using lf b rs by (auto simp: marked_def)
qed

text \<open>A branch of a \<^verbatim>\<open>Case\<close> that binds the slots \<open>N\<close>, entered with \<open>B\<close> of them bound.\<close>

lemma drop_dead_paths:
  "finite alive \<Longrightarrow>
     paths (drop_dead alive live own b) H = (if is_fault b then {} else paths b (H - (locals_in (alive - live) - own)))"
  by (cases b) (simp_all add: drop_dead_def finite_locals_in)

lemma branch_keeps:
  assumes m: "marked (S \<union> N) e out b f" and own: "N \<inter> S = {}"
    and al: "finite alive" "fl_live f - PLocal ` N \<subseteq> alive"
    and H: "locals_in alive \<inter> S \<subseteq> H" and B: "N \<inter> locals_in (fl_live f) \<subseteq> B"
    and r: "r \<in> paths (drop_dead alive (fl_live f - PLocal ` N) N b) (H \<union> B)"
  shows "\<exists>H'. r = Some H' \<and> locals_in out \<inter> S \<subseteq> H'"
proof -
  have k: "keeps (S \<union> N) (fl_live f) b out" using m by (simp add: marked_def)
  have "locals_in (fl_live f) \<inter> (S \<union> N) \<subseteq> H \<union> B - (locals_in (alive - (fl_live f - PLocal ` N)) - N)"
    using al(2) H B own by (auto simp: locals_in_def)
  from keepsD [OF k this] r show ?thesis by (auto simp: drop_dead_paths [OF al(1)] split: if_splits)
qed

lemma branch_frees:
  assumes m: "marked (S \<union> N) e out b f" and own: "N \<inter> S = {}"
    and al: "finite alive" "locals_in alive \<subseteq> locals_in out \<union> S"
    and H: "H \<subseteq> locals_in alive \<union> X" and B: "B \<subseteq> locals_in (fl_live f)"
    and r: "Some H' \<in> paths (drop_dead alive (fl_live f - PLocal ` N) N b) (H \<union> B)"
  shows "H' \<subseteq> locals_in out \<union> fl_leftover f \<union> rec_slots e \<union> X"
proof -
  have k: "frees (fl_live f) b (locals_in out \<union> fl_leftover f \<union> rec_slots e)" using m by (simp add: marked_def)
  have "H \<union> B - (locals_in (alive - (fl_live f - PLocal ` N)) - N) \<subseteq> locals_in (fl_live f) \<union> (locals_in out \<union> X)"
    using H B al(2) own by auto
  from freesD [OF k this] r show ?thesis by (auto simp: drop_dead_paths [OF al(1)] split: if_splits)
qed

lemma own_alt_binds:
  assumes "None \<notin> set (binders a)"
  shows "bound_by (own_alt alive a b live) = locals_in live \<inter> alt_slots a"
proof -
  have "binders a ! i \<noteq> None" if "i < length (binders a)" for i using assms that by (metis nth_mem)
  then have "i \<in> bound_by (own_alt alive a b live) \<longleftrightarrow> i \<in> locals_in live \<inter> alt_slots a" for i
    by (auto simp: bound_by_def own_alt_def unbind_def alt_slots_def locals_in_def nth_enumerate_eq image_iff
        intro!: exI [of _ "i - binder_base a"] split: if_splits)
  then show ?thesis by blast
qed

lemma own_alt_simps [simp]:
  "alt_unpack (own_alt alive a b live) = alt_unpack a"
  "alt_body (own_alt alive a b live) = drop_dead alive (alt_live live a) (alt_slots a) b"
  by (simp_all add: own_alt_def)

lemma case_marked:
  assumes arms: "list_all2 (\<lambda>a r. marked (S \<union> alt_slots a) (alt_body a) out (fst r) (snd r)
                    \<and> alt_slots a \<inter> S = {} \<and> alt_unpack a = Borrow \<and> None \<notin> set (binders a)) alts rs"
    and d: "marked S d out d' fd"
    and alive: "alive = (\<Union>(a, _, fa) \<in> set (zip alts rs). alt_live (fl_live fa) a) \<union> fl_live fd"
    and n: "node [scrut] alive = (ss, fs)" and rd: "reads_in S scrut"
  shows "marked S (Case scrut alts d) out
     (Case (ss ! 0) (map (\<lambda>(a, b, fa). own_alt alive a b (fl_live fa)) (zip alts rs)) (drop_dead alive (fl_live fd) {} d'))
     \<lparr>fl_live = fl_live fs, fl_leftover = (\<Union>r \<in> set rs. fl_leftover (snd r)) \<union> fl_leftover fd \<union> fl_leftover fs\<rparr>"
    (is "marked S ?e out ?e' ?f")
proof -
  have arm: "marked (S \<union> alt_slots a) (alt_body a) out b f" "alt_slots a \<inter> S = {}" "alt_unpack a = Borrow"
      "None \<notin> set (binders a)" "a \<in> set alts" "(b, f) \<in> set rs" if "(a, b, f) \<in> set (zip alts rs)" for a b f
    using arms that by (auto simp: list_all2_iff dest: set_zip_leftD set_zip_rightD)
  have rs: "\<exists>a. (a, r) \<in> set (zip alts rs)" if "r \<in> set rs" for r
    using that list_all2_lengthD [OF arms] by (metis in_set_impl_in_set_zip2)
  have fin: "finite alive"
    unfolding alive using arm(1) d by (fastforce simp: marked_def alt_live_def)
  have within: "locals_in alive \<subseteq> locals_in out \<union> S"
  proof -
    have "locals_in (alt_live (fl_live f) a) \<subseteq> locals_in out \<union> S" if "(a, b, f) \<in> set (zip alts rs)" for a b f
      using arm(1) [OF that] by (auto simp: marked_def alt_live_def)
    then show ?thesis using d unfolding alive by (fastforce simp: marked_def)
  qed
  have node: "marked S (MkTuple [scrut]) alive (MkTuple ss) fs"
    using n rd fin by (intro node_marked [where lent = None]) (auto simp: node_def)
  have one: "[ss ! 0] = ss"
    using n by (auto simp: node_def node_lending_def Let_def)
  have kn: "keeps S (fl_live fs) (MkTuple ss) alive"
    and fn: "frees (fl_live fs) (MkTuple ss) (locals_in alive \<union> fl_leftover fs)"
    and fins: "finite (fl_live fs)" "finite (fl_leftover fs)" "locals_in (fl_live fs) \<subseteq> locals_in alive \<union> S"
    using node by (auto simp: marked_def)
  have sub: "fl_live f - PLocal ` alt_slots a \<subseteq> alive" if "(a, b, f) \<in> set (zip alts rs)" for a b f
    unfolding alive using that by (auto simp: alt_live_def)
  have "keeps S (fl_live fs) ?e' out"
    unfolding keeps_def
  proof (intro allI impI ballI)
    fix H r assume H: "locals_in (fl_live fs) \<inter> S \<subseteq> H" and r: "r \<in> paths ?e' H"
    from keepsD [OF kn H] obtain H1 where H1: "take_operands ss None H = Some H1" "locals_in alive \<inter> S \<subseteq> H1" by auto
    then consider a b f where "(a, b, f) \<in> set (zip alts rs)"
        "r \<in> paths (drop_dead alive (alt_live (fl_live f) a) (alt_slots a) b) (H1 \<union> (locals_in (fl_live f) \<inter> alt_slots a))"
      | "r \<in> paths (drop_dead alive (fl_live fd) {} d') (H1 \<union> {})"
      using r arm by (fastforce simp: one enter_alt_def own_alt_binds)
    then show "\<exists>H'. r = Some H' \<and> locals_in out \<inter> S \<subseteq> H'"
    proof cases
      case 1
      show ?thesis
        by (rule branch_keeps [OF arm(1,2) [OF 1(1)] fin sub [OF 1(1)] H1(2) _ 1(2) [unfolded alt_live_def]]) auto
    next
      case 2
      show ?thesis
        by (rule branch_keeps [where N = "{}" and f = fd and B = "{}", OF _ _ fin _ H1(2)]) (use d 2 alive in auto)
    qed
  qed
  moreover have "frees (fl_live fs) ?e' (locals_in out \<union> fl_leftover ?f \<union> rec_slots ?e)"
    unfolding frees_def
  proof (intro allI impI)
    fix H X H' assume H: "H \<subseteq> locals_in (fl_live fs) \<union> X" and r: "Some H' \<in> paths ?e' H"
    then obtain H1 where H1: "take_operands ss None H = Some H1" by (auto simp: one followed_def split: option.splits)
    then have H1': "H1 \<subseteq> locals_in alive \<union> (fl_leftover fs \<union> X)" using freesD [OF fn H, of H1] by auto
    from r H1 consider a b f where "(a, b, f) \<in> set (zip alts rs)"
        "Some H' \<in> paths (drop_dead alive (alt_live (fl_live f) a) (alt_slots a) b) (H1 \<union> (locals_in (fl_live f) \<inter> alt_slots a))"
      | "Some H' \<in> paths (drop_dead alive (fl_live fd) {} d') (H1 \<union> {})"
      using arm by (fastforce simp: one enter_alt_def own_alt_binds)
    then show "H' \<subseteq> locals_in out \<union> fl_leftover ?f \<union> rec_slots ?e \<union> X"
    proof cases
      case 1
      have "H' \<subseteq> locals_in out \<union> fl_leftover f \<union> rec_slots (alt_body a) \<union> (fl_leftover fs \<union> X)"
        by (rule branch_frees [OF arm(1,2) [OF 1(1)] fin within H1' _ 1(2) [unfolded alt_live_def]]) auto
      then show ?thesis using arm(5,6) [OF 1(1)] by fastforce
    next
      case 2
      have "H' \<subseteq> locals_in out \<union> fl_leftover fd \<union> rec_slots d \<union> (fl_leftover fs \<union> X)"
        by (rule branch_frees [where N = "{}" and S = S and b = d' and B = "{}", OF _ _ fin within H1']) (use d 2 in auto)
      then show ?thesis by auto
    qed
  qed
  moreover have "finite (fl_leftover ?f)"
    using fins d rs arm(1) by (fastforce simp: marked_def)
  ultimately show ?thesis using fins within by (auto simp: marked_def)
qed

lemma rewrite_var_of [simp]: "var_of (rewrite_vars (settle count out) a) = var_of a"
  by (cases a) (simp_all add: settle_var)

lemma node_one: "node_lending [a] lent out = (as, f) \<Longrightarrow> [as ! 0] = as"
  by (auto simp: node_lending_def Let_def)

lemma own_expr_marked:
  assumes "lexical S e" "fresh_marks e" "finite out"
  shows "\<exists>e' f. own_expr e out = Some (e', f) \<and> marked S e out e' f"
  using assms
proof (induction e arbitrary: S out)
  case (Ret a)
  then show ?case
    by (auto simp: node_def Let_def node_one split: prod.splits intro!: node_marked [where lent = None])
next
  case (Field a n)
  then show ?case
    by (auto simp: node_def Let_def node_one split: prod.splits intro!: node_marked [where lent = None])
next
  case (App f x tail lend)
  have v: "set_option (if lend then var_of x else None) \<subseteq> set (each_var [f, x])"
    by (cases x) (auto simp: List.map_filter_simps)
  obtain as' fl where n: "node_lending [f, x] (if lend then var_of x else None) out = (as', fl)" by fastforce
  moreover have "as' = [as' ! 0, as' ! 1]" using n by (auto simp: node_lending_def Let_def)
  moreover have "var_of (as' ! 1) = var_of x"
    using n by (auto simp: node_lending_def Let_def)
  ultimately show ?case using App v by (auto intro!: node_marked)
next
  case (MkStruct n base fs)
  show ?case
  proof (cases base)
    case None
    obtain as f where nd: "node_lending (map snd fs) None out = (as, f)" by fastforce
    then have "length as = length fs" by (auto dest: node_lending_flow(2))
    then show ?thesis using None MkStruct nd
      by (auto simp: node_def list_all_iff intro!: node_marked [where lent = None])
  next
    case (Some b)
    obtain as f where nd: "node_lending (b # map snd fs) None out = (as, f)" by fastforce
    then have len: "length as = Suc (length fs)" by (auto dest: node_lending_flow(2))
    then have "hd as # tl as = as" by (cases as) auto
    then show ?thesis using Some MkStruct nd len
      by (auto simp: node_def list_all_iff intro!: node_marked [where lent = None])
  qed
next
  case (Let s r b)
  let ?bo = "if ir_mentions r s then insert (PLocal s) out else out"
  have "finite ?bo" using Let.prems by simp
  with Let.IH(2) [of "insert s S" ?bo] Let.prems obtain b' fb
    where b: "own_expr b ?bo = Some (b', fb)" "marked (insert s S) b ?bo b' fb" by fastforce
  have "finite (insert (PLocal s) (fl_live fb))" using b(2) by (simp add: marked_def)
  with Let.IH(1) [of "insert s S" "insert (PLocal s) (fl_live fb)"] Let.prems obtain r' fr
    where r: "own_expr r (insert (PLocal s) (fl_live fb)) = Some (r', fr)"
      "marked (insert s S) r (insert (PLocal s) (fl_live fb)) r' fr" by auto
  show ?case using let_marked [OF b(2) r(2)] b(1) r(1) Let.prems by (simp add: Let_def)
next
  case (Case a alts d)
  let ?P = "\<lambda>l r. marked (S \<union> alt_slots l) (alt_body l) out (fst r) (snd r)
     \<and> alt_slots l \<inter> S = {} \<and> alt_unpack l = Borrow \<and> None \<notin> set (binders l)"
  have "\<exists>r. own_expr (alt_body l) out = Some r \<and> ?P l r" if "l \<in> set alts" for l
    using Case.IH(1) [of l "alt_body l" "S \<union> alt_slots l" out] that Case.prems
    by (fastforce simp: list_all_iff)
  then obtain rs where rs: "those (map (\<lambda>l. own_expr (alt_body l) out) alts) = Some rs" "list_all2 ?P alts rs"
    using those_map_all2 [of alts "\<lambda>l. own_expr (alt_body l) out" ?P] by blast
  from Case.IH(2) [of S out] Case.prems obtain d' fd where d: "own_expr d out = Some (d', fd)" "marked S d out d' fd" by auto
  let ?alive = "(\<Union>(a, _, fa) \<in> set (zip alts rs). alt_live (fl_live fa) a) \<union> fl_live fd"
  obtain ss fs where n: "node [a] ?alive = (ss, fs)" by fastforce
  show ?case
    using case_marked [OF rs(2) d(2) refl n] rs(1) d(1) n Case.prems by (auto simp: Let_def)
next
  case (Handle b cls els)
  from Handle.IH [of S out] Handle.prems obtain b' fb
    where b: "own_expr b out = Some (b', fb)" "marked S b out b' fb" by auto
  obtain as fi where n: "node (map hc_fun cls @ [els]) (fl_live fb) = (as, fi)" by fastforce
  then have len: "length as = Suc (length cls)" by (auto simp: node_def dest: node_lending_flow(2))
  then have "as \<noteq> []" by auto
  then have "map hc_fun (map2 (\<lambda>c a. HandleClause (hc_effect c) (hc_op c) a (hc_resume c)) cls (butlast as)) @ [last as] = as"
    using len append_butlast_last_id [of as] by (simp add: comp_def case_prod_beta')
  then show ?case using b n Handle.prems
    by (auto simp del: with_drops_paths simp: list_all_iff intro!: guarded_marked [OF b(2) n])
next
  case (Defer c b)
  from Defer.IH [of S out] Defer.prems obtain b' fb
    where b: "own_expr b out = Some (b', fb)" "marked S b out b' fb" by auto
  obtain as fi where n: "node [c] (fl_live fb) = (as, fi)" by fastforce
  moreover have "as = [as ! 0]" using n by (auto simp: node_def node_lending_def Let_def)
  ultimately show ?case using b Defer.prems
    by (auto simp del: with_drops_paths intro!: guarded_marked [OF b(2) n])
next
  case (IFault msg)
  then show ?case by (simp add: marked_def keeps_def frees_def)
qed (auto simp: node_def Let_def split: prod.splits intro!: node_marked [where lent = None])

end
