(* ===== verification/Ownership_Reuse.thy ===== *)
theory Ownership_Reuse
  imports Ownership_Safe
begin

text \<open>
  The second walk of the ownership pass changes no path: a scrutinee that moved is
  consumed by the alternatives instead, a drop at the head of an alternative is
  taken by the consumption, and every token a consumption fills is ended, by one
  constructor or one drop, on every path through the alternative.
\<close>

section \<open>The slots of an expression\<close>

fun unpack_slots :: "unpack \<Rightarrow> nat set" where
  "unpack_slots Borrow = {}"
| "unpack_slots (Consume s token) = insert s (set_option token)"

definition read_slots :: "atom list \<Rightarrow> nat set" where
  "read_slots as = locals_in (set (each_var as))"

fun slots_of :: "irexpr \<Rightarrow> nat set" where
  "slots_of (Let s r b) = insert s (slots_of r \<union> slots_of b)"
| "slots_of (Case a alts d) =
     read_slots [a] \<union> (\<Union>l \<in> set alts. alt_slots l \<union> unpack_slots (alt_unpack l) \<union> slots_of (alt_body l)) \<union> slots_of d"
| "slots_of (MkVariant ty tag fs reuse) = read_slots fs \<union> set_option reuse"
| "slots_of (Handle b cls els) = read_slots (map hc_fun cls @ [els]) \<union> slots_of b"
| "slots_of (Defer c b) = read_slots [c] \<union> slots_of b"
| "slots_of (Drop ss b) = set ss \<union> slots_of b"
| "slots_of e = read_slots (ir_operands e)"

lemma slots_moved_read: "set (slots_moved as) \<subseteq> read_slots as"
proof -
  have "s \<in> set (List.map_filter (\<lambda>a. case a of Move s \<Rightarrow> Some s | _ \<Rightarrow> None) ls) \<Longrightarrow>
      PLocal s \<in> set (List.map_filter var_of ls)" for s ls
    by (induction ls) (auto simp: List.map_filter_simps split: atom.splits option.splits)
  then show ?thesis by (auto simp: slots_moved_def read_slots_def each_var_def locals_in_def)
qed

lemma lent_read: "var_of x = Some (PLocal s) \<Longrightarrow> s \<in> read_slots [f, x]"
  by (cases x) (auto simp: read_slots_def locals_in_def List.map_filter_simps)

lemma bound_by_slots: "bound_by l \<subseteq> alt_slots l"
  by (auto simp: bound_by_def alt_slots_def)

lemma take_operands_sub: "take_operands as lent H = Some H' \<Longrightarrow> H' \<subseteq> H"
  by (auto simp: take_operands_def split: if_splits)

lemma enter_alt_sub: "enter_alt l H = Some H' \<Longrightarrow> H' \<subseteq> H \<union> alt_slots l \<union> unpack_slots (alt_unpack l)"
  using bound_by_slots [of l] by (auto simp: enter_alt_def split: unpack.splits if_splits)

lemma paths_sub: "Some H' \<in> paths e H \<Longrightarrow> H' \<subseteq> H \<union> slots_of e"
proof (induction e arbitrary: H H')
  case (Let s r b)
  from Let.prems obtain H1 where "Some H1 \<in> paths r (insert s H)" "Some H' \<in> paths b (insert s H1)"
    by (auto simp: followed_def split: option.splits)
  then show ?case using Let.IH(1) [of H1] Let.IH(2) [of H'] by fastforce
next
  case (Case a alts d)
  from Case.prems obtain H1 where H1: "take_operands [a] None H = Some H1"
    and r: "(\<exists>l \<in> set alts. Some H' \<in> followed (paths (alt_body l)) (enter_alt l H1)) \<or> Some H' \<in> paths d H1"
    by (auto simp: followed_def split: option.splits)
  show ?case
  proof (cases "Some H' \<in> paths d H1")
    case True
    then show ?thesis using Case.IH(2) take_operands_sub [OF H1] by fastforce
  next
    case False
    with r obtain l H2 where "l \<in> set alts" "enter_alt l H1 = Some H2" "Some H' \<in> paths (alt_body l) H2"
      by (auto simp: followed_def split: option.splits)
    then show ?thesis
      using Case.IH(1) [of l "alt_body l" H' H2] enter_alt_sub [of l H1 H2] take_operands_sub [OF H1] by fastforce
  qed
next
  case (Handle b cls els)
  then show ?case using take_operands_sub by (fastforce simp: followed_def split: option.splits)
next
  case (Defer c b)
  then show ?case using take_operands_sub by (fastforce simp: followed_def split: option.splits)
next
  case (Drop ss b)
  from Drop.IH [of H' "H - set ss"] Drop.prems show ?case by auto
qed (auto dest!: sym [of "Some _"] take_operands_sub split: option.splits if_splits)

section \<open>A slot an expression does not name\<close>

lemma take_operands_frame:
  assumes "t \<notin> read_slots as" "lent \<noteq> Some (PLocal t)"
  shows "take_operands as lent (insert t H) = map_option (insert t) (take_operands as lent H)"
proof -
  have "PLocal t \<notin> set (occurrences as lent)" "t \<notin> set (slots_moved as)"
    using assms slots_moved_read by (auto simp: occurrences_def read_slots_def locals_in_def split: option.splits)
  then show ?thesis by (auto simp: take_operands_def list_all_iff split: place.splits)
qed

lemma enter_alt_frame:
  "t \<notin> alt_slots l \<Longrightarrow> t \<notin> unpack_slots (alt_unpack l) \<Longrightarrow>
     enter_alt l (insert t H) = map_option (insert t) (enter_alt l H)"
  by (auto simp: enter_alt_def split: unpack.splits)

lemma followed_frame:
  assumes "\<And>H. P (insert t H) = map_option (insert t) ` Q H"
  shows "followed P (map_option (insert t) r) = map_option (insert t) ` followed Q r"
  using assms by (cases r) auto

lemma paths_frame: "t \<notin> slots_of e \<Longrightarrow> paths e (insert t H) = map_option (insert t) ` paths e H"
proof (induction e arbitrary: H)
  case (Let s r b)
  have "followed (\<lambda>H1. paths b (insert s H1)) (map_option (insert t) o1)
      = map_option (insert t) ` followed (\<lambda>H1. paths b (insert s H1)) o1" for o1
    using Let.IH(2) Let.prems by (intro followed_frame) (simp add: insert_commute [of s t])
  moreover have "paths r (insert s (insert t H)) = map_option (insert t) ` paths r (insert s H)"
    using Let.IH(1) Let.prems by (simp add: insert_commute [of s t])
  ultimately show ?case by (simp add: image_UN)
next
  case (Case a alts d)
  have arm: "followed (paths (alt_body l)) (enter_alt l (insert t H1)) = map_option (insert t) ` followed (paths (alt_body l)) (enter_alt l H1)"
    if "l \<in> set alts" for l H1
    using Case.IH(1) [of l "alt_body l"] Case.prems that enter_alt_frame [of t l H1] by (auto intro!: followed_frame)
  have "take_operands [a] None (insert t H) = map_option (insert t) (take_operands [a] None H)"
    using Case.prems by (intro take_operands_frame) auto
  then show ?case
    using Case.IH(2) Case.prems arm by (simp add: image_UN image_Un followed_frame)
next
  case (MkVariant ty tag fs reuse)
  then have "take_operands fs None (insert t H) = map_option (insert t) (take_operands fs None H)" for H
    by (intro take_operands_frame) auto
  then show ?case using MkVariant by (auto simp: insert_Diff_if split: option.splits)
next
  case (App f x tail lend)
  then show ?case using lent_read [of x t f] by (auto intro!: take_operands_frame)
next
  case (Handle b cls els)
  then show ?case by (simp add: take_operands_frame followed_frame)
next
  case (Defer c b)
  then show ?case by (simp add: take_operands_frame followed_frame)
next
  case (Drop ss b)
  then show ?case by (simp add: insert_Diff_if)
qed (auto simp: take_operands_frame)

section \<open>Claiming a token\<close>

lemma take_con_false: "take_con e n t = (False, e') \<Longrightarrow> e' = e"
  by (cases "(e, n, t)" rule: take_con.cases) (auto split: if_splits)

text \<open>\<^verbatim>\<open>claim\<close> leaves the expression as it was when no constructor took the token.\<close>

lemma claim_false: "\<not> fst (claim e n t) \<Longrightarrow> snd (claim e n t) = e"
proof (induction e n t rule: claim.induct)
  case (1 ty tag fs reuse n t)
  then show ?case using take_con_false [of "MkVariant ty tag fs reuse" n t] by (metis claim.simps(1) prod.collapse)
next
  case (2 s r b n t)
  then show ?case using take_con_false [of r n t] by (auto split: prod.splits if_splits)
next
  case (4 scrut alts d n t)
  then have "map (\<lambda>a. with_body a (snd (claim (alt_body a) n t))) alts = alts"
    by (intro map_idI) (auto simp: Let_def list_ex_iff with_body_def split: if_splits)
  with 4 show ?case by (simp add: Let_def split: if_splits)
qed (auto split: prod.splits)

lemma take_con_paths:
  assumes "take_con e n t = (True, e')" "t \<notin> slots_of e" "t \<notin> H"
  shows "paths e' (insert t H) = paths e H"
  using assms by (cases "(e, n, t)" rule: take_con.cases) (auto split: if_splits)

lemma end_token_paths:
  assumes "fst r \<Longrightarrow> paths (snd r) (insert t H) = paths e H" "\<not> fst r \<Longrightarrow> snd r = e" "t \<notin> H"
  shows "paths (end_token t r) (insert t H) = paths e H"
proof (cases "fst r")
  case False
  then show ?thesis using assms by (cases e) (simp_all add: end_token_def)
qed (simp add: end_token_def assms)

lemma with_body_bound [simp]: "bound_by (with_body l b) = bound_by l"
  by (simp add: bound_by_def)

lemma with_body_enter [simp]: "enter_alt (with_body l b) H = enter_alt l H"
  by (simp add: enter_alt_def split: unpack.splits)

lemma not_in_entered:
  "enter_alt l H = Some H' \<Longrightarrow> t \<notin> H \<Longrightarrow> t \<notin> alt_slots l \<Longrightarrow> t \<notin> unpack_slots (alt_unpack l) \<Longrightarrow> t \<notin> H'"
  using enter_alt_sub by blast

lemma claim_paths:
  "fst (claim e n t) \<Longrightarrow> t \<notin> slots_of e \<Longrightarrow> t \<notin> H \<Longrightarrow> paths (snd (claim e n t)) (insert t H) = paths e H"
proof (induction e n t arbitrary: H rule: claim.induct)
  case (1 ty tag fs reuse n t)
  then show ?case
    using take_con_paths [of "MkVariant ty tag fs reuse" n t "snd (take_con (MkVariant ty tag fs reuse) n t)" H]
    by (simp add: prod_eq_iff del: take_con.simps)
next
  case (2 s r b n t)
  then have st: "s \<noteq> t" by auto
  obtain took r' where r: "take_con r n t = (took, r')" by fastforce
  show ?case
  proof (cases took)
    case True
    then have "paths r' (insert t (insert s H)) = paths r (insert s H)"
      using 2 r st by (intro take_con_paths) auto
    then show ?thesis
      using True r 2(3) paths_sub [of _ r "insert s H"] st
      by (auto simp: insert_commute [of s t])
  next
    case False
    then have b: "fst (claim b n t)" "snd (claim (Let s r b) n t) = Let s r (snd (claim b n t))"
      using 2(2) r take_con_false [of r n t] by (auto split: prod.splits)
    have "followed (\<lambda>H1. paths (snd (claim b n t)) (insert s H1)) (map_option (insert t) o1)
        = followed (\<lambda>H1. paths b (insert s H1)) o1" if "o1 \<in> paths r (insert s H)" for o1
    proof (cases o1)
      case (Some H1)
      then have "t \<notin> insert s H1" using that paths_sub 2(3,4) st by fastforce
      then show ?thesis using 2(1) r False b(1) 2(3) Some by (simp add: insert_commute [of s t])
    qed simp
    moreover have "paths r (insert s (insert t H)) = map_option (insert t) ` paths r (insert s H)"
      using 2(3) by (simp add: insert_commute [of s t] paths_frame)
    ultimately show ?thesis using b(2) by simp
  qed
next
  case (3 ss b n t)
  then show ?case by (auto simp: insert_Diff_if split: prod.splits)
next
  case (4 a alts d n t)
  let ?c = "\<lambda>l. claim (alt_body l) n t"
  have eq: "snd (claim (Case a alts d) n t) =
      Case a (map (\<lambda>l. with_body l (end_token t (?c l))) alts) (end_token t (claim d n t))"
    using "4.prems"(1) by (cases "list_ex (\<lambda>a. fst (claim (alt_body a) n t)) alts \<or> fst (claim d n t)") (auto simp: Let_def)
  have d: "paths (end_token t (claim d n t)) (insert t H1) = paths d H1" if "t \<notin> H1" for H1
    using 4 that claim_false [of d n t] by (intro end_token_paths) auto
  have arm: "followed (paths (end_token t (?c l))) (enter_alt l (insert t H1)) = followed (paths (alt_body l)) (enter_alt l H1)"
    if "l \<in> set alts" "t \<notin> H1" for l H1
  proof -
    have off: "t \<notin> alt_slots l" "t \<notin> unpack_slots (alt_unpack l)" "t \<notin> slots_of (alt_body l)"
      using "4.prems"(2) that by auto
    have "paths (end_token t (?c l)) (insert t H2) = paths (alt_body l) H2" if "t \<notin> H2" for H2
      using "4.IH" \<open>l \<in> set alts\<close> off that claim_false [of "alt_body l" n t] by (intro end_token_paths) auto
    then show ?thesis
      using enter_alt_frame [OF off(1,2), of H1] not_in_entered [OF _ that(2) off(1,2)]
      by (cases "enter_alt l H1") auto
  qed
  have fr: "take_operands [a] None (insert t H) = map_option (insert t) (take_operands [a] None H)"
    using "4.prems"(2) by (intro take_operands_frame) auto
  then show ?case
  proof (cases "take_operands [a] None H")
    case (Some H1)
    then have "t \<notin> H1" using "4.prems"(3) take_operands_sub by blast
    moreover have "take_operands [a] None (insert t H) = Some (insert t H1)" using fr Some by simp
    ultimately show ?thesis using d arm Some unfolding eq by simp
  qed (simp add: eq del: claim.simps)
qed simp_all

section \<open>Consuming a scrutinee\<close>

text \<open>
  What the walk finds: no alternative consumes yet, a scrutinee is no binder of its
  alternatives, and a drop names each slot once.
\<close>

fun tidy :: "irexpr \<Rightarrow> bool" where
  "tidy (Let s r b) = (tidy r \<and> tidy b)"
| "tidy (Case a alts d) =
     (list_all (\<lambda>l. alt_unpack l = Borrow \<and> read_slots [a] \<inter> alt_slots l = {} \<and> tidy (alt_body l)) alts \<and> tidy d)"
| "tidy (Handle b cls els) = tidy b"
| "tidy (Defer c b) = tidy b"
| "tidy (Drop ss b) = (distinct ss \<and> tidy b)"
| "tidy e = True"

lemma sorted_remdups_adj_distinct: "sorted xs \<Longrightarrow> distinct (remdups_adj xs)" for xs :: "nat list"
  by (induction xs rule: remdups_adj.induct) (auto simp: order_le_less)

lemma remdups_adj_sort [simp]: "distinct (remdups_adj (sort xs))" for xs :: "nat list"
  by (rule sorted_remdups_adj_distinct) simp

lemma with_drops_tidy [simp]: "tidy b \<Longrightarrow> tidy (with_drops ss b)"
  by (cases b) (auto simp: with_drops.simps)

lemma with_drops_slots: "slots_of (with_drops ss b) = set ss \<union> slots_of b"
  by (cases b) (auto simp: with_drops.simps)

lemma end_token_slots: "slots_of (end_token t r) \<subseteq> insert t (slots_of (snd r))"
  by (auto simp: end_token_def with_drops_slots)

lemma take_con_slots: "slots_of (snd (take_con e n t)) \<subseteq> insert t (slots_of e)"
  by (cases "(e, n, t)" rule: take_con.cases) auto

lemma take_con_tidy [simp]: "tidy (snd (take_con e n t)) = tidy e"
  by (cases "(e, n, t)" rule: take_con.cases) auto

lemma case_slots_mono:
  assumes l: "\<And>l. l \<in> set alts \<Longrightarrow> slots_of (B l) \<subseteq> insert t (slots_of (alt_body l))"
    and d: "slots_of d' \<subseteq> insert t (slots_of d)"
  shows "slots_of (Case a (map (\<lambda>l. with_body l (B l)) alts) d') \<subseteq> insert t (slots_of (Case a alts d))"
proof
  fix x assume "x \<in> slots_of (Case a (map (\<lambda>l. with_body l (B l)) alts) d')"
  then consider "x \<in> read_slots [a]" | m where "m \<in> set alts" "x \<in> alt_slots m \<union> unpack_slots (alt_unpack m)"
    | m where "m \<in> set alts" "x \<in> slots_of (B m)" | "x \<in> slots_of d'" by auto
  then show "x \<in> insert t (slots_of (Case a alts d))" by cases (use l d in auto)
qed

lemma claim_slots: "slots_of (snd (claim e n t)) \<subseteq> insert t (slots_of e)"
proof (induction e n t rule: claim.induct)
  case (1 ty tag fs reuse n t)
  then show ?case using take_con_slots [of "MkVariant ty tag fs reuse" n t] by (simp del: take_con.simps)
next
  case (2 s r b n t)
  obtain took r' where r: "take_con r n t = (took, r')" by fastforce
  moreover have "slots_of (snd (claim b n t)) \<subseteq> insert t (slots_of b)" if "\<not> took"
    using "2.IH" r that by simp
  ultimately show ?case using take_con_slots [of r n t] by (auto split: prod.splits)
next
  case (4 a alts d n t)
  have l: "slots_of (snd (claim (alt_body l) n t)) \<subseteq> insert t (slots_of (alt_body l))" if "l \<in> set alts" for l
    using "4.IH" that by simp
  have "slots_of (end_token t (claim d n t)) \<subseteq> insert t (slots_of d)"
    by (rule order_trans [OF end_token_slots]) (use "4.IH" in simp)
  moreover have "slots_of (end_token t (claim (alt_body l) n t)) \<subseteq> insert t (slots_of (alt_body l))"
    if "l \<in> set alts" for l
    by (rule order_trans [OF end_token_slots]) (use l [OF that] in simp)
  ultimately have "slots_of (Case a (map (\<lambda>l. with_body l (end_token t (claim (alt_body l) n t))) alts) (end_token t (claim d n t)))
      \<subseteq> insert t (slots_of (Case a alts d))"
    by (intro case_slots_mono)
  moreover have "slots_of (Case a (map (\<lambda>l. with_body l (snd (claim (alt_body l) n t))) alts) (snd (claim d n t)))
      \<subseteq> insert t (slots_of (Case a alts d))"
    using "4.IH" l by (intro case_slots_mono) simp_all
  ultimately show ?case by (simp add: Let_def del: slots_of.simps)
qed (auto split: prod.splits)

lemma claim_tidy: "tidy e \<Longrightarrow> tidy (snd (claim e n t))"
proof (induction e n t rule: claim.induct)
  case (1 ty tag fs reuse n t)
  then show ?case using take_con_tidy [of "MkVariant ty tag fs reuse" n t] by (simp del: take_con.simps)
next
  case (2 s r b n t)
  obtain took r' where r: "take_con r n t = (took, r')" by fastforce
  then show ?case using 2 take_con_tidy [of r n t] by (auto split: prod.splits)
next
  case (4 a alts d n t)
  then show ?case by (auto simp: Let_def list_all_iff end_token_def)
qed (auto split: prod.splits)

lemma take_drop_spec:
  assumes "take_drop e s = (True, e')" "tidy e"
  shows "paths e' (H - {s}) = paths e H" "tidy e'" "slots_of e' \<subseteq> slots_of e" "s \<in> slots_of e"
proof -
  obtain ss b where e: "e = Drop ss b" "s \<in> set ss" "e' = (if remove1 s ss = [] then b else Drop (remove1 s ss) b)"
    using assms(1) by (cases "(e, s)" rule: take_drop.cases) (auto simp: Let_def split: if_splits)
  have "H - {s} - set (remove1 s ss) = H - set ss"
    using e assms(2) by (auto simp: set_remove1_eq)
  moreover have "set ss = {s}" if "remove1 s ss = []"
    using that e assms(2) by (metis set_remove1_eq tidy.simps(5) set_empty insert_Diff)
  ultimately show "paths e' (H - {s}) = paths e H" using e by auto
  show "tidy e'" "slots_of e' \<subseteq> slots_of e" "s \<in> slots_of e"
    using e assms(2) by (auto dest: notin_set_remove1)
qed

lemma take_drop_false: "take_drop e s = (False, e') \<Longrightarrow> e' = e"
  by (cases "(e, s)" rule: take_drop.cases) (auto simp: Let_def split: if_splits)

definition alt_all :: "irexpr alt \<Rightarrow> nat set" where
  "alt_all l = alt_slots l \<union> unpack_slots (alt_unpack l) \<union> slots_of (alt_body l)"

definition enter_paths :: "irexpr alt \<Rightarrow> nat set \<Rightarrow> nat set option set" where
  "enter_paths l H = followed (paths (alt_body l)) (enter_alt l H)"

lemma enter_paths_borrow: "alt_unpack l = Borrow \<Longrightarrow> enter_paths l H = paths (alt_body l) (H \<union> bound_by l)"
  by (simp add: enter_paths_def enter_alt_def)

text \<open>An alternative that consumes slot \<open>s\<close>, whose body is \<open>b\<close> once the slot is gone.\<close>

lemma consume_con_spec:
  fixes b :: irexpr
  assumes c: "claim b n nl = (took, b')" and b: "slots_of b \<subseteq> {..<nl}" "tidy b"
    and l: "alt_slots l \<subseteq> {..<nl}" "s < nl"
    and l': "l' = Alt (alt_kind l) (binder_base l) (binders l) b' (Consume s (if took then Some nl else None))"
  shows "alt_all l' \<subseteq> {..<if took then nl + 1 else nl}" "tidy (alt_body l')" "alt_slots l' = alt_slots l"
    and "H \<subseteq> {..<nl} \<Longrightarrow> s \<in> H \<Longrightarrow> enter_paths l' H = paths b (H - {s} \<union> bound_by l)"
proof -
  have cs: "fst (claim b n nl) = took" "snd (claim b n nl) = b'" using c by simp_all
  have bl: "bound_by l' = bound_by l" "alt_body l' = b'" "alt_unpack l' = Consume s (if took then Some nl else None)"
    by (simp_all add: l' bound_by_def)
  show "alt_all l' \<subseteq> {..<if took then nl + 1 else nl}"
    using claim_slots [of b n nl] claim_false [of b n nl] b(1) l cs
    by (cases took) (force simp: alt_all_def l' alt_slots_def)+
  show "tidy (alt_body l')" using claim_tidy [OF b(2), of n nl] by (simp add: l' cs)
  show "alt_slots l' = alt_slots l" by (simp add: l' alt_slots_def)
  show "enter_paths l' H = paths b (H - {s} \<union> bound_by l)" if H: "H \<subseteq> {..<nl}" "s \<in> H"
  proof -
    have off: "nl \<notin> slots_of b" "nl \<notin> H - {s} \<union> bound_by l" using b(1) H(1) l(1) bound_by_slots [of l] by auto
    show ?thesis
    proof (cases took)
      case True
      then show ?thesis
        using claim_paths [of b n nl "H - {s} \<union> bound_by l"] off cs H(2)
        by (simp add: enter_paths_def enter_alt_def bl)
    next
      case False
      then show ?thesis using claim_false [of b n nl] cs H(2)
        by (simp add: enter_paths_def enter_alt_def bl)
    qed
  qed
qed

lemma consume_alt_spec:
  assumes l: "alt_unpack l = Borrow" "tidy (alt_body l)" "alt_all l \<subseteq> {..<nl}"
    and off: "\<And>s. moved = Some s \<or> held = Some s \<Longrightarrow> s \<notin> alt_slots l \<and> s < nl"
    and c: "consume_alt moved held l nl = (l', nl')"
  shows "nl \<le> nl'" "alt_all l' \<subseteq> {..<nl'}" "tidy (alt_body l')"
    and "H \<subseteq> {..<nl} \<Longrightarrow> set_option moved \<union> set_option held \<subseteq> H \<Longrightarrow>
      enter_paths l' H = enter_paths l (H - set_option moved)"
proof -
  obtain dead b where d: "dies_in moved held l = (dead, b)" by fastforce
  have sl: "slots_of (alt_body l) \<subseteq> {..<nl}" "alt_slots l \<subseteq> {..<nl}" using l(3) by (auto simp: alt_all_def)
  have *: "nl \<le> nl' \<and> alt_all l' \<subseteq> {..<nl'} \<and> tidy (alt_body l') \<and>
    (H \<subseteq> {..<nl} \<longrightarrow> set_option moved \<union> set_option held \<subseteq> H \<longrightarrow>
      enter_paths l' H = enter_paths l (H - set_option moved))"
  proof (cases dead)
    case None
    then have "moved = None" "b = alt_body l" using d take_drop_false
      by (auto simp: dies_in_def split: option.splits if_splits prod.splits)
    moreover from this have "l' = l" using c d None by (simp add: consume_alt_def with_body_def)
    ultimately show ?thesis using c d None l by (auto simp: consume_alt_def)
  next
    case (Some s)
    have s: "s \<notin> alt_slots l" "s < nl"
      using off d Some by (auto simp: dies_in_def split: option.splits if_splits prod.splits)
    show ?thesis
    proof (cases "is_con (alt_kind l)")
      case True
      obtain took b' where cl: "claim b (length (binders l)) nl = (took, b')" by fastforce
      have l': "l' = Alt (alt_kind l) (binder_base l) (binders l) b' (Consume s (if took then Some nl else None))"
        and nl': "nl' = (if took then nl + 1 else nl)"
        using c d Some True cl by (auto simp: consume_alt_def)
      have sb: "s \<in> H \<Longrightarrow> paths b (H - {s} \<union> bound_by l) = enter_paths l (H - set_option moved)"
        "tidy b" "slots_of b \<subseteq> {..<nl}" "set_option moved \<union> set_option held \<subseteq> H \<Longrightarrow> s \<in> H" for H
      proof -
        consider "moved = Some s" "b = alt_body l"
          | "moved = None" "held = Some s" "take_drop (alt_body l) s = (True, b)"
          using d Some True by (auto simp: dies_in_def split: option.splits if_splits prod.splits)
        then have "(s \<in> H \<longrightarrow> paths b (H - {s} \<union> bound_by l) = enter_paths l (H - set_option moved))
          \<and> tidy b \<and> slots_of b \<subseteq> {..<nl} \<and> (set_option moved \<union> set_option held \<subseteq> H \<longrightarrow> s \<in> H)"
        proof cases
          case 2
          have "H - {s} \<union> bound_by l = (H \<union> bound_by l) - {s}" using s bound_by_slots [of l] by auto
          then show ?thesis using 2 take_drop_spec [OF 2(3) l(2)] sl l(1) by (auto simp: enter_paths_borrow)
        qed (use l sl in \<open>auto simp: enter_paths_borrow\<close>)
        then show "s \<in> H \<Longrightarrow> paths b (H - {s} \<union> bound_by l) = enter_paths l (H - set_option moved)"
          "tidy b" "slots_of b \<subseteq> {..<nl}" "set_option moved \<union> set_option held \<subseteq> H \<Longrightarrow> s \<in> H" by auto
      qed
      show ?thesis
        using consume_con_spec [OF cl sb(3,2) sl(2) s(2) l'] sb(1,4) nl' by auto
    next
      case False
      then have m: "moved = Some s" "b = alt_body l"
        using d Some by (auto simp: dies_in_def split: option.splits if_splits prod.splits)
      have l': "l' = with_body l (if is_fault b then b else with_drops [s] b)" "nl' = nl"
        using c d Some False by (auto simp: consume_alt_def)
      have "H \<union> bound_by l - {s} = H - {s} \<union> bound_by l" using s bound_by_slots [of l] by auto
      moreover have "paths b X = {}" if "is_fault b" for X using that by (cases b) auto
      ultimately show ?thesis using l sl s m l'
        by (auto simp: enter_paths_borrow alt_all_def with_drops_slots)
    qed
  qed
  then show "nl \<le> nl'" "alt_all l' \<subseteq> {..<nl'}" "tidy (alt_body l')"
    "H \<subseteq> {..<nl} \<Longrightarrow> set_option moved \<union> set_option held \<subseteq> H \<Longrightarrow>
      enter_paths l' H = enter_paths l (H - set_option moved)" by blast+
qed

lemma consume_alts_spec:
  assumes "\<forall>l \<in> set alts. alt_unpack l = Borrow \<and> tidy (alt_body l) \<and> alt_all l \<subseteq> {..<nl}
             \<and> (\<forall>s. moved = Some s \<or> held = Some s \<longrightarrow> s \<notin> alt_slots l \<and> s < nl)"
    and "consume_alts moved held alts nl = (alts', nl')"
  shows "nl \<le> nl' \<and> (\<forall>l \<in> set alts'. alt_all l \<subseteq> {..<nl'} \<and> tidy (alt_body l))
     \<and> (\<forall>H. H \<subseteq> {..<nl} \<longrightarrow> set_option moved \<union> set_option held \<subseteq> H \<longrightarrow>
          (\<Union>l \<in> set alts'. enter_paths l H) = (\<Union>l \<in> set alts. enter_paths l (H - set_option moved)))"
  using assms
proof (induction alts arbitrary: nl alts' nl')
  case (Cons l alts)
  obtain l1 n1 where c: "consume_alt moved held l nl = (l1, n1)" by fastforce
  obtain as n2 where r: "consume_alts moved held alts n1 = (as, n2)" by fastforce
  have eq: "alts' = l1 # as" "nl' = n2" using Cons.prems(2) c r by auto
  have l: "alt_unpack l = Borrow" "tidy (alt_body l)" "alt_all l \<subseteq> {..<nl}"
    "\<And>s. moved = Some s \<or> held = Some s \<Longrightarrow> s \<notin> alt_slots l \<and> s < nl" using Cons.prems(1) by auto
  note cs = consume_alt_spec [OF l c]
  have below: "x < n1" if "x < nl" for x using that cs(1) by linarith
  have wide: "X \<subseteq> {..<n1}" if "X \<subseteq> {..<nl}" for X using that cs(1) by auto
  have "\<forall>l \<in> set alts. alt_unpack l = Borrow \<and> tidy (alt_body l) \<and> alt_all l \<subseteq> {..<n1}
             \<and> (\<forall>s. moved = Some s \<or> held = Some s \<longrightarrow> s \<notin> alt_slots l \<and> s < n1)"
    using Cons.prems(1) below wide by simp
  note ih = Cons.IH [OF this r]
  have "alt_all l1 \<subseteq> {..<n2}" using cs(2) ih by fastforce
  moreover have "nl \<le> n2" using cs(1) ih by simp
  ultimately show ?case using cs(3,4) ih wide unfolding eq by simp
qed simp

lemma take_operands_slot:
  "take_operands [Local s] None H = (if s \<in> H then Some H else None)"
  "take_operands [Move s] None H = (if s \<in> H then Some (H - {s}) else None)"
  by (auto simp: take_operands_def occurrences_def List.map_filter_simps)

lemma paths_case:
  "paths (Case a alts d) H =
     followed (\<lambda>H1. (\<Union>l \<in> set alts. enter_paths l H1) \<union> paths d H1) (take_operands [a] None H)"
  by (simp add: enter_paths_def)

lemma slots_of_case: "slots_of (Case a alts d) = read_slots [a] \<union> (\<Union>l \<in> set alts. alt_all l) \<union> slots_of d"
  by (simp add: alt_all_def)

lemma read_slots_slot [simp]: "read_slots [Local s] = {s}" "read_slots [Move s] = {s}"
  by (auto simp: read_slots_def List.map_filter_simps)

definition unchanged :: "irexpr \<Rightarrow> nat \<Rightarrow> irexpr \<Rightarrow> nat \<Rightarrow> bool" where
  "unchanged e nl e' nl' \<longleftrightarrow>
     nl \<le> nl' \<and> slots_of e' \<subseteq> {..<nl'} \<and> (\<forall>H. H \<subseteq> {..<nl} \<longrightarrow> paths e' H = paths e H)"

lemma consume_node_unchanged:
  assumes t: "tidy e" and s: "slots_of e \<subseteq> {..<nl}" and c: "consume_node e nl = (e1, nl1)"
  shows "unchanged e nl e1 nl1 \<and> (\<forall>k \<in> set (ir_children e1). tidy k)"
proof (cases e)
  case (Case a alts d)
  define moved where "moved = moved_scrut a alts"
  define held where "held = held_scrut a"
  obtain alts' where al: "consume_alts moved held alts nl = (alts', nl1)"
    and e1: "e1 = (case moved of None \<Rightarrow> Case a alts' d
                  | Some s \<Rightarrow> Case (Local s) alts' (if is_fault d then d else with_drops [s] d))"
    using c Case by (auto simp: moved_def held_def Let_def split: prod.splits option.splits)
  have scr: "s \<in> read_slots [a] \<and> s < nl" if "moved = Some s \<or> held = Some s" for s
    using that s Case by (auto simp: moved_def held_def moved_scrut_def held_scrut_def split: atom.splits if_splits)
  have pre: "\<forall>l \<in> set alts. alt_unpack l = Borrow \<and> tidy (alt_body l) \<and> alt_all l \<subseteq> {..<nl}
             \<and> (\<forall>s. moved = Some s \<or> held = Some s \<longrightarrow> s \<notin> alt_slots l \<and> s < nl)"
    using t s scr unfolding Case slots_of_case by (fastforce simp: list_all_iff)
  note spec = consume_alts_spec [OF pre al]
  then have le: "nl \<le> nl1" and sl: "(\<Union>l \<in> set alts'. alt_all l) \<subseteq> {..<nl1}"
    and ti: "\<forall>l \<in> set alts'. tidy (alt_body l)"
    and eq: "\<And>H. H \<subseteq> {..<nl} \<Longrightarrow> set_option moved \<union> set_option held \<subseteq> H \<Longrightarrow>
      (\<Union>l \<in> set alts'. enter_paths l H) = (\<Union>l \<in> set alts. enter_paths l (H - set_option moved))" by blast+
  have below: "read_slots [a] \<union> slots_of d \<subseteq> {..<nl1}" using s le unfolding Case slots_of_case by fastforce
  have kids: "tidy d" using t Case by simp
  show ?thesis
  proof (cases moved)
    case None
    have "paths e1 H = paths e H" if H: "H \<subseteq> {..<nl}" for H
    proof (cases "take_operands [a] None H")
      case (Some H1)
      then have "H1 \<subseteq> H" by (rule take_operands_sub)
      moreover have "set_option held \<subseteq> H1"
        using Some by (auto simp: held_def held_scrut_def take_operands_slot split: atom.splits if_splits)
      ultimately have "(\<Union>l \<in> set alts'. enter_paths l H1) = (\<Union>l \<in> set alts. enter_paths l H1)"
        using eq [of H1] H None by auto
      then show ?thesis unfolding e1 None Case option.case paths_case Some by simp
    qed (simp add: e1 None Case)
    moreover have "slots_of e1 \<subseteq> {..<nl1}" unfolding e1 None option.case slots_of_case using sl below by auto
    ultimately show ?thesis using le ti kids by (auto simp: unchanged_def e1 None)
  next
    case (Some s)
    then have a: "a = Move s" "held = None"
      by (auto simp: moved_def moved_scrut_def held_def held_scrut_def split: atom.splits if_splits)
    have "paths e1 H = paths e H" if H: "H \<subseteq> {..<nl}" for H
    proof (cases "s \<in> H")
      case True
      have "paths (if is_fault d then d else with_drops [s] d) H = paths d (H - {s})"
        by (cases d) simp_all
      then show ?thesis
        using eq [OF H] True Some a unfolding e1 Some Case option.case paths_case
        by (simp add: take_operands_slot)
    qed (simp add: e1 Some Case a take_operands_slot)
    moreover have "slots_of e1 \<subseteq> {..<nl1}"
      unfolding e1 Some option.case slots_of_case using sl below a by (auto simp: with_drops_slots)
    ultimately show ?thesis using le ti kids by (auto simp: unchanged_def e1 Some)
  qed
qed (use assms in \<open>auto simp: unchanged_def\<close>)

section \<open>The second walk\<close>

lemma unchangedD:
  assumes "unchanged e nl e' nl'"
  shows "nl \<le> nl'" "slots_of e' \<subseteq> {..<nl'}" "H \<subseteq> {..<nl} \<Longrightarrow> paths e' H = paths e H"
  using assms by (auto simp: unchanged_def)

lemma unchanged_later: "unchanged e nl e' nl' \<Longrightarrow> n \<le> nl \<Longrightarrow> H \<subseteq> {..<n} \<Longrightarrow> paths e' H = paths e H"
  by (erule unchangedD(3)) auto

lemma followed_cong: "(\<And>H. r = Some H \<Longrightarrow> P H = Q H) \<Longrightarrow> followed P r = followed Q r"
  by (cases r) auto

lemma thread_alts_spec:
  assumes "\<forall>l \<in> set alts. \<forall>n \<ge> nl. unchanged (alt_body l) n (fst (f (alt_body l) n)) (snd (f (alt_body l) n))"
    and "\<forall>l \<in> set alts. alt_all l \<subseteq> {..<nl}" and "thread_alts f alts nl = (alts', nl')"
  shows "nl \<le> nl' \<and> (\<forall>l \<in> set alts'. alt_all l \<subseteq> {..<nl'})
     \<and> (\<forall>H. H \<subseteq> {..<nl} \<longrightarrow> (\<Union>l \<in> set alts'. enter_paths l H) = (\<Union>l \<in> set alts. enter_paths l H))"
  using assms
proof (induction alts arbitrary: nl alts' nl')
  case (Cons l alts)
  obtain b n1 where b: "f (alt_body l) nl = (b, n1)" by fastforce
  obtain as n2 where r: "thread_alts f alts n1 = (as, n2)" by fastforce
  have eq: "alts' = with_body l b # as" "nl' = n2" using Cons.prems(3) b r by auto
  have "unchanged (alt_body l) nl (fst (f (alt_body l) nl)) (snd (f (alt_body l) nl))"
    using Cons.prems(1) by simp
  then have u: "unchanged (alt_body l) nl b n1" using b by simp
  note le = unchangedD(1) [OF u]
  have wide: "X \<subseteq> {..<n1}" if "X \<subseteq> {..<nl}" for X using that le by auto
  have ih: "n1 \<le> n2 \<and> (\<forall>l \<in> set as. alt_all l \<subseteq> {..<n2})
     \<and> (\<forall>H. H \<subseteq> {..<n1} \<longrightarrow> (\<Union>l \<in> set as. enter_paths l H) = (\<Union>l \<in> set alts. enter_paths l H))"
    using Cons.prems le wide by (intro Cons.IH [OF _ _ r]) auto
  have l: "alt_all l \<subseteq> {..<nl}" using Cons.prems(2) by simp
  have "alt_all (with_body l b) \<subseteq> {..<n1}"
    using wide [OF l] unchangedD(2) [OF u] by (auto simp: alt_all_def)
  then have "alt_all (with_body l b) \<subseteq> {..<n2}" using ih by fastforce
  moreover have "enter_paths (with_body l b) H = enter_paths l H" if H: "H \<subseteq> {..<nl}" for H
    unfolding enter_paths_def with_body_enter with_body_sel
  proof (rule followed_cong)
    fix H1 assume "enter_alt l H = Some H1"
    then have "H1 \<subseteq> {..<nl}" using enter_alt_sub l H by (fastforce simp: alt_all_def)
    then show "paths b H1 = paths (alt_body l) H1" by (rule unchangedD(3) [OF u])
  qed
  ultimately show ?case using ih le wide unfolding eq by simp
qed simp

lemma let_unchanged:
  assumes r: "unchanged r nl r' n1" and b: "unchanged b n1 b' n2" and s: "s < nl" "slots_of r \<subseteq> {..<nl}"
  shows "unchanged (Let s r b) nl (Let s r' b') n2"
proof -
  note le = unchangedD(1) [OF r] unchangedD(1) [OF b]
  have "paths (Let s r' b') H = paths (Let s r b) H" if H: "H \<subseteq> {..<nl}" for H
  proof -
    have "followed (\<lambda>H1. paths b' (insert s H1)) o1 = followed (\<lambda>H1. paths b (insert s H1)) o1"
      if "o1 \<in> paths r (insert s H)" for o1
    proof (rule followed_cong)
      fix H1 assume "o1 = Some H1"
      then have "insert s H1 \<subseteq> {..<nl}" using that paths_sub [of H1 r "insert s H"] H s by auto
      then show "paths b' (insert s H1) = paths b (insert s H1)" by (rule unchanged_later [OF b le(1)])
    qed
    moreover have "paths r' (insert s H) = paths r (insert s H)" using H s by (intro unchangedD(3) [OF r]) auto
    ultimately show ?thesis by simp
  qed
  moreover have "slots_of (Let s r' b') \<subseteq> {..<n2}"
    using unchangedD(2) [OF r] unchangedD(2) [OF b] le s(1) by force
  ultimately show ?thesis using le by (simp add: unchanged_def)
qed

lemma wrapped_unchanged:
  assumes b: "unchanged b nl b' n1"
    and p: "\<And>H. paths e H = followed (paths b) (g H)" "\<And>H. paths e' H = followed (paths b') (g H)"
    and g: "\<And>H H1. g H = Some H1 \<Longrightarrow> H1 \<subseteq> H"
    and s: "slots_of e' = R \<union> slots_of b'" "R \<subseteq> {..<nl}"
  shows "unchanged e nl e' n1"
proof -
  have "paths e' H = paths e H" if H: "H \<subseteq> {..<nl}" for H
    unfolding p using g H by (intro followed_cong unchangedD(3) [OF b]) blast
  then show ?thesis using unchangedD [OF b] s by (force simp: unchanged_def)
qed

lemma thread_children_unchanged:
  assumes f: "\<And>c n. c \<in> set (ir_children e) \<Longrightarrow> slots_of c \<subseteq> {..<n} \<Longrightarrow> unchanged c n (fst (f c n)) (snd (f c n))"
    and s: "slots_of e \<subseteq> {..<nl}"
  shows "unchanged e nl (fst (thread_children f e nl)) (snd (thread_children f e nl))"
proof (cases e)
  case (Let sl r b)
  obtain r' n1 where r: "f r nl = (r', n1)" by fastforce
  obtain b' n2 where b: "f b n1 = (b', n2)" by fastforce
  have ur: "unchanged r nl r' n1" using f [of r nl] r Let s by auto
  have "slots_of b \<subseteq> {..<n1}" using s Let unchangedD(1) [OF ur] by auto
  then have "unchanged b n1 b' n2" using f [of b n1] b Let by auto
  from let_unchanged [OF ur this] show ?thesis using Let s r b by simp
next
  case (Case a alts d)
  obtain alts' n1 where al: "thread_alts f alts nl = (alts', n1)" by fastforce
  obtain d' n2 where d: "f d n1 = (d', n2)" by fastforce
  have below: "\<forall>l \<in> set alts. alt_all l \<subseteq> {..<nl}" "read_slots [a] \<subseteq> {..<nl}" "slots_of d \<subseteq> {..<nl}"
    using s unfolding Case slots_of_case by auto
  have "\<forall>l \<in> set alts. \<forall>n \<ge> nl. unchanged (alt_body l) n (fst (f (alt_body l) n)) (snd (f (alt_body l) n))"
  proof (intro ballI allI impI)
    fix l n assume l: "l \<in> set alts" and n: "nl \<le> n"
    have "slots_of (alt_body l) \<subseteq> {..<nl}" using below(1) l by (auto simp: alt_all_def)
    then show "unchanged (alt_body l) n (fst (f (alt_body l) n)) (snd (f (alt_body l) n))"
      using l n Case by (intro f) auto
  qed
  note sp = thread_alts_spec [OF this below(1) al]
  then have le: "nl \<le> n1" by simp
  have "slots_of d \<subseteq> {..<n1}" using below(3) le by auto
  then have ud: "unchanged d n1 d' n2" using f [of d n1] d Case by auto
  have "paths (Case a alts' d') H = paths (Case a alts d) H" if H: "H \<subseteq> {..<nl}" for H
    unfolding paths_case
  proof (rule followed_cong)
    fix H1 assume "take_operands [a] None H = Some H1"
    then have "H1 \<subseteq> {..<nl}" using take_operands_sub H by blast
    then show "(\<Union>l \<in> set alts'. enter_paths l H1) \<union> paths d' H1 = (\<Union>l \<in> set alts. enter_paths l H1) \<union> paths d H1"
      using sp unchanged_later [OF ud le] by simp
  qed
  moreover have "slots_of (Case a alts' d') \<subseteq> {..<n2}"
  proof -
    have wide: "X \<subseteq> {..<n2}" if "X \<subseteq> {..<n1}" for X using that unchangedD(1) [OF ud] by auto
    have "read_slots [a] \<subseteq> {..<n1}" using below(2) le by auto
    then show ?thesis unfolding slots_of_case using sp wide unchangedD(2) [OF ud] by (simp add: UN_subset_iff)
  qed
  ultimately show ?thesis using Case al d le unchangedD(1) [OF ud] by (simp add: unchanged_def)
next
  case (Handle b cls els)
  obtain b' n1 where b: "f b nl = (b', n1)" by fastforce
  then have "unchanged b nl b' n1" using f [of b nl] Handle s by auto
  then have "unchanged (Handle b cls els) nl (Handle b' cls els) n1"
    using s Handle
    by (rule_tac wrapped_unchanged [where g = "take_operands (map hc_fun cls @ [els]) None"
          and R = "read_slots (map hc_fun cls @ [els])"]) (auto dest: take_operands_sub)
  then show ?thesis using Handle b by simp
next
  case (Defer c b)
  obtain b' n1 where b: "f b nl = (b', n1)" by fastforce
  then have "unchanged b nl b' n1" using f [of b nl] Defer s by auto
  then have "unchanged (Defer c b) nl (Defer c b') n1"
    using s Defer
    by (rule_tac wrapped_unchanged [where g = "take_operands [c] None" and R = "read_slots [c]"]) (auto dest: take_operands_sub)
  then show ?thesis using Defer b by simp
next
  case (Drop ss b)
  obtain b' n1 where b: "f b nl = (b', n1)" by fastforce
  then have "unchanged b nl b' n1" using f [of b nl] Drop s by auto
  then have "unchanged (Drop ss b) nl (Drop ss b') n1"
    using s Drop
    by (rule_tac wrapped_unchanged [where g = "\<lambda>H. Some (H - set ss)" and R = "set ss"]) auto
  then show ?thesis using Drop b by simp
qed (use s in \<open>auto simp: unchanged_def\<close>)

lemma unchanged_trans:
  assumes "unchanged e nl e1 n1" "unchanged e1 n1 e2 n2"
  shows "unchanged e nl e2 n2"
proof -
  note a = unchangedD [OF assms(1)] and b = unchangedD [OF assms(2)]
  have "paths e2 H = paths e H" if H: "H \<subseteq> {..<nl}" for H
    using a(3) [OF H] unchanged_later [OF assms(2) a(1) H] by simp
  then show ?thesis using a(1) b(1,2) by (simp add: unchanged_def)
qed

lemma consume_scrutinees_unchanged:
  "tidy e \<Longrightarrow> slots_of e \<subseteq> {..<nl} \<Longrightarrow>
     unchanged e nl (fst (consume_scrutinees e nl)) (snd (consume_scrutinees e nl))"
proof (induction e nl rule: consume_scrutinees.induct)
  case (1 e nl)
  obtain e1 n1 where c: "consume_node e nl = (e1, n1)" by fastforce
  from consume_node_unchanged [OF "1.prems" c]
  have u: "unchanged e nl e1 n1" and k: "\<forall>k \<in> set (ir_children e1). tidy k" by auto
  have "unchanged e1 n1 (fst (thread_children consume_scrutinees e1 n1)) (snd (thread_children consume_scrutinees e1 n1))"
    using "1.IH" [OF c [symmetric] refl] k unchangedD(2) [OF u] by (intro thread_children_unchanged) auto
  with u show ?case
    using c by (subst (1 2) consume_scrutinees.simps) (auto intro: unchanged_trans)
qed

end
