(* ===== verification/Ownership_Program.thy ===== *)
theory Ownership_Program
  imports Ownership_Reuse Conversion_Sound
begin

text \<open>
  Ownership on whole codes: the pass succeeds on the codes closure conversion
  yields, and on every path through a marked body no empty slot is read, borrowed
  parameters stay full, and what is still full at the end is what the source
  exempts.
\<close>

section \<open>The shape of a marked expression\<close>

text \<open>The slots one node of the tail uses more than once, or lends, which no use can move.\<close>

definition shared :: "atom list \<Rightarrow> place option \<Rightarrow> nat set" where
  "shared as lent = {s. PLocal s \<in> set (each_var as) \<and> count_list (occurrences as lent) (PLocal s) \<noteq> 1}"

fun tail_shared :: "irexpr \<Rightarrow> nat set" where
  "tail_shared (Let s r b) = tail_shared b"
| "tail_shared (App f x tail lend) = shared [f, x] (if lend then var_of x else None)"
| "tail_shared (Case a alts d) = shared [a] None \<union> (\<Union>l \<in> set alts. tail_shared (alt_body l)) \<union> tail_shared d"
| "tail_shared (Handle b cls els) = tail_shared b"
| "tail_shared (Defer c b) = tail_shared b"
| "tail_shared (Drop ss b) = tail_shared b"
| "tail_shared e = shared (ir_operands e) None"

lemma node_lending_shape:
  assumes "node_lending as lent out = (as', f)"
  shows "fl_leftover f \<subseteq> shared as lent" "locals_in (fl_live f) = locals_in out \<union> read_slots as"
    "read_slots as' = read_slots as"
  using assms by (auto simp: node_lending_def Let_def shared_def read_slots_def)

lemma shared_read: "shared as lent \<subseteq> read_slots as"
  by (auto simp: shared_def read_slots_def locals_in_def)

lemma sorted_list_sub: "set (sorted_list_of_set A) \<subseteq> A"
  by (cases "finite A") auto

lemma drop_dead_slots: "slots_of (drop_dead alive live own b) \<subseteq> locals_in alive \<union> slots_of b"
  using sorted_list_sub [of "locals_in (alive - live) - own"]
  by (auto simp: drop_dead_def with_drops_slots)

lemma drop_dead_tidy: "tidy b \<Longrightarrow> tidy (drop_dead alive live own b)"
  by (simp add: drop_dead_def)

lemma alt_slots_own [simp]: "alt_slots (own_alt alive a b live) = alt_slots a"
  by (simp add: own_alt_def alt_slots_def unbind_def)

definition shape :: "irexpr \<Rightarrow> live \<Rightarrow> irexpr \<Rightarrow> flow \<Rightarrow> bool" where
  "shape e out e' f \<longleftrightarrow>
     tidy e' \<and> slots_of e' \<subseteq> slots_of e \<union> locals_in out
     \<and> locals_in (fl_live f) \<subseteq> slots_of e \<union> locals_in out \<and> fl_leftover f \<subseteq> tail_shared e"

lemma tail_shared_slots: "tail_shared e \<subseteq> slots_of e"
proof (induction e)
  case (Case a alts d)
  have "tail_shared (alt_body l) \<subseteq> slots_of (alt_body l)" if "l \<in> set alts" for l
    using Case.IH(1) [OF that] by simp
  then show ?case using Case.IH(2) shared_read [of "[a]" None] by fastforce
qed (use shared_read in auto)

lemma node_shape:
  assumes "node_lending as lent out = (as', f)" "tidy e'" "slots_of e' = read_slots as'" "slots_of e = read_slots as"
    "tail_shared e = shared as lent"
  shows "shape e out e' f"
  using node_lending_shape [OF assms(1)] assms(2-) by (auto simp: shape_def)

lemma case_shape:
  assumes rs: "list_all2 (\<lambda>a r. shape (alt_body a) out (fst r) (snd r) \<and> alt_unpack a = Borrow
                 \<and> read_slots [scrut] \<inter> alt_slots a = {}) alts rs"
    and d: "shape d out d' fd"
    and al: "alive = (\<Union>(a, _, fa) \<in> set (zip alts rs). alt_live (fl_live fa) a) \<union> fl_live fd"
    and n: "node [scrut] alive = (ss, fs)"
  shows "shape (Case scrut alts d) out
     (Case (ss ! 0) (map (\<lambda>(a, b, fa). own_alt alive a b (fl_live fa)) (zip alts rs)) (drop_dead alive (fl_live fd) {} d'))
     \<lparr>fl_live = fl_live fs, fl_leftover = (\<Union>r \<in> set rs. fl_leftover (snd r)) \<union> fl_leftover fd \<union> fl_leftover fs\<rparr>"
    (is "shape ?e out ?e' ?f")
proof -
  have arm: "shape (alt_body a) out b f" "alt_unpack a = Borrow" "read_slots [scrut] \<inter> alt_slots a = {}" "a \<in> set alts"
    if "(a, b, f) \<in> set (zip alts rs)" for a b f
    using rs that by (auto simp: list_all2_iff dest: set_zip_leftD)
  have inr: "\<exists>a. (a, r) \<in> set (zip alts rs)" if "r \<in> set rs" for r
    using that list_all2_lengthD [OF rs] by (metis in_set_impl_in_set_zip2)
  have one: "[ss ! 0] = ss" using n by (auto simp: node_def dest: node_one)
  have sh: "fl_leftover fs \<subseteq> shared [scrut] None" "locals_in (fl_live fs) = locals_in alive \<union> read_slots [scrut]"
    "read_slots ss = read_slots [scrut]" using node_lending_shape [OF n [unfolded node_def]] by auto
  have sub: "slots_of (alt_body a) \<subseteq> slots_of ?e" "alt_slots a \<subseteq> slots_of ?e" "tail_shared (alt_body a) \<subseteq> tail_shared ?e"
    if "a \<in> set alts" for a using that by auto
  have "locals_in (alt_live (fl_live f) a) \<subseteq> slots_of ?e \<union> locals_in out" if "(a, b, f) \<in> set (zip alts rs)" for a b f
    using arm(1) [OF that] sub(1) [OF arm(4) [OF that]] by (auto simp: shape_def alt_live_def)
  then have alive: "locals_in alive \<subseteq> slots_of ?e \<union> locals_in out"
    using d unfolding al by (fastforce simp: shape_def)
  have body: "alt_all (own_alt alive a b (fl_live f)) \<subseteq> slots_of ?e \<union> locals_in out"
    "tidy (alt_body (own_alt alive a b (fl_live f)))" if z: "(a, b, f) \<in> set (zip alts rs)" for a b f
  proof -
    note A = arm(1) [OF z, unfolded shape_def] and B = sub [OF arm(4) [OF z]]
    have "slots_of (drop_dead alive (alt_live (fl_live f) a) (alt_slots a) b) \<subseteq> slots_of ?e \<union> locals_in out"
      by (rule order_trans [OF drop_dead_slots]) (use A B(1) alive in blast)
    then show "alt_all (own_alt alive a b (fl_live f)) \<subseteq> slots_of ?e \<union> locals_in out"
      using B(2) arm(2) [OF z] by (simp add: alt_all_def le_supI1)
    show "tidy (alt_body (own_alt alive a b (fl_live f)))" using A by (simp add: drop_dead_tidy)
  qed
  have "tidy ?e'"
    using body(2) arm(2,3) d by (fastforce simp: list_all_iff one sh(3) shape_def drop_dead_tidy)
  moreover have "slots_of ?e' \<subseteq> slots_of ?e \<union> locals_in out"
  proof -
    have "slots_of (drop_dead alive (fl_live fd) {} d') \<subseteq> slots_of ?e \<union> locals_in out"
      by (rule order_trans [OF drop_dead_slots]) (use d alive in \<open>auto simp: shape_def\<close>)
    moreover have "read_slots [ss ! 0] \<subseteq> slots_of ?e" using one sh(3) by auto
    ultimately show ?thesis unfolding slots_of_case [of "ss ! 0"]
      by (auto simp del: slots_of.simps dest: subsetD [OF body(1)])
  qed
  moreover have "fl_leftover ?f \<subseteq> tail_shared ?e"
  proof -
    have "fl_leftover (snd r) \<subseteq> tail_shared ?e" if r: "r \<in> set rs" for r
    proof -
      obtain a where a: "(a, fst r, snd r) \<in> set (zip alts rs)" using inr [OF r] by auto
      show ?thesis using arm(1) [OF a] sub(3) [OF arm(4) [OF a]] unfolding shape_def by blast
    qed
    then show ?thesis using sh(1) d by (auto simp: shape_def)
  qed
  moreover have "locals_in (fl_live ?f) \<subseteq> slots_of ?e \<union> locals_in out" using sh(2) alive by auto
  ultimately show ?thesis by (simp only: shape_def)
qed

lemma let_shape:
  assumes b: "shape b (if ir_mentions r s then insert (PLocal s) out else out) b' fb"
    and r: "shape r (insert (PLocal s) (fl_live fb)) r' fr"
  shows "shape (Let s r b) out
     (Let s r' (with_drops (sorted_list_of_set (fl_leftover fr - locals_in (fl_live fb))
                  @ (if PLocal s \<in> fl_live fb then [] else [s])) b'))
     \<lparr>fl_live = fl_live fr - {PLocal s}, fl_leftover = fl_leftover fb\<rparr>"
proof -
  have lb: "locals_in (fl_live fb) \<subseteq> slots_of (Let s r b) \<union> locals_in out"
    "slots_of b' \<subseteq> slots_of (Let s r b) \<union> locals_in out"
    using b by (auto simp: shape_def split: if_splits)
  have "set (sorted_list_of_set (fl_leftover fr - locals_in (fl_live fb))) \<subseteq> slots_of r"
    using r tail_shared_slots [of r] sorted_list_sub [of "fl_leftover fr - locals_in (fl_live fb)"]
    by (auto simp: shape_def)
  moreover have "slots_of r' \<subseteq> slots_of (Let s r b) \<union> locals_in out"
    "locals_in (fl_live fr) \<subseteq> slots_of (Let s r b) \<union> locals_in out"
    using r lb(1) by (auto simp: shape_def)
  ultimately show ?thesis using b r lb(2) by (auto simp: shape_def with_drops_slots)
qed

lemma wrap_shape:
  assumes b: "shape b out b' fb" and n: "node as (fl_live fb) = (as', fi)"
    and e': "tidy b' \<Longrightarrow> tidy e'" "slots_of e' = read_slots as' \<union> set (sorted_list_of_set (fl_leftover fi)) \<union> slots_of b'"
    and e: "slots_of e = read_slots as \<union> slots_of b" "tail_shared e = tail_shared b"
  shows "shape e out e' \<lparr>fl_live = fl_live fi, fl_leftover = fl_leftover fb\<rparr>"
  using b e e' node_lending_shape [OF n [unfolded node_def]] shared_read [of as None]
    sorted_list_sub [of "fl_leftover fi"]
  by (auto simp: shape_def)

lemma own_expr_shape:
  assumes "lexical S e" "fresh_marks e" "own_expr e out = Some (e', f)"
  shows "shape e out e' f"
  using assms
proof (induction e arbitrary: S out e' f)
  case (Ret a)
  then show ?case
    by (auto simp: node_def Let_def node_one split: prod.splits intro!: node_shape)
next
  case (Field a n)
  then show ?case
    by (auto simp: node_def Let_def node_one split: prod.splits intro!: node_shape)
next
  case (App g x tail lend)
  obtain as' fl where n: "node_lending [g, x] (if lend then var_of x else None) out = (as', fl)" by fastforce
  moreover have "as' = [as' ! 0, as' ! 1]" using n by (auto simp: node_lending_def Let_def)
  ultimately have "shape (App g x tail lend) out (App (as' ! 0) (as' ! 1) tail lend) fl"
    by (intro node_shape [OF n]) (auto simp: One_nat_def [symmetric] simp del: One_nat_def)
  then show ?case using App.prems(3) n by simp
next
  case (MkStruct n base fs)
  show ?case
  proof (cases base)
    case None
    obtain as f' where nd: "node_lending (map snd fs) None out = (as, f')" by fastforce
    then have "length as = length fs" by (auto dest: node_lending_flow(2))
    then show ?thesis using None MkStruct nd by (auto simp: node_def intro!: node_shape)
  next
    case (Some b)
    obtain as f' where nd: "node_lending (b # map snd fs) None out = (as, f')" by fastforce
    then have len: "length as = Suc (length fs)" by (auto dest: node_lending_flow(2))
    then have "hd as # tl as = as" by (cases as) auto
    then show ?thesis using Some MkStruct nd len by (auto simp: node_def intro!: node_shape)
  qed
next
  case (Let s r b)
  from Let.prems(3) obtain b' fb r' fr where
    b: "own_expr b (if ir_mentions r s then insert (PLocal s) out else out) = Some (b', fb)"
    and r: "own_expr r (insert (PLocal s) (fl_live fb)) = Some (r', fr)"
    and eq: "e' = Let s r' (with_drops (sorted_list_of_set (fl_leftover fr - locals_in (fl_live fb))
                  @ (if PLocal s \<in> fl_live fb then [] else [s])) b')"
      "f = \<lparr>fl_live = fl_live fr - {PLocal s}, fl_leftover = fl_leftover fb\<rparr>"
    by (auto simp: Let_def split: bind_splits prod.splits)
  show ?case unfolding eq
    by (rule let_shape [OF Let.IH(2) [OF _ _ b] Let.IH(1) [OF _ _ r]]) (use Let.prems in auto)
next
  case (Case a alts d)
  from Case.prems(3) obtain rs d' fd ss fs alive where
    rs: "those (map (\<lambda>a. own_expr (alt_body a) out) alts) = Some rs" and d: "own_expr d out = Some (d', fd)"
    and al: "alive = (\<Union>(a, _, fa) \<in> set (zip alts rs). alt_live (fl_live fa) a) \<union> fl_live fd"
    and n: "node [a] alive = (ss, fs)"
    and eq: "e' = Case (ss ! 0) (map (\<lambda>(a, b, fa). own_alt alive a b (fl_live fa)) (zip alts rs)) (drop_dead alive (fl_live fd) {} d')"
      "f = \<lparr>fl_live = fl_live fs, fl_leftover = (\<Union>r \<in> set rs. fl_leftover (snd r)) \<union> fl_leftover fd \<union> fl_leftover fs\<rparr>"
    by (auto simp: Let_def split: bind_splits prod.splits)
  have rd: "read_slots [a] \<subseteq> S" using Case.prems(1) by (auto simp: read_slots_def locals_in_def dest: reads_in_var)
  have "list_all2 (\<lambda>l r. shape (alt_body l) out (fst r) (snd r) \<and> alt_unpack l = Borrow
                 \<and> read_slots [a] \<inter> alt_slots l = {}) alts rs"
    unfolding list_all2_conv_all_nth
  proof (intro conjI allI impI)
    show "length alts = length rs" using those_map_length [OF rs] by simp
    fix i assume i: "i < length alts"
    then have l: "alts ! i \<in> set alts" by simp
    have o: "own_expr (alt_body (alts ! i)) out = Some (fst (rs ! i), snd (rs ! i))"
      using those_map_nth [OF rs i] by simp
    show "shape (alt_body (alts ! i)) out (fst (rs ! i)) (snd (rs ! i))"
      by (rule Case.IH(1) [OF l _ _ _ o]) (use Case.prems l in \<open>auto simp: list_all_iff\<close>)
    show "alt_unpack (alts ! i) = Borrow" "read_slots [a] \<inter> alt_slots (alts ! i) = {}"
      using Case.prems l rd by (fastforce simp: list_all_iff)+
  qed
  moreover have "shape d out d' fd" by (rule Case.IH(2) [OF _ _ d]) (use Case.prems in auto)
  ultimately show ?case unfolding eq by (rule case_shape [OF _ _ al n])
next
  case (Handle b cls els)
  from Handle.prems(3) obtain b' fb as fi where b: "own_expr b out = Some (b', fb)"
    and n: "node (map hc_fun cls @ [els]) (fl_live fb) = (as, fi)"
    and eq: "e' = Handle (with_drops (sorted_list_of_set (fl_leftover fi)) b')
        (map2 (\<lambda>c a. HandleClause (hc_effect c) (hc_op c) a (hc_resume c)) cls (butlast as)) (last as)"
      "f = \<lparr>fl_live = fl_live fi, fl_leftover = fl_leftover fb\<rparr>"
    by (auto simp: Let_def split: bind_splits prod.splits)
  have "length as = Suc (length cls)" using n by (auto simp: node_def dest: node_lending_flow(2))
  then have as: "map hc_fun (map2 (\<lambda>c a. HandleClause (hc_effect c) (hc_op c) a (hc_resume c)) cls (butlast as)) @ [last as] = as"
    using append_butlast_last_id [of as] by (cases "as = []") (simp_all add: comp_def case_prod_beta')
  have "shape b out b' fb" using Handle.IH [OF _ _ b] Handle.prems by auto
  then show ?case unfolding eq
    by (rule wrap_shape [OF _ n]) (simp_all add: as with_drops_slots del: map_map, simp add: Un_assoc)
next
  case (Defer c b)
  from Defer.prems(3) obtain b' fb as fi where b: "own_expr b out = Some (b', fb)"
    and n: "node [c] (fl_live fb) = (as, fi)"
    and eq: "e' = Defer (as ! 0) (with_drops (sorted_list_of_set (fl_leftover fi)) b')"
      "f = \<lparr>fl_live = fl_live fi, fl_leftover = fl_leftover fb\<rparr>"
    by (auto simp: Let_def split: bind_splits prod.splits)
  have as: "[as ! 0] = as" using n by (auto simp: node_def dest: node_one)
  have "shape b out b' fb" using Defer.IH [OF _ _ b] Defer.prems by auto
  then show ?case unfolding eq
    by (rule wrap_shape [OF _ n]) (simp_all add: as with_drops_slots Un_assoc)
next
  case (IFault msg)
  then show ?case by (auto simp: shape_def)
qed (auto simp: node_def Let_def split: prod.splits intro!: node_shape)

section \<open>Codes\<close>

lemma slots_of_node: "read_slots (ir_operands e) \<subseteq> slots_of e"
  by (cases e) (auto simp: read_slots_def)

lemma slots_of_child: "c \<in> set (ir_children e) \<Longrightarrow> slots_of c \<subseteq> slots_of e"
  by (cases e) auto

lemma all_nodes_slots: "n \<in> set (all_nodes e) \<Longrightarrow> slots_of n \<subseteq> slots_of e"
proof (induction e rule: all_nodes.induct)
  case (1 e)
  then show ?case using slots_of_child [of _ e] by (subst (asm) all_nodes.simps) fastforce
qed

lemma all_nodes_trans: "n \<in> set (all_nodes m) \<Longrightarrow> m \<in> set (all_nodes e) \<Longrightarrow> slots_of n \<subseteq> slots_of e"
  using all_nodes_slots by blast

lemma node_reads_slots: "locals_in (node_reads n) \<subseteq> slots_of n"
proof -
  have "node_reads n = set (each_var (ir_operands n))"
    by (simp add: node_reads_def ir_atoms_def each_var_def)
  then show ?thesis using slots_of_node [of n] by (simp add: read_slots_def)
qed

lemma handler_reads_slots: "locals_in (handler_reads e) \<subseteq> slots_of e"
proof
  fix s assume "s \<in> locals_in (handler_reads e)"
  then obtain n where n: "n \<in> set (all_nodes e)"
      "s \<in> locals_in (case n of Handle body _ _ \<Rightarrow> reads_from_outside body | _ \<Rightarrow> {})"
    by (auto simp: handler_reads_def)
  then obtain b cls els where h: "Handle b cls els \<in> set (all_nodes e)" "s \<in> locals_in (reads_from_outside b)"
    by (cases rule: irexpr.exhaust [of n]) auto
  then obtain m where m: "m \<in> set (all_nodes b)" "s \<in> locals_in (node_reads m)"
    by (auto simp: reads_from_outside_def)
  have "slots_of b \<subseteq> slots_of e" using all_nodes_slots [OF h(1)] by simp
  then show "s \<in> slots_of e" using m node_reads_slots [of m] all_nodes_slots [OF m(1)] by blast
qed

lemma finite_handler_reads: "finite (handler_reads e)"
proof -
  have "finite (case n of Handle body _ _ \<Rightarrow> reads_from_outside body | _ \<Rightarrow> {})" for n
    by (cases n) (auto simp: reads_from_outside_def node_reads_def)
  then show ?thesis by (simp add: handler_reads_def)
qed

lemma reads_read_slots: "list_all (reads_in S) as \<Longrightarrow> read_slots as \<subseteq> S"
  using reads_in_vars by (auto simp: read_slots_def locals_in_def)

lemma lexical_slots: "lexical S e \<Longrightarrow> fresh_marks e \<Longrightarrow> slots_of e \<subseteq> S \<union> bound_slots e"
proof (induction e arbitrary: S)
  case (Let s r b)
  then have "slots_of r \<subseteq> insert s S \<union> bound_slots r" "slots_of b \<subseteq> insert s S \<union> bound_slots b" by auto
  then show ?case by auto
next
  case (Case a alts d)
  have "slots_of (alt_body l) \<subseteq> S \<union> alt_slots l \<union> bound_slots (alt_body l)" "alt_unpack l = Borrow" if "l \<in> set alts" for l
    using Case.IH(1) [OF that, of "alt_body l" "S \<union> alt_slots l"] Case.prems that by (auto simp: list_all_iff)
  moreover have "slots_of d \<subseteq> S \<union> bound_slots d" using Case by auto
  moreover have "read_slots [a] \<subseteq> S" using Case.prems by (intro reads_read_slots) simp
  ultimately show ?case by fastforce
next
  case (Handle b cls els)
  have "read_slots (map hc_fun cls @ [els]) \<subseteq> S"
    using Handle.prems by (intro reads_read_slots) (auto simp: list_all_iff)
  then show ?case using Handle by auto
next
  case (Defer c b)
  then show ?case using reads_read_slots [of S "[c]"] by auto
next
  case (MkVariant ty tag fs reuse)
  then show ?case using reads_read_slots [of S fs] by auto
qed (simp_all add: reads_read_slots)

lemma own_code_ok:
  assumes "code_ok first older c"
  shows "\<exists>c'. own_code c = Some c' \<and> nlocals c \<le> nlocals c' \<and> slots_of (code_body c') \<subseteq> {..<nlocals c'}
     \<and> (\<forall>r \<in> paths (code_body c') {0..<nparams c}.
          \<exists>H. r = Some H \<and> {p. p < nparams c \<and> borrowed c ! p} \<subseteq> H
              \<and> H \<subseteq> locals_in (pinned_in c) \<union> rec_slots (code_body c) \<union> tail_shared (code_body c))"
proof -
  let ?S = "{0..<nparams c}"
  have lex: "lexical ?S (code_body c)" and nl: "nparams c \<le> nlocals c" "length (borrowed c) = nparams c"
    and bd: "bound_slots (code_body c) \<subseteq> {nparams c ..< nlocals c}" using assms by (auto simp: code_ok_def)
  note fresh = lexical_fresh [OF lex]
  have fin: "finite (pinned_in c)" by (auto simp: pinned_in_def finite_handler_reads)
  from own_expr_marked [OF lex fresh fin] obtain e f
    where e: "own_expr (code_body c) (pinned_in c) = Some (e, f)" and m: "marked ?S (code_body c) (pinned_in c) e f" by blast
  note sh = own_expr_shape [OF lex fresh e]
  let ?dead = "filter (\<lambda>p. PLocal p \<notin> fl_live f) [0..<nparams c]"
  obtain b nl' where b: "consume_scrutinees (with_drops ?dead e) (nlocals c) = (b, nl')" by fastforce
  have slots: "slots_of (code_body c) \<subseteq> {..<nlocals c}"
    using lexical_slots [OF lex fresh] bd nl(1) by fastforce
  have "slots_of (with_drops ?dead e) \<subseteq> {..<nlocals c}"
    using sh slots nl(1) handler_reads_slots [of "code_body c"]
    by (fastforce simp: shape_def with_drops_slots pinned_in_def)
  with sh have u: "unchanged (with_drops ?dead e) (nlocals c) b nl'"
    using consume_scrutinees_unchanged [of "with_drops ?dead e" "nlocals c"] b by (simp add: shape_def)
  have p: "paths b ?S = paths e (?S - set ?dead)"
    using unchangedD(3) [OF u, of ?S] nl(1) by (simp add: ivl_disj_un subset_eq)
  have "\<exists>H. r = Some H \<and> {p. p < nparams c \<and> borrowed c ! p} \<subseteq> H
      \<and> H \<subseteq> locals_in (pinned_in c) \<union> rec_slots (code_body c) \<union> tail_shared (code_body c)" if r: "r \<in> paths b ?S" for r
  proof -
    have "locals_in (fl_live f) \<inter> ?S \<subseteq> ?S - set ?dead" by (auto simp: locals_in_def)
    from keepsD [OF _ this] m r p obtain H where H: "r = Some H" "locals_in (pinned_in c) \<inter> ?S \<subseteq> H"
      unfolding marked_def by blast
    have "?S - set ?dead \<subseteq> locals_in (fl_live f) \<union> {}" by (auto simp: locals_in_def)
    from freesD [OF _ this] m r p H(1) have "H \<subseteq> locals_in (pinned_in c) \<union> fl_leftover f \<union> rec_slots (code_body c)"
      unfolding marked_def by blast
    then show ?thesis using H sh by (fastforce simp: pinned_in_def shape_def)
  qed
  then show ?thesis
    using e b nl(2) unchangedD(1,2) [OF u] by (simp add: own_code_def Let_def)
qed

text \<open>
  C2: The ownership pass never panics on a code of a converted program, and its
  marks are right on every path through the marked body, from an activation whose
  parameters are full: no operand reads an empty slot or a slot another operand of
  its node moves, every slot a constructor reuses was filled and is used once, a
  borrowed parameter is neither moved nor dropped, and a slot still full when the
  body completes is one a handler body reads or the caller owns, the slot of a
  recursive binding, or one the last node shares or lends.
\<close>

theorem own_code_safe:
  assumes "code_ok first older c"
  shows "\<exists>c'. own_code c = Some c' \<and> nlocals c \<le> nlocals c' \<and> slots_of (code_body c') \<subseteq> {..<nlocals c'}
     \<and> (\<forall>r \<in> paths (code_body c') {0..<nparams c}.
          \<exists>H. r = Some H \<and> {p. p < nparams c \<and> borrowed c ! p} \<subseteq> H
              \<and> H \<subseteq> locals_in (pinned_in c) \<union> rec_slots (code_body c) \<union> tail_shared (code_body c))"
  using assms by (rule own_code_ok)

section \<open>Witness\<close>

text \<open>A map over a list: the cell of the argument is reused for the cell of the result.\<close>

definition demo_owned :: code where
  "demo_owned = \<lparr>nparams = 1, nlocals = 4,
     code_body = Case (Local 0)
       [Alt (KCon ''Cons'') 1 [Some ''x'', Some ''xs'']
          (Let 3 (App (Glob ''f'') (Local 1) False False)
             (MkVariant ''List'' ''Cons'' [Local 3, Local 2] None)) Borrow]
       (MkVariant ''List'' ''Nil'' [] None),
     code_name = ''map'', borrowed = [False]\<rparr>"

definition demo_marked :: code where
  "demo_marked = demo_owned\<lparr>nlocals := 5,
     code_body := Case (Local 0)
       [Alt (KCon ''Cons'') 1 [Some ''x'', Some ''xs'']
          (Let 3 (App (Glob ''f'') (Move 1) False False)
             (MkVariant ''List'' ''Cons'' [Move 3, Move 2] (Some 4))) (Consume 0 (Some 4))]
       (Drop [0] (MkVariant ''List'' ''Nil'' [] None))\<rparr>"

lemma demo_owned_marks: "own_code demo_owned = Some demo_marked"
  by code_simp

lemma demo_owned_ok: "code_ok 0 [] demo_owned"
  by (auto simp: code_ok_def demo_owned_def alt_slots_def)

theorem own_code_safe_witness:
  "own_code demo_owned = Some demo_marked \<and> None \<notin> paths (code_body demo_marked) {0..<1}"
proof -
  have "nparams demo_owned = 1" by (simp add: demo_owned_def)
  with own_code_safe [OF demo_owned_ok] show ?thesis using demo_owned_marks by auto
qed

section \<open>A borrowed parameter in front of a fault\<close>


end
