(* ===== verification/Ownership_Erase.thy ===== *)
theory Ownership_Erase
  imports Ownership_Program
begin

text \<open>
  The ownership pass only annotates: forgetting its marks gives back the code it
  was given, so a program means the same to an engine that counts references and
  to one that does not.
\<close>

section \<open>Forgetting the marks\<close>

fun unmove :: "atom \<Rightarrow> atom" where
  "unmove (Move s) = Local s"
| "unmove (MoveEnv i) = Env i"
| "unmove (Clos cd captures) = Clos cd (map unmove captures)"
| "unmove a = a"

text \<open>A binder is its slot; the name is only kept for printing, and a mark can remove it.\<close>

fun forget :: "irexpr \<Rightarrow> irexpr" where
  "forget (Ret a) = Ret (unmove a)"
| "forget (Let s r b) = Let s (forget r) (forget b)"
| "forget (App f x tail lend) = App (unmove f) (unmove x) tail lend"
| "forget (Case a alts d) =
     Case (unmove a)
       (map (\<lambda>l. Alt (alt_kind l) (binder_base l) (replicate (length (binders l)) None) (forget (alt_body l)) Borrow) alts)
       (forget d)"
| "forget (MkStruct n base fs) = MkStruct n (map_option unmove base) (map (\<lambda>(l, a). (l, unmove a)) fs)"
| "forget (Field a n) = Field (unmove a) n"
| "forget (MkVariant ty tag fs reuse) = MkVariant ty tag (map unmove fs) None"
| "forget (MkTuple fs) = MkTuple (map unmove fs)"
| "forget (Handle b cls els) =
     Handle (forget b) (map (\<lambda>c. HandleClause (hc_effect c) (hc_op c) (unmove (hc_fun c)) (hc_resume c)) cls) (unmove els)"
| "forget (Defer c b) = Defer (unmove c) (forget b)"
| "forget (Drop ss b) = forget b"
| "forget (IFault msg) = IFault msg"

lemma unmove_settle: "var_of a = Some v \<Longrightarrow> unmove (settle count out v a) = unmove a"
  by (cases a) (auto simp: settle_def)

lemma unmove_rewritten [simp]: "unmove (rewrite_vars (settle count out) a) = unmove a"
  by (induction a) (simp_all add: unmove_settle)

lemma node_lending_unmove: "node_lending as lent out = (as', f) \<Longrightarrow> map unmove as' = map unmove as"
  by (auto simp: node_lending_def Let_def)

lemma node_unmove: "node as out = (as', f) \<Longrightarrow> map unmove as' = map unmove as"
  by (simp add: node_def node_lending_unmove)

lemma with_drops_erase [simp]: "forget (with_drops ss b) = forget b"
  by (cases b) (simp_all add: with_drops.simps)

lemma drop_dead_erase [simp]: "forget (drop_dead alive live own b) = forget b"
  by (simp add: drop_dead_def)

lemma own_alt_sel [simp]:
  "alt_kind (own_alt alive a b live) = alt_kind a" "binder_base (own_alt alive a b live) = binder_base a"
  "length (binders (own_alt alive a b live)) = length (binders a)"
  by (simp_all add: own_alt_def unbind_def)

lemma zip_unmove:
  "map unmove as = map (unmove \<circ> g) cs \<Longrightarrow> map2 (\<lambda>c a. h c (unmove a)) cs as = map (\<lambda>c. h c (unmove (g c))) cs"
proof (induction cs arbitrary: as)
  case (Cons c cs)
  then show ?case by (cases as) auto
qed simp

lemma fields_unmove:
  assumes "map unmove as = map unmove (map snd fs)"
  shows "map (\<lambda>(l, a). (l, unmove a)) (zip (map fst fs) as) = map (\<lambda>(l, a). (l, unmove a)) fs"
  using zip_unmove [of as snd fs "\<lambda>c a. (fst c, a)"] assms by (simp add: zip_map1 case_prod_beta' comp_def)

lemma own_expr_erase: "own_expr e out = Some (e', f) \<Longrightarrow> forget e' = forget e"
proof (induction e arbitrary: out e' f)
  case (MkStruct n base fs)
  show ?case
  proof (cases base)
    case None
    obtain as f' where nd: "node (map snd fs) out = (as, f')" by fastforce
    then show ?thesis using None MkStruct fields_unmove [OF node_unmove [OF nd]] by auto
  next
    case (Some b)
    obtain as f' where nd: "node (b # map snd fs) out = (as, f')" by fastforce
    then obtain a as' where as: "as = a # as'" by (auto simp: node_def node_lending_def Let_def)
    then show ?thesis using Some MkStruct nd fields_unmove [of as' fs] node_unmove [OF nd] by auto
  qed
next
  case (Let s r b)
  then show ?case by (auto simp: Let_def split: bind_splits prod.splits)
next
  case (Case a alts d)
  from Case.prems obtain rs d' fd ss fs alive where
    rs: "those (map (\<lambda>a. own_expr (alt_body a) out) alts) = Some rs" and d: "own_expr d out = Some (d', fd)"
    and n: "node [a] alive = (ss, fs)"
    and eq: "e' = Case (ss ! 0) (map (\<lambda>(a, b, fa). own_alt alive a b (fl_live fa)) (zip alts rs)) (drop_dead alive (fl_live fd) {} d')"
    by (auto simp: Let_def split: bind_splits prod.splits)
  let ?e = "\<lambda>l. Alt (alt_kind l) (binder_base l) (replicate (length (binders l)) None) (forget (alt_body l)) Borrow"
  have "map ?e (map (\<lambda>(a, b, fa). own_alt alive a b (fl_live fa)) (zip alts rs)) = map ?e alts"
  proof (rule nth_equalityI)
    show "length (map ?e (map (\<lambda>(a, b, fa). own_alt alive a b (fl_live fa)) (zip alts rs))) = length (map ?e alts)"
      using those_map_length [OF rs] by simp
    fix i assume i: "i < length (map ?e (map (\<lambda>(a, b, fa). own_alt alive a b (fl_live fa)) (zip alts rs)))"
    then have l: "i < length alts" "i < length rs" by simp_all
    have "own_expr (alt_body (alts ! i)) out = Some (fst (rs ! i), snd (rs ! i))" using those_map_nth [OF rs l(1)] by simp
    from Case.IH(1) [OF nth_mem [OF l(1)] _ this]
    show "map ?e (map (\<lambda>(a, b, fa). own_alt alive a b (fl_live fa)) (zip alts rs)) ! i = map ?e alts ! i"
      using l by (simp add: case_prod_beta)
  qed
  moreover have "unmove (ss ! 0) = unmove a" using node_unmove [OF n] by auto
  ultimately show ?case using Case.IH(2) [OF d] by (simp add: eq)
next
  case (Handle b cls els)
  from Handle.prems obtain b' fb as fi where b: "own_expr b out = Some (b', fb)"
    and n: "node (map hc_fun cls @ [els]) (fl_live fb) = (as, fi)"
    and eq: "e' = Handle (with_drops (sorted_list_of_set (fl_leftover fi)) b')
        (map2 (\<lambda>c a. HandleClause (hc_effect c) (hc_op c) a (hc_resume c)) cls (butlast as)) (last as)"
    by (auto simp: Let_def split: bind_splits prod.splits)
  have um: "map unmove as = map (unmove \<circ> hc_fun) cls @ [unmove els]" using node_unmove [OF n] by simp
  then have "as \<noteq> []" "map unmove (butlast as) = map (unmove \<circ> hc_fun) cls" "unmove (last as) = unmove els"
    by (auto simp: map_butlast dest: arg_cong [where f = last]) (metis last_map last_snoc map_is_Nil_conv snoc_eq_iff_butlast)
  then show ?case
    using Handle.IH [OF b] zip_unmove [of "butlast as" hc_fun cls "\<lambda>c a. HandleClause (hc_effect c) (hc_op c) a (hc_resume c)"]
    by (simp add: eq comp_def case_prod_beta')
next
  case (Defer c b)
  then show ?case by (auto simp: Let_def split: bind_splits prod.splits dest!: node_unmove)
next
  case (App g x tail lend)
  then show ?case by (auto split: prod.splits dest!: node_lending_unmove)
qed (auto split: prod.splits dest!: node_unmove)

lemma take_con_erase [simp]: "forget (snd (take_con e n t)) = forget e"
  by (cases "(e, n, t)" rule: take_con.cases) auto

lemma take_drop_erase [simp]: "forget (snd (take_drop e s)) = forget e"
  by (cases "(e, s)" rule: take_drop.cases) (auto simp: Let_def)

lemma take_drop_forgotten: "take_drop e s = (found, e') \<Longrightarrow> forget e' = forget e"
  using take_drop_erase [of e s] by simp

lemma end_token_erase [simp]: "forget (end_token t r) = forget (snd r)"
  by (simp add: end_token_def)

lemma claim_erase [simp]: "forget (snd (claim e n t)) = forget e"
proof (induction e n t rule: claim.induct)
  case (2 s r b n t)
  obtain took r' where r: "take_con r n t = (took, r')" by fastforce
  then have "forget r' = forget r" using take_con_erase [of r n t] by simp
  then show ?case using 2 r by (cases took) (auto split: prod.splits)
next
  case (4 a alts d n t)
  then show ?case by (simp add: Let_def comp_def cong: map_cong)
qed (auto split: prod.splits)

definition erase_alt :: "irexpr alt \<Rightarrow> irexpr alt" where
  "erase_alt l = Alt (alt_kind l) (binder_base l) (replicate (length (binders l)) None) (forget (alt_body l)) Borrow"

lemma erase_case: "forget (Case a alts d) = Case (unmove a) (map erase_alt alts) (forget d)"
  by (simp add: erase_alt_def)

lemma consume_alt_erase: "erase_alt (fst (consume_alt moved held l nl)) = erase_alt l"
proof -
  have d: "forget (snd (dies_in moved held l)) = forget (alt_body l)"
    by (auto simp: dies_in_def dest: take_drop_forgotten split: option.splits prod.splits)
  obtain dead b where db: "dies_in moved held l = (dead, b)" by fastforce
  have "forget b = forget (alt_body l)" using d db by simp
  moreover have "forget b' = forget b" if "claim b n nl = (took, b')" for took b' n
    using claim_erase [of b n nl] that by simp
  ultimately show ?thesis
    using db by (auto simp: consume_alt_def erase_alt_def split: option.splits prod.splits)
qed

lemma consume_alts_erase: "map erase_alt (fst (consume_alts moved held alts nl)) = map erase_alt alts"
proof (induction alts arbitrary: nl)
  case (Cons l alts)
  then show ?case using consume_alt_erase [of moved held l nl]
    by (auto split: prod.splits) (metis fst_conv)+
qed simp

lemma consume_node_erase: "forget (fst (consume_node e nl)) = forget e"
proof (cases e)
  case (Case a alts d)
  obtain alts' n1 where al: "consume_alts (moved_scrut a alts) (held_scrut a) alts nl = (alts', n1)" by fastforce
  then have "map erase_alt alts' = map erase_alt alts"
    using consume_alts_erase [of "moved_scrut a alts" "held_scrut a" alts nl] by simp
  then show ?thesis using Case al
    by (auto simp: erase_case moved_scrut_def simp del: forget.simps(4) split: option.splits atom.splits if_splits)
qed auto

lemma thread_alts_erase:
  "(\<And>c n. c \<in> alt_body ` set alts \<Longrightarrow> forget (fst (f c n)) = forget c) \<Longrightarrow>
     map erase_alt (fst (thread_alts f alts nl)) = map erase_alt alts"
proof (induction alts arbitrary: nl)
  case (Cons l alts)
  obtain b n1 where b: "f (alt_body l) nl = (b, n1)" by fastforce
  have "forget b = forget (alt_body l)" using Cons.prems [of "alt_body l" nl] b by simp
  moreover have "map erase_alt (fst (thread_alts f alts n1)) = map erase_alt alts" using Cons by simp
  moreover have "erase_alt (with_body l b) = erase_alt l" if "forget b = forget (alt_body l)"
    using that by (simp add: erase_alt_def)
  ultimately show ?case using b by (auto split: prod.splits)
qed simp

lemma thread_children_erase:
  assumes "\<And>c n. c \<in> set (ir_children e) \<Longrightarrow> forget (fst (f c n)) = forget c"
  shows "forget (fst (thread_children f e nl)) = forget e"
proof -
  have *: "forget c' = forget c" if "c \<in> set (ir_children e)" "f c n = (c', n')" for c c' n n'
    using assms [OF that(1), of n] that(2) by simp
  show ?thesis
  proof (cases e)
    case (Case a alts d)
    obtain alts' n1 where al: "thread_alts f alts nl = (alts', n1)" by fastforce
    have "map erase_alt alts' = map erase_alt alts"
      using thread_alts_erase [of alts f nl] assms al Case by simp
    then show ?thesis using Case al * by (auto simp: erase_case simp del: forget.simps(4) split: prod.splits)
  qed (use * in \<open>auto split: prod.splits\<close>)
qed

lemma consume_scrutinees_erase: "forget (fst (consume_scrutinees e nl)) = forget e"
proof (induction e nl rule: consume_scrutinees.induct)
  case (1 e nl)
  obtain e1 n1 where c: "consume_node e nl = (e1, n1)" by fastforce
  have "forget (fst (thread_children consume_scrutinees e1 n1)) = forget e1"
    using "1.IH" [OF c [symmetric] refl] by (rule thread_children_erase)
  then show ?case using consume_node_erase [of e nl] c by (subst consume_scrutinees.simps) simp
qed

text \<open>
  C14: The ownership pass only annotates a code: with its moves, drops and reuse
  marks forgotten, the body is the one it was given, and the name, the parameters
  and their borrow flags are kept.
\<close>

theorem own_code_annotates:
  assumes "own_code c = Some c'"
  shows "forget (code_body c') = forget (code_body c) \<and> nparams c' = nparams c
     \<and> code_name c' = code_name c \<and> borrowed c' = borrowed c"
proof -
  from assms obtain e f b nl where e: "own_expr (code_body c) (pinned_in c) = Some (e, f)"
    and b: "consume_scrutinees (with_drops (filter (\<lambda>p. PLocal p \<notin> fl_live f) [0..<nparams c]) e) (nlocals c) = (b, nl)"
    and c': "c' = c\<lparr>nlocals := nl, code_body := b\<rparr>"
    by (auto simp: own_code_def Let_def split: bind_splits if_splits prod.splits)
  have "forget b = forget e"
    using consume_scrutinees_erase [of "with_drops (filter (\<lambda>p. PLocal p \<notin> fl_live f) [0..<nparams c]) e" "nlocals c"] b
    by simp
  then show ?thesis using own_expr_erase [OF e] c' by simp
qed

section \<open>Witness\<close>

theorem own_code_annotates_witness:
  "own_code demo_owned = Some demo_marked \<and> forget (code_body demo_marked) = forget (code_body demo_owned)"
  using own_code_annotates [OF demo_owned_marks] demo_owned_marks by simp

end
