(* ===== verification/Borrow.thy ===== *)
theory Borrow
  imports IR_Data Builtins "HOL-Library.Monad_Syntax"
begin

text \<open>
  Borrow inference \<^verbatim>\<open>crates/frontend/src/ir/borrow.rs\<close>: which parameters a code only reads.
  A panic of the source (an index out of range, \<^verbatim>\<open>unreachable!\<close>) is \<open>None\<close>. The visitor
  the source passes to \<^verbatim>\<open>walk\<close> is split in two: the reads it is told of, as a list,
  and the lending flag it may set.
\<close>

section \<open>What an operand is used for\<close>

definition reading_prims :: "prim list" where
  "reading_prims = [
     ''Not'', ''Neg'', ''Iadd'', ''Isub'', ''Imul'', ''Idiv'', ''Imod'', ''Udiv'', ''Umod'', ''Fadd'',
     ''Fsub'', ''Fmul'', ''Fdiv'', ''Fmod'', ''Fpow'', ''F32add'', ''F32sub'', ''F32mul'', ''F32div'',
     ''F32mod'', ''F32pow'', ''Ieq'', ''Ilt'', ''Ult'', ''Feq'', ''Flt'', ''Seq'', ''Slt'', ''Swrap'',
     ''Uwrap'', ''Eq'', ''Lt'', ''Gt'', ''Le'', ''Ge'', ''Concat'', ''Acat'', ''ArrayAlloc'', ''ArrayLen'',
     ''ArrayGet'', ''ArraySlice'', ''ArrayScan'', ''ArrayMatch'', ''PtrBytes'', ''RecordWithout'',
     ''VecNew'', ''VecLen'', ''VecGet'', ''VecSlice'', ''TensorLength'', ''TensorStack'',
     ''TensorTranspose'', ''TensorConcat'', ''TensorIndex'', ''TensorSlice'', ''TensorIndexAxis'',
     ''TensorSliceAxis'', ''Lex'', ''TokenKind'', ''TokenText'', ''Parse'', ''Unparse'', ''ParseStr'',
     ''ParseItems'', ''ParseType'', ''ParseRow'', ''Format'', ''TypeKind'', ''TypeFields'',
     ''TypeVariants'', ''TypeParams'', ''TypeOf'', ''Lookup'', ''Scope'', ''Here'', ''Check'', ''Fail'',
     ''Warn'', ''Iand'', ''Ior'', ''Ixor'', ''Inot'', ''Ishl'', ''Ishr'', ''Ushr'', ''F64Bits'',
     ''BitsF64'', ''F32Bits'', ''BitsF32'']"

fun reads_operand :: "prim \<Rightarrow> nat \<Rightarrow> bool" where
  "reads_operand p i =
     (p \<in> set reading_prims \<or> (p \<in> {''ArrayPush'', ''ArraySet''} \<and> 0 < i) \<or> (p = ''VecFill'' \<and> i = 0))"

datatype need = NOwn | NBorrowed nat

section \<open>Known callees\<close>

datatype callee = ToCode nat | ToPrim prim nat

record resolver =
  rs_globals :: "name \<Rightarrow> nat option"
  rs_bare :: "string \<Rightarrow> nat option"
  rs_ops :: "(name \<times> name) list"
  rs_returns :: "nat option list"

definition last_segment :: "string \<Rightarrow> string" where
  "last_segment s = rev (takeWhile (\<lambda>c. c \<noteq> CHR ''.'') (rev s))"

definition split_once :: "string \<Rightarrow> (string \<times> string) option" where
  "split_once s =
     (if CHR ''.'' \<in> set s
      then Some (takeWhile (\<lambda>c. c \<noteq> CHR ''.'') s, tl (dropWhile (\<lambda>c. c \<noteq> CHR ''.'') s)) else None)"

definition returned_code :: "code \<Rightarrow> nat option" where
  "returned_code c = (case code_body c of Ret (Clos cd _) \<Rightarrow> Some cd | _ \<Rightarrow> None)"

definition resolver_new :: "ir_program \<Rightarrow> resolver" where
  "resolver_new p =
     \<lparr>rs_globals = map_of (ip_globals p),
      rs_bare = map_of (map (\<lambda>(n, c). (last_segment n, c)) (ip_globals p)),
      rs_ops = map (\<lambda>e. (ce_effect e, ce_op e)) (ip_effects p),
      rs_returns = map returned_code (ip_codes p)\<rparr>"

definition is_op :: "resolver \<Rightarrow> name \<Rightarrow> bool" where
  "is_op r text =
     ((case split_once text of
         Some (eff, op) \<Rightarrow> (eff, op) \<in> set (rs_ops r)
       | None \<Rightarrow> False)
      \<or> (\<exists>(e, op) \<in> set (rs_ops r). op = text))"

definition glob :: "resolver \<Rightarrow> name \<Rightarrow> callee option" where
  "glob r n =
     (case rs_globals r n of
        Some cd \<Rightarrow> Some (ToCode cd)
      | None \<Rightarrow> (case builtin n of
          Some b \<Rightarrow> Some (ToPrim (bi_prim b) 0)
        | None \<Rightarrow>
            if take 7 n = ''TARGET.'' then None
            else if is_op r n then None
            else map_option ToCode (rs_bare r n)))"

definition callee_of :: "resolver \<Rightarrow> atom \<Rightarrow> callee option list \<Rightarrow> callee option option" where
  "callee_of r f known =
     (case f of
        Glob n \<Rightarrow> (case glob r n of
            None \<Rightarrow> Some None
          | Some (ToCode caf) \<Rightarrow> map_option (map_option ToCode) (nth_opt (rs_returns r) caf)
          | Some prim \<Rightarrow> Some (Some prim))
      | Local s \<Rightarrow> Some (if s < length known then known ! s else None)
      | Clos cd _ \<Rightarrow> Some (Some (ToCode cd))
      | _ \<Rightarrow> Some None)"

definition binds :: "resolver \<Rightarrow> irexpr \<Rightarrow> callee option list \<Rightarrow> callee option option" where
  "binds r rhs known =
     (case rhs of
        Ret a \<Rightarrow> callee_of r a known
      | App f _ _ _ \<Rightarrow> do {
          g \<leftarrow> callee_of r f known;
          (case g of
             None \<Rightarrow> Some None
           | Some (ToCode d) \<Rightarrow> map_option (map_option ToCode) (nth_opt (rs_returns r) d)
           | Some (ToPrim p n) \<Rightarrow> do {
               b \<leftarrow> prim_builtin p;
               Some (if n + 1 < bi_arity b then Some (ToPrim p (n + 1)) else None)
             })
        }
      | _ \<Rightarrow> Some None)"

section \<open>The walk\<close>

record position =
  at_tail :: bool
  at_handled :: bool

definition TAIL :: position where
  "TAIL = \<lparr>at_tail = True, at_handled = False\<rparr>"

datatype how = HBorrow | HOwn | HArg "callee option"

type_synonym event = "atom \<times> how \<times> position"

text \<open>\<^verbatim>\<open>read\<close>: an atom read, or each atom a closure built here captures.\<close>

fun reads :: "atom \<Rightarrow> how \<Rightarrow> position \<Rightarrow> event list option" where
  "reads (Clos _ captures) how at = map_option concat (those (map (\<lambda>c. reads c HOwn at) captures))"
| "reads (Move _) how at = None"
| "reads (MoveEnv _) how at = None"
| "reads a how at = Some [(a, how, at)]"

definition reads_all :: "atom list \<Rightarrow> how \<Rightarrow> position \<Rightarrow> event list option" where
  "reads_all as how at = map_option concat (those (map (\<lambda>a. reads a how at) as))"

text \<open>The visitor sees the lending flag of an argument only when it is not a closure.\<close>

type_synonym lender = "atom \<Rightarrow> callee option \<Rightarrow> position \<Rightarrow> bool \<Rightarrow> bool option"

fun is_clos :: "atom \<Rightarrow> bool" where
  "is_clos (Clos _ _) = True"
| "is_clos _ = False"

definition forget_slots :: "nat \<Rightarrow> nat \<Rightarrow> callee option list \<Rightarrow> callee option list" where
  "forget_slots base n known = take base known @ replicate n None @ drop (base + n) known"

fun walk :: "lender \<Rightarrow> resolver \<Rightarrow> irexpr \<Rightarrow> position \<Rightarrow> callee option list \<Rightarrow> (irexpr \<times> event list) option" where
  "walk ld r (Ret a) at known = do {
     es \<leftarrow> reads a HOwn at;
     Some (Ret a, es)
   }"
| "walk ld r (App f x tail lend) at known = do {
     g \<leftarrow> callee_of r f known;
     es1 \<leftarrow> reads f HOwn at;
     es2 \<leftarrow> reads x (HArg g) at;
     lend' \<leftarrow> (if is_clos x then Some lend else ld x g at lend);
     Some (App f x tail lend', es1 @ es2)
   }"
| "walk ld r (Let slot rhs body) at known = do {
     (rhs', es1) \<leftarrow> walk ld r rhs (at\<lparr>at_tail := False\<rparr>) known;
     bound \<leftarrow> binds r rhs known;
     _ \<leftarrow> (if slot < length known then Some () else None);
     (body', es2) \<leftarrow> walk ld r body at (known[slot := bound]);
     Some (Let slot rhs' body', es1 @ es2)
   }"
| "walk ld r (Case scrut alts d) at known = do {
     es1 \<leftarrow> reads scrut HBorrow at;
     rs \<leftarrow> those (map (\<lambda>a.
        if binder_base a + length (binders a) \<le> length known
        then walk ld r (alt_body a) at (forget_slots (binder_base a) (length (binders a)) known) else None) alts);
     (d', es3) \<leftarrow> walk ld r d at known;
     Some (Case scrut (map2 (\<lambda>a x. Alt (alt_kind a) (binder_base a) (binders a) (fst x) (alt_unpack a)) alts rs) d',
           es1 @ concat (map snd rs) @ es3)
   }"
| "walk ld r (MkStruct n base fs) at known = do {
     es1 \<leftarrow> (case base of None \<Rightarrow> Some [] | Some b \<Rightarrow> reads b HBorrow at);
     es2 \<leftarrow> reads_all (map snd fs) HOwn at;
     Some (MkStruct n base fs, es1 @ es2)
   }"
| "walk ld r (Field a n) at known = do {
     es \<leftarrow> reads a HBorrow at;
     Some (Field a n, es)
   }"
| "walk ld r (MkVariant ty tag fs reuse) at known = do {
     es \<leftarrow> reads_all fs HOwn at;
     Some (MkVariant ty tag fs reuse, es)
   }"
| "walk ld r (MkTuple fs) at known = do {
     es \<leftarrow> reads_all fs HOwn at;
     Some (MkTuple fs, es)
   }"
| "walk ld r (Handle body cls els) at known = do {
     es1 \<leftarrow> reads_all (map hc_fun cls) HOwn at;
     es2 \<leftarrow> reads els HOwn at;
     (body', es3) \<leftarrow> walk ld r body \<lparr>at_tail = True, at_handled = True\<rparr> known;
     Some (Handle body' cls els, es1 @ es2 @ es3)
   }"
| "walk ld r (Defer cleanup body) at known = do {
     es1 \<leftarrow> reads cleanup HOwn at;
     (body', es2) \<leftarrow> walk ld r body (at\<lparr>at_tail := True\<rparr>) known;
     Some (Defer cleanup body', es1 @ es2)
   }"
| "walk ld r (IFault msg) at known = Some (IFault msg, [])"
| "walk ld r (Drop ss body) at known = None"

section \<open>Parts of parameters\<close>

fun part_sources :: "nat \<Rightarrow> nat list list \<Rightarrow> atom \<Rightarrow> nat list option" where
  "part_sources nps parts (Local x) = (if x < nps then Some [x] else nth_opt parts x)"
| "part_sources nps parts _ = Some []"

fun extend_parts :: "nat list \<Rightarrow> nat list \<Rightarrow> nat list list \<Rightarrow> nat list list option" where
  "extend_parts [] from parts = Some parts"
| "extend_parts (b # bs) from parts =
     (if b < length parts then extend_parts bs from (parts[b := parts ! b @ from]) else None)"

fun fold_parts :: "('a \<Rightarrow> nat list list \<Rightarrow> nat list list option) \<Rightarrow> 'a list \<Rightarrow> nat list list \<Rightarrow> nat list list option" where
  "fold_parts f [] parts = Some parts"
| "fold_parts f (x # xs) parts = do { parts1 \<leftarrow> f x parts; fold_parts f xs parts1 }"

lemma fold_parts_cong [fundef_cong]:
  assumes "xs = ys" "\<And>x. x \<in> set ys \<Longrightarrow> f x = g x"
  shows "fold_parts f xs = fold_parts g ys"
proof
  fix parts show "fold_parts f xs parts = fold_parts g ys parts"
    using assms(2) unfolding assms(1) by (induction ys arbitrary: parts) (auto intro: bind_option_cong)
qed

function (sequential) parts_of_params :: "nat \<Rightarrow> irexpr \<Rightarrow> nat list list \<Rightarrow> nat list list option" where
  "parts_of_params nps (Let slot rhs body) parts = do {
     parts1 \<leftarrow> parts_of_params nps rhs parts;
     parts2 \<leftarrow> (case rhs of
         Field a _ \<Rightarrow> do { from \<leftarrow> part_sources nps parts1 a; extend_parts [slot] from parts1 }
       | _ \<Rightarrow> Some parts1);
     parts_of_params nps body parts2
   }"
| "parts_of_params nps (Case scrut alts d) parts = do {
     from \<leftarrow> part_sources nps parts scrut;
     parts1 \<leftarrow> fold_parts (\<lambda>a parts. do {
         parts' \<leftarrow> extend_parts [binder_base a ..< binder_base a + length (binders a)] from parts;
         parts_of_params nps (alt_body a) parts'
       }) alts parts;
     parts_of_params nps d parts1
   }"
| "parts_of_params nps e parts = fold_parts (parts_of_params nps) (ir_children e) parts"
  by pat_completeness auto
termination
  by (relation "measure (\<lambda>(nps, e, parts). size e)") (auto intro: size_ir_children simp: size_alt_body)

section \<open>Facts\<close>

definition need_of :: "how \<Rightarrow> position \<Rightarrow> need option" where
  "need_of how at =
     (if at_handled at then Some NOwn
      else case how of
        HBorrow \<Rightarrow> None
      | HOwn \<Rightarrow> Some NOwn
      | HArg (Some (ToCode d)) \<Rightarrow> Some (NBorrowed d)
      | HArg (Some (ToPrim p i)) \<Rightarrow> if reads_operand p i then None else Some NOwn
      | HArg None \<Rightarrow> Some NOwn)"

definition params_of :: "nat \<Rightarrow> nat list list \<Rightarrow> nat \<Rightarrow> nat list option" where
  "params_of nps parts s = (if s < nps then Some [s] else nth_opt parts s)"

fun event_facts :: "nat \<Rightarrow> nat list list \<Rightarrow> event \<Rightarrow> (nat \<times> need) list option" where
  "event_facts nps parts (Local s, how, at) =
     map_option (\<lambda>ps. case need_of how at of None \<Rightarrow> [] | Some nd \<Rightarrow> map (\<lambda>p. (p, nd)) ps) (params_of nps parts s)"
| "event_facts nps parts _ = Some []"

fun called_code :: "event \<Rightarrow> nat option" where
  "called_code (a, HArg (Some (ToCode d)), at) = Some d"
| "called_code _ = None"

text \<open>The first visitor: it reads the flag and leaves it as it is.\<close>

definition keep_flag :: lender where
  "keep_flag a g at lend = Some lend"

definition code_facts :: "resolver \<Rightarrow> code \<Rightarrow> (nat list \<times> (nat \<times> need) list) option" where
  "code_facts r c = do {
     parts \<leftarrow> parts_of_params (nparams c) (code_body c) (replicate (nlocals c) []);
     (_, es) \<leftarrow> walk keep_flag r (code_body c) TAIL (replicate (nlocals c) None);
     fs \<leftarrow> those (map (event_facts (nparams c) parts) es);
     Some (List.map_filter called_code es, concat fs)
   }"

section \<open>The fixpoint\<close>

definition first_flag :: "bool list \<Rightarrow> bool" where
  "first_flag bs = (case bs of [] \<Rightarrow> False | b # _ \<Rightarrow> b)"

fun keep_need :: "bool list list \<Rightarrow> need \<Rightarrow> bool option" where
  "keep_need b NOwn = Some False"
| "keep_need b (NBorrowed d) = map_option first_flag (nth_opt b d)"

definition demote :: "nat \<Rightarrow> nat \<times> need \<Rightarrow> bool list list \<times> bool \<Rightarrow> (bool list list \<times> bool) option" where
  "demote c x s = (case (x, s) of ((p, need), (b, changed)) \<Rightarrow> do {
     keep \<leftarrow> keep_need b need;
     (if keep then Some (b, changed)
      else do {
        bc \<leftarrow> nth_opt b c;
        v \<leftarrow> nth_opt bc p;
        Some (if v then (b[c := bc[p := False]], True) else (b, changed))
      })
   })"

fun fold_opt :: "('a \<Rightarrow> 's \<Rightarrow> 's option) \<Rightarrow> 'a list \<Rightarrow> 's \<Rightarrow> 's option" where
  "fold_opt f [] s = Some s"
| "fold_opt f (x # xs) s = do { s1 \<leftarrow> f x s; fold_opt f xs s1 }"

text \<open>One round of the \<^verbatim>\<open>while changed\<close> loop; a fact is paired with the code it is about.\<close>

definition sweep :: "(nat \<times> nat \<times> need) list \<Rightarrow> bool list list \<Rightarrow> (bool list list \<times> bool) option" where
  "sweep facts b = fold_opt (\<lambda>(c, f). demote c f) facts (b, False)"

definition flags_set :: "bool list list \<Rightarrow> nat" where
  "flags_set b = sum_list (map (\<lambda>bs. length (filter (\<lambda>x. x) bs)) b)"

lemma filter_update_less:
  "p < length bs \<Longrightarrow> bs ! p \<Longrightarrow> length (filter (\<lambda>x. x) (bs[p := False])) < length (filter (\<lambda>x. x) bs)"
proof (induction bs arbitrary: p)
  case (Cons x bs)
  then show ?case by (cases p) auto
qed simp

lemma flags_set_update:
  "c < length b \<Longrightarrow> length (filter (\<lambda>x. x) bs) < length (filter (\<lambda>x. x) (b ! c)) \<Longrightarrow> flags_set (b[c := bs]) < flags_set b"
proof (induction b arbitrary: c)
  case (Cons x b)
  then show ?case by (cases c) (auto simp: flags_set_def)
qed simp

lemma demote_flags:
  assumes "demote c f (b, ch) = Some (b', ch')"
  shows "(b' = b \<and> ch' = ch) \<or> (ch' \<and> flags_set b' < flags_set b)"
  using assms
  by (auto simp: demote_def filter_update_less flags_set_update split: prod.splits bind_splits if_splits)

lemma fold_demote_flags:
  "fold_opt (\<lambda>(c, f). demote c f) facts (b, ch) = Some (b', ch') \<Longrightarrow>
     (b' = b \<and> ch' = ch) \<or> (ch' \<and> flags_set b' < flags_set b)"
proof (induction facts arbitrary: b ch)
  case (Cons f facts)
  obtain c g where f: "f = (c, g)" by (cases f)
  from Cons.prems f obtain b1 ch1 where d: "demote c g (b, ch) = Some (b1, ch1)"
    and r: "fold_opt (\<lambda>(c, f). demote c f) facts (b1, ch1) = Some (b', ch')"
    by (auto split: bind_splits)
  show ?case using demote_flags [OF d] Cons.IH [OF r] by auto
qed simp

lemma sweep_flags: "sweep facts b = Some (b', True) \<Longrightarrow> flags_set b' < flags_set b"
  unfolding sweep_def using fold_demote_flags by fastforce

function greatest :: "(nat \<times> nat \<times> need) list \<Rightarrow> bool list list \<Rightarrow> bool list list option" where
  "greatest facts b =
     (case sweep facts b of
        None \<Rightarrow> None
      | Some (b', changed) \<Rightarrow> if changed then greatest facts b' else Some b')"
  by pat_completeness auto
termination
  by (relation "measure (\<lambda>(facts, b). flags_set b)") (auto dest: sweep_flags)

declare greatest.simps [simp del]

section \<open>The pass\<close>

text \<open>The second visitor, for a code whose own flags are \<open>mine\<close>.\<close>

definition lend_flag :: "resolver \<Rightarrow> bool list list \<Rightarrow> bool list \<Rightarrow> lender" where
  "lend_flag r b mine a g at lend =
     (case g of
        Some (ToCode d) \<Rightarrow> do {
          bd \<leftarrow> nth_opt b d;
          Some (if \<not> first_flag bd \<or> at_handled at then lend
                else case a of
                  Local s \<Rightarrow> if at_tail at then s < length mine \<and> mine ! s else True
                | Env _ \<Rightarrow> \<not> at_tail at
                | Glob n \<Rightarrow> (case glob r n of Some (ToCode _) \<Rightarrow> True | _ \<Rightarrow> False)
                | _ \<Rightarrow> False)
        }
      | _ \<Rightarrow> Some lend)"

definition lend_code :: "resolver \<Rightarrow> bool list list \<Rightarrow> code \<Rightarrow> bool list \<Rightarrow> code option" where
  "lend_code r b c mine = do {
     (body, _) \<leftarrow> walk (lend_flag r b mine) r (code_body c) TAIL (replicate (nlocals c) None);
     Some (c\<lparr>code_body := body, borrowed := mine\<rparr>)
   }"

definition all_facts :: "(nat list \<times> (nat \<times> need) list) list \<Rightarrow> (nat \<times> nat \<times> need) list" where
  "all_facts rs = concat (map (\<lambda>(c, r). map (Pair c) (snd r)) (enumerate 0 rs))"

definition initial_flags :: "(nat list \<times> (nat \<times> need) list) list \<Rightarrow> code list \<Rightarrow> bool list list" where
  "initial_flags rs codes =
     map (\<lambda>(c, code). replicate (nparams code) (\<exists>r \<in> set rs. c \<in> set (fst r))) (enumerate 0 codes)"

definition infer_borrowed_params :: "ir_program \<Rightarrow> ir_program option" where
  "infer_borrowed_params p = do {
     let r = resolver_new p;
     rs \<leftarrow> those (map (code_facts r) (ip_codes p));
     _ \<leftarrow> (if list_all (\<lambda>x. list_all (\<lambda>d. d < length (ip_codes p)) (fst x)) rs then Some () else None);
     b \<leftarrow> greatest (all_facts rs) (initial_flags rs (ip_codes p));
     codes \<leftarrow> those (map2 (lend_code r b) (ip_codes p) b);
     Some (p\<lparr>ip_codes := codes\<rparr>)
   }"

end
