(* ===== verification/Lowering.thy ===== *)
theory Lowering
  imports Conversion_Program Ownership_Erase Borrow_Sound Match_Sound
begin

text \<open>
  The middle end \<^verbatim>\<open>crates/frontend/src/ir.rs\<close>, from merged Core to marked IR: match compilation, A-normal
  form, indexing, closure conversion, borrow inference and ownership, composed as
  \<^verbatim>\<open>passes_on\<close> and \<^verbatim>\<open>lower\<close> compose them. The contract each pass relies on is the one
  the pass before it establishes, so the whole never panics.
\<close>

section \<open>The pipeline\<close>



section \<open>Indexing keeps A-normal form\<close>

lemma is_atom_assign [simp]: "is_atom (assign names t) = is_atom t"
proof (cases t)
  case (Tree a n)
  then show ?thesis by (cases n) (simp_all add: is_atom_def)
qed





section \<open>Lowering is total\<close>






end
