(* ===== verification/Rust_Str.thy ===== *)
theory Rust_Str
  imports Prelude
begin

text \<open>
  Rust's \<^verbatim>\<open>str\<close> as the front end uses it: a sequence of bytes in UTF-8. A byte is a
  \<^typ>\<open>char\<close>, which has the same 256 values. Slicing off a character boundary
  panics, so it is \<^term>\<open>None\<close>.
\<close>

section \<open>Bytes and boundaries\<close>

abbreviation byte :: "char \<Rightarrow> nat" where
  "byte c \<equiv> of_char c"

definition cont_byte :: "char \<Rightarrow> bool" where
  "cont_byte c \<longleftrightarrow> 128 \<le> byte c \<and> byte c < 192"

definition ascii :: "char \<Rightarrow> bool" where
  "ascii c \<longleftrightarrow> byte c < 128"

definition is_char_boundary :: "string \<Rightarrow> nat \<Rightarrow> bool" where
  "is_char_boundary s i \<longleftrightarrow> i = 0 \<or> i = length s \<or> i < length s \<and> \<not> cont_byte (s ! i)"

definition str_slice :: "string \<Rightarrow> nat \<Rightarrow> nat \<Rightarrow> string option" where
  "str_slice s i j =
     (if i \<le> j \<and> is_char_boundary s i \<and> is_char_boundary s j then Some (take (j - i) (drop i s)) else None)"

section \<open>UTF-8\<close>

definition conts :: "nat \<Rightarrow> string \<Rightarrow> bool" where
  "conts n s \<longleftrightarrow> n \<le> length s \<and> list_all cont_byte (take n s)"

text \<open>The width of the well-formed sequence a string starts with.\<close>

fun utf8_width :: "string \<Rightarrow> nat option" where
  "utf8_width [] = None"
| "utf8_width (a # s) =
     (if byte a < 128 then Some 1
      else if 194 \<le> byte a \<and> byte a < 224 \<and> conts 1 s then Some 2
      else if 224 \<le> byte a \<and> byte a < 240 \<and> conts 2 s
           \<and> (byte a = 224 \<longrightarrow> 160 \<le> byte (hd s)) \<and> (byte a = 237 \<longrightarrow> byte (hd s) < 160) then Some 3
      else if 240 \<le> byte a \<and> byte a < 245 \<and> conts 3 s
           \<and> (byte a = 240 \<longrightarrow> 144 \<le> byte (hd s)) \<and> (byte a = 244 \<longrightarrow> byte (hd s) < 144) then Some 4
      else None)"

lemma utf8_width_bounds: "utf8_width s = Some k \<Longrightarrow> 0 < k \<and> k \<le> length s"
  by (cases s) (auto simp: conts_def split: if_splits)

function valid_utf8 :: "string \<Rightarrow> bool" where
  "valid_utf8 s = (case utf8_width s of None \<Rightarrow> s = [] | Some k \<Rightarrow> valid_utf8 (drop k s))"
  by pat_completeness auto
termination
  by (relation "measure length") (auto dest: utf8_width_bounds)

declare valid_utf8.simps [simp del]

text \<open>\<^verbatim>\<open>char::encode_utf8\<close>, \<^verbatim>\<open>char::from_u32\<close> and \<^verbatim>\<open>str::chars\<close> on code points.\<close>

definition from_u32 :: "nat \<Rightarrow> nat option" where
  "from_u32 cp = (if cp < 55296 \<or> 57344 \<le> cp \<and> cp < 1114112 then Some cp else None)"

definition encode_utf8 :: "nat \<Rightarrow> string" where
  "encode_utf8 cp =
     map char_of
       (if cp < 128 then [cp]
        else if cp < 2048 then [192 + cp div 64, 128 + cp mod 64]
        else if cp < 65536 then [224 + cp div 4096, 128 + cp div 64 mod 64, 128 + cp mod 64]
        else [240 + cp div 262144, 128 + cp div 4096 mod 64, 128 + cp div 64 mod 64, 128 + cp mod 64])"

definition code_point :: "string \<Rightarrow> nat \<Rightarrow> nat" where
  "code_point s k =
     (if k = 1 then byte (s ! 0)
      else if k = 2 then (byte (s ! 0) - 192) * 64 + (byte (s ! 1) - 128)
      else if k = 3 then (byte (s ! 0) - 224) * 4096 + (byte (s ! 1) - 128) * 64 + (byte (s ! 2) - 128)
      else (byte (s ! 0) - 240) * 262144 + (byte (s ! 1) - 128) * 4096 + (byte (s ! 2) - 128) * 64 + (byte (s ! 3) - 128))"

function chars :: "string \<Rightarrow> nat list" where
  "chars s = (case utf8_width s of None \<Rightarrow> [] | Some k \<Rightarrow> code_point s k # chars (drop k s))"
  by pat_completeness auto
termination
  by (relation "measure length") (auto dest: utf8_width_bounds)

declare chars.simps [simp del]

section \<open>Facts\<close>

lemma ascii_not_cont: "ascii c \<Longrightarrow> \<not> cont_byte c"
  by (simp add: ascii_def cont_byte_def)

lemma valid_utf8_Nil [simp]: "valid_utf8 []"
  by (simp add: valid_utf8.simps)

lemma valid_utf8_step: "utf8_width s = Some k \<Longrightarrow> valid_utf8 s = valid_utf8 (drop k s)"
  by (subst valid_utf8.simps) simp

lemma valid_utf8_width: "valid_utf8 s \<Longrightarrow> s \<noteq> [] \<Longrightarrow> \<exists>k. utf8_width s = Some k"
  by (subst (asm) valid_utf8.simps) (auto split: option.splits)

lemma valid_utf8_head: "valid_utf8 (c # s) \<Longrightarrow> \<not> cont_byte c"
  using valid_utf8_width [of "c # s"] by (auto simp: cont_byte_def split: if_splits)

text \<open>The bytes of one sequence after the first are continuation bytes, so a byte below 128 is a sequence.\<close>

lemma utf8_width_conts:
  assumes "utf8_width s = Some k" "0 < i" "i < k"
  shows "cont_byte (s ! i)"
proof -
  obtain a t where s: "s = a # t" using assms(1) by (cases s) auto
  have "conts (k - 1) t" using assms s by (auto split: if_splits)
  moreover have "i - 1 < length (take (k - 1) t)" using assms calculation by (simp add: conts_def)
  ultimately have "cont_byte (take (k - 1) t ! (i - 1))" by (auto simp: conts_def list_all_length)
  then show ?thesis using s assms(2,3) by (cases i) auto
qed

lemma utf8_width_one: "utf8_width s = Some k \<Longrightarrow> ascii (s ! 0) \<Longrightarrow> k = 1"
  by (cases s) (auto simp: ascii_def split: if_splits)

lemma after_ascii:
  assumes "valid_utf8 s" "i < length s" "ascii (s ! i)" "Suc i < length s"
  shows "\<not> cont_byte (s ! Suc i)"
  using assms
proof (induction s arbitrary: i rule: valid_utf8.induct)
  case (1 s)
  obtain k where k: "utf8_width s = Some k" using valid_utf8_width [OF "1.prems"(1)] "1.prems"(2) by fastforce
  have v: "valid_utf8 (drop k s)" using "1.prems"(1) valid_utf8_step [OF k] by simp
  note b = utf8_width_bounds [OF k]
  show ?case
  proof (cases "i < k")
    case True
    then have "i = 0" using utf8_width_conts [OF k, of i] ascii_not_cont [OF "1.prems"(3)] by (cases i) auto
    moreover have "k = 1" using utf8_width_one [OF k] "1.prems"(3) calculation by simp
    ultimately show ?thesis using v "1.prems"(4) valid_utf8_head [of "s ! 1" "drop 2 s"]
      by (auto simp: Cons_nth_drop_Suc [symmetric] numeral_2_eq_2)
  next
    case False
    then have "\<not> cont_byte (drop k s ! Suc (i - k))"
      using "1.prems" b v by (intro "1.IH" [OF k]) auto
    then show ?thesis using False b by (simp add: Suc_diff_le [symmetric])
  qed
qed

text \<open>Cutting in front of an \<open>ascii\<close> byte or after one is safe.\<close>

lemma boundary_at_ascii: "i < length s \<Longrightarrow> ascii (s ! i) \<Longrightarrow> is_char_boundary s i"
  by (simp add: is_char_boundary_def ascii_not_cont)

lemma boundary_after_ascii: "valid_utf8 s \<Longrightarrow> i < length s \<Longrightarrow> ascii (s ! i) \<Longrightarrow> is_char_boundary s (Suc i)"
  using after_ascii [of s i] by (auto simp: is_char_boundary_def)

lemma boundary_end [simp]: "is_char_boundary s (length s)" "is_char_boundary s 0"
  by (simp_all add: is_char_boundary_def)

text \<open>What \<open>encode_utf8\<close> writes is one well-formed sequence that reads back the code point.\<close>

lemma byte_char_of [simp]: "n < 256 \<Longrightarrow> byte (char_of n) = (n :: nat)"
  by simp

lemma base64_digits:
  fixes cp :: nat
  obtains a b d x y z where "cp div 64 = a" "cp div 4096 = b" "cp div 262144 = d"
    "cp mod 64 = x" "a mod 64 = y" "b mod 64 = z"
    "cp = a * 64 + x" "a = b * 64 + y" "b = d * 64 + z" "x < 64" "y < 64" "z < 64"
proof (rule that [of "cp div 64" "cp div 4096" "cp div 262144"])
  have "(4096 :: nat) = 64 * 64" "(262144 :: nat) = 4096 * 64" by simp_all
  then have "cp div 64 div 64 = cp div 4096" "cp div 4096 div 64 = cp div 262144" by (simp_all only: div_mult2_eq)
  then show "cp div 64 = cp div 4096 * 64 + cp div 64 mod 64" "cp div 4096 = cp div 262144 * 64 + cp div 4096 mod 64"
    by (metis div_mult_mod_eq)+
qed (rule refl mod_less_divisor div_mult_mod_eq [symmetric] | simp)+

lemma encode_utf8_decodes:
  assumes "from_u32 cp = Some c"
  shows "utf8_width (encode_utf8 c @ s) = Some (length (encode_utf8 c)) \<and> code_point (encode_utf8 c @ s) (length (encode_utf8 c)) = cp"
proof -
  have c: "c = cp" "cp < 55296 \<or> 57344 \<le> cp \<and> cp < 1114112" using assms by (auto simp: from_u32_def split: if_splits)
  obtain a b d x y z where e: "cp div 64 = a" "cp div 4096 = b" "cp div 262144 = d"
    "cp mod 64 = x" "a mod 64 = y" "b mod 64 = z"
    and eq: "cp = a * 64 + x" "a = b * 64 + y" "b = d * 64 + z" and lt: "x < 64" "y < 64" "z < 64"
    by (rule base64_digits [of cp])
  consider "cp < 128" | "128 \<le> cp" "cp < 2048" | "2048 \<le> cp" "cp < 65536" | "65536 \<le> cp" by linarith
  then show ?thesis
  proof cases
    case 1
    then show ?thesis using c by (simp add: encode_utf8_def code_point_def)
  next
    case 2
    have "2 \<le> a" "a < 32" "a * 64 + x = cp" using 2 eq lt by linarith+
    then show ?thesis using 2 c lt by (simp add: encode_utf8_def code_point_def conts_def cont_byte_def e)
  next
    case 3
    have "b < 16" "b = 0 \<Longrightarrow> 32 \<le> y" "b = 13 \<Longrightarrow> y < 32" "b * 4096 + y * 64 + x = cp" using 3 c eq lt by linarith+
    then show ?thesis using 3 c(1) lt by (simp add: encode_utf8_def code_point_def conts_def cont_byte_def e)
  next
    case 4
    have "d \<le> 4" "d = 0 \<Longrightarrow> 16 \<le> z" "d = 4 \<Longrightarrow> z < 16" "d * 262144 + z * 4096 + y * 64 + x = cp"
      using 4 c eq lt by linarith+
    then show ?thesis using 4 c(1) lt by (simp add: encode_utf8_def code_point_def conts_def cont_byte_def e)
  qed
qed

lemma valid_utf8_encode:
  "from_u32 cp = Some c \<Longrightarrow> valid_utf8 (encode_utf8 c @ s) = valid_utf8 s"
  using encode_utf8_decodes [of cp c s] valid_utf8_step [of "encode_utf8 c @ s"] by simp

end
