(* ===== verification/Diagnostics.thy ===== *)
theory Diagnostics
  imports Rust_Str "HOL-Library.Monad_Syntax" "HOL-Library.Product_Lexorder"
begin

text \<open>
  The diagnostics of \<^verbatim>\<open>crates/utilities/src/error.rs\<close>: spans into the source, error
  codes, the chain of frames with its labels, notes and fixes, the builders that
  passes use on the error path, applying the edits of a fix, and the nearest name
  for a misspelling. An index or a slice that panics is \<^term>\<open>None\<close>.
\<close>

section \<open>Spans and codes\<close>

record span =
  span_start :: nat
  span_end :: nat

definition span_new :: "nat \<Rightarrow> nat \<Rightarrow> span option" where
  "span_new s e = (if s \<le> e then Some \<lparr>span_start = s, span_end = e\<rparr> else None)"

definition span_at :: "nat \<Rightarrow> span" where
  "span_at offset = \<lparr>span_start = offset, span_end = offset\<rparr>"

definition span_is_empty :: "span \<Rightarrow> bool" where
  "span_is_empty s \<longleftrightarrow> span_start s = span_end s"

definition span_slice :: "span \<Rightarrow> string \<Rightarrow> string option" where
  "span_slice s source = str_slice source (span_start s) (span_end s)"

datatype error_code =
    OkCode | AsciiControlChar | NonAsciiChar | IllegalReservedChar | UnclosedQuote | InvalidEscape | InvalidUtf8
  | NumberParsingFailure | UnknownSymbol | ExpectedOperand | UnexpectedToken | UnbalancedParenthesis | ExpectedGlobal
  | Unsupported | TypeMismatch | TypeUnbound | TypeAnnotationRequired | TypeCycle | BadModuleName | FilenameMismatch
  | AmbiguousName | DuplicateSymbol | UnknownModule | PrivateSymbol | NoEntry | EntrySignature | MetaAbort | MetaWarning
  | BuildScript | IntLiteralRange | NonExhaustiveMatch | UnreachableArm | RuntimeFault | ExpansionLimit | TypedHole

fun code_name_of :: "error_code \<Rightarrow> string" where
  "code_name_of OkCode = ''OK''"
| "code_name_of AsciiControlChar = ''ASCII_CTR_CHAR''"
| "code_name_of NonAsciiChar = ''NON_ASCII_CHAR''"
| "code_name_of IllegalReservedChar = ''ILLEGAL_RESERVED_CHAR''"
| "code_name_of UnclosedQuote = ''QUOTM_UNCLOSED''"
| "code_name_of InvalidEscape = ''INVALID_ESCAPE''"
| "code_name_of InvalidUtf8 = ''INVALID_UTF8''"
| "code_name_of NumberParsingFailure = ''NUMBER_PARSING_FAILURE''"
| "code_name_of UnknownSymbol = ''UNKNOWN_SYMBOL''"
| "code_name_of ExpectedOperand = ''EXPECTED_OPERAND''"
| "code_name_of UnexpectedToken = ''UNEXPECTED_TOKEN''"
| "code_name_of UnbalancedParenthesis = ''PARENTHESIS_UNBALANCED''"
| "code_name_of ExpectedGlobal = ''EXPECTED_GLOBAL''"
| "code_name_of Unsupported = ''UNSUPPORTED''"
| "code_name_of TypeMismatch = ''TYPE_MISMATCH''"
| "code_name_of TypeUnbound = ''TYPE_UNBOUND''"
| "code_name_of TypeAnnotationRequired = ''TYPE_ANNOTATION_REQUIRED''"
| "code_name_of TypeCycle = ''TYPE_CYCLE''"
| "code_name_of BadModuleName = ''BAD_MODULE_NAME''"
| "code_name_of FilenameMismatch = ''FILENAME_MISMATCH''"
| "code_name_of AmbiguousName = ''AMBIGUOUS_NAME''"
| "code_name_of DuplicateSymbol = ''DUPLICATE_SYMBOL''"
| "code_name_of UnknownModule = ''UNKNOWN_MODULE''"
| "code_name_of PrivateSymbol = ''PRIVATE_SYMBOL''"
| "code_name_of NoEntry = ''NO_ENTRY''"
| "code_name_of EntrySignature = ''ENTRY_SIGNATURE''"
| "code_name_of MetaAbort = ''META_ABORT''"
| "code_name_of MetaWarning = ''META_WARNING''"
| "code_name_of BuildScript = ''BUILD_SCRIPT''"
| "code_name_of IntLiteralRange = ''INT_LITERAL_RANGE''"
| "code_name_of NonExhaustiveMatch = ''NON_EXHAUSTIVE_MATCH''"
| "code_name_of UnreachableArm = ''UNREACHABLE_ARM''"
| "code_name_of RuntimeFault = ''RUNTIME_FAULT''"
| "code_name_of ExpansionLimit = ''EXPANSION_LIMIT''"
| "code_name_of TypedHole = ''TYPED_HOLE''"

datatype severity = Error | Warning | Info | Hint

fun lead :: "severity \<Rightarrow> string" where
  "lead Error = ''error''"
| "lead Warning = ''warning''"
| "lead Info = ''info''"
| "lead Hint = ''hint''"

datatype aside_kind = NoteAside | HelpAside

datatype applicability = MachineApplicable | MaybeIncorrect | HasPlaceholders | Unspecified

section \<open>Diagnostics\<close>

record frame =
  frame_code :: error_code
  frame_span :: span
  frame_line :: nat
  frame_msg :: string

record edit =
  edit_span :: span
  edit_text :: string

record diag_help =
  help_msg :: string
  help_edits :: "edit list"
  help_applicability :: applicability

record label =
  label_span :: span
  label_msg :: string

record diagnostic =
  frames :: "frame list"
  diag_severity :: severity
  labels :: "label list"
  diag_notes :: "string list"
  helps :: "diag_help list"
  fragment :: "(string \<times> nat) option"

definition located_edits :: "diag_help \<Rightarrow> edit list option" where
  "located_edits h =
     (if help_edits h \<noteq> [] \<and> list_all (\<lambda>e. edit_span e \<noteq> span_at 0) (help_edits h) then Some (help_edits h) else None)"

definition diag_error :: "error_code \<Rightarrow> span \<Rightarrow> nat \<Rightarrow> string \<Rightarrow> diagnostic" where
  "diag_error c s l msg =
     \<lparr>frames = [\<lparr>frame_code = c, frame_span = s, frame_line = l, frame_msg = msg\<rparr>], diag_severity = Error,
      labels = [], diag_notes = [], helps = [], fragment = None\<rparr>"

definition with_fragment :: "string \<Rightarrow> nat \<Rightarrow> diagnostic \<Rightarrow> diagnostic" where
  "with_fragment text b d = d\<lparr>fragment := Some (text, b)\<rparr>"

text \<open>Rewriting the root frame indexes the chain.\<close>

definition on_root :: "(frame \<Rightarrow> frame) \<Rightarrow> diagnostic \<Rightarrow> diagnostic option" where
  "on_root f d = (case frames d of [] \<Rightarrow> None | r # rs \<Rightarrow> Some (d\<lparr>frames := f r # rs\<rparr>))"

definition on_edits :: "(edit \<Rightarrow> edit) \<Rightarrow> diagnostic \<Rightarrow> diagnostic" where
  "on_edits f d = d\<lparr>helps := map (\<lambda>h. h\<lparr>help_edits := map f (help_edits h)\<rparr>) (helps d)\<rparr>"

text \<open>
  A span relative to the fragment. Both ends are clamped the same way, so the
  span \<open>place\<close> gets is ordered whenever the original is.
\<close>

definition relative :: "string \<Rightarrow> nat \<Rightarrow> span \<Rightarrow> span option" where
  "relative text b s = (let rel = (\<lambda>at. min (at - b) (length text)) in span_new (rel (span_start s)) (rel (span_end s)))"

definition place_fragment :: "(span \<Rightarrow> span option) \<Rightarrow> diagnostic \<Rightarrow> diagnostic option" where
  "place_fragment place d =
     (case fragment d of
        None \<Rightarrow> Some d
      | Some (text, b) \<Rightarrow> do {
          let f = (\<lambda>s. map_option place (relative text b s));
          r \<leftarrow> nth_opt (frames d) 0;
          placed \<leftarrow> f (frame_span r);
          d1 \<leftarrow> on_root (\<lambda>fr. fr\<lparr>frame_span := (case placed of None \<Rightarrow> span_at 0 | Some s \<Rightarrow> s)\<rparr>) (d\<lparr>fragment := None\<rparr>);
          ls \<leftarrow> those (map (\<lambda>l. map_option (\<lambda>p. case p of None \<Rightarrow> [] | Some s \<Rightarrow> [l\<lparr>label_span := s\<rparr>]) (f (label_span l))) (labels d));
          hs \<leftarrow> those (map (\<lambda>h. map_option (\<lambda>es. h\<lparr>help_edits := concat es\<rparr>)
                 (those (map (\<lambda>e. map_option (\<lambda>p. case p of None \<Rightarrow> [] | Some s \<Rightarrow> [e\<lparr>edit_span := s\<rparr>]) (f (edit_span e))) (help_edits h)))) (helps d));
          Some (d1\<lparr>labels := concat ls, helps := hs\<rparr>)
        })"

definition with_severity :: "severity \<Rightarrow> diagnostic \<Rightarrow> diagnostic" where
  "with_severity s d = d\<lparr>diag_severity := s\<rparr>"

definition with_note :: "string \<Rightarrow> diagnostic \<Rightarrow> diagnostic" where
  "with_note note d = d\<lparr>diag_notes := diag_notes d @ [note]\<rparr>"

definition with_help :: "string \<Rightarrow> diagnostic \<Rightarrow> diagnostic" where
  "with_help text d =
     d\<lparr>helps := helps d @ [\<lparr>help_msg = text, help_edits = [], help_applicability = Unspecified\<rparr>]\<rparr>"

fun aside :: "aside_kind \<Rightarrow> string \<Rightarrow> diagnostic \<Rightarrow> diagnostic" where
  "aside NoteAside text d = with_note text d"
| "aside HelpAside text d = with_help text d"

definition at_sentinel :: "span \<Rightarrow> edit \<Rightarrow> edit" where
  "at_sentinel primary e = (if edit_span e = span_at 0 then e\<lparr>edit_span := primary\<rparr> else e)"

definition with_fix :: "string \<Rightarrow> edit list \<Rightarrow> applicability \<Rightarrow> diagnostic \<Rightarrow> diagnostic option" where
  "with_fix msg es a d = do {
     r \<leftarrow> nth_opt (frames d) 0;
     Some (d\<lparr>helps := helps d @
       [\<lparr>help_msg = msg, help_edits = map (at_sentinel (frame_span r)) es, help_applicability = a\<rparr>]\<rparr>)
   }"

definition with_label :: "span \<Rightarrow> string \<Rightarrow> diagnostic \<Rightarrow> diagnostic" where
  "with_label s msg d =
     (if s \<noteq> span_at 0 then d\<lparr>labels := labels d @ [\<lparr>label_span = s, label_msg = msg\<rparr>]\<rparr> else d)"

definition fill_span :: "span \<Rightarrow> diagnostic \<Rightarrow> diagnostic option" where
  "fill_span s d = do {
     r \<leftarrow> nth_opt (frames d) 0;
     if frame_span r = span_at 0 then on_root (\<lambda>fr. fr\<lparr>frame_span := s\<rparr>) (on_edits (at_sentinel s) d) else Some d
   }"

definition map_spans :: "(span \<Rightarrow> span) \<Rightarrow> diagnostic \<Rightarrow> diagnostic" where
  "map_spans f d =
     (let g = (\<lambda>s. if s = span_at 0 then s else f s)
      in (on_edits (\<lambda>e. e\<lparr>edit_span := g (edit_span e)\<rparr>) d)
           \<lparr>frames := map (\<lambda>fr. fr\<lparr>frame_span := g (frame_span fr)\<rparr>) (frames d),
            labels := map (\<lambda>l. l\<lparr>label_span := g (label_span l)\<rparr>) (labels d)\<rparr>)"

definition retitle :: "string \<Rightarrow> diagnostic \<Rightarrow> diagnostic option" where
  "retitle msg = on_root (\<lambda>fr. fr\<lparr>frame_msg := msg\<rparr>)"

definition add_context :: "error_code \<Rightarrow> span \<Rightarrow> nat \<Rightarrow> string \<Rightarrow> diagnostic \<Rightarrow> diagnostic" where
  "add_context c s l msg d =
     d\<lparr>frames := frames d @ [\<lparr>frame_code = c, frame_span = s, frame_line = l, frame_msg = msg\<rparr>]\<rparr>"

definition root :: "diagnostic \<Rightarrow> frame option" where
  "root d = nth_opt (frames d) 0"

section \<open>Applying edits\<close>

text \<open>\<^verbatim>\<open>String::replace_range\<close> panics off a character boundary.\<close>

definition replace_range :: "string \<Rightarrow> nat \<Rightarrow> nat \<Rightarrow> string \<Rightarrow> string option" where
  "replace_range s i j text =
     (if i \<le> j \<and> is_char_boundary s i \<and> is_char_boundary s j then Some (take i s @ text @ drop j s) else None)"

abbreviation edit_start :: "edit \<Rightarrow> nat" where
  "edit_start e \<equiv> span_start (edit_span e)"

abbreviation edit_end :: "edit \<Rightarrow> nat" where
  "edit_end e \<equiv> span_end (edit_span e)"

fun apart :: "edit list \<Rightarrow> bool" where
  "apart (a # b # es) \<longleftrightarrow> edit_end a \<le> edit_start b \<and> apart (b # es)"
| "apart _ \<longleftrightarrow> True"

definition apply_edit :: "string \<Rightarrow> edit \<Rightarrow> string option" where
  "apply_edit out e =
     (let j = min (edit_end e) (length out); i = min (edit_start e) j in replace_range out i j (edit_text e))"

fun apply_rev :: "edit list \<Rightarrow> string \<Rightarrow> string option" where
  "apply_rev [] out = Some out"
| "apply_rev (e # es) out = do { out' \<leftarrow> apply_edit out e; apply_rev es out' }"

definition apply_edits :: "string \<Rightarrow> edit list \<Rightarrow> string option" where
  "apply_edits source es =
     (let sorted = sort_key (\<lambda>e. (edit_start e, edit_end e)) es
      in if apart sorted then apply_rev (rev sorted) source else None)"

end
