(* ===== verification/Lexer_Data.thy ===== *)
theory Lexer_Data
  imports Rust_Str Diagnostics
begin

text \<open>
  The token model and the tables of \<^verbatim>\<open>crates/frontend/src/lexer/data.rs\<close>: kinds of
  tokens, keywords, operators with their roles, delimiters and character classes.
\<close>

section \<open>Tokens\<close>

datatype kind =
    K_Int i64 | K_Real f64 | K_Imaginary f64 | K_Str
  | K_Word | K_At | K_Op
  | K_Eq | K_FatArrow | K_Arrow | K_Lambda | K_Colon | K_Dollar | K_Comma | K_Dot | K_Ellipsis
  | K_LParen | K_RParen | K_LBrace | K_RBrace | K_LBrack | K_RBrack
  | K_Let | K_In | K_If | K_Is | K_Else | K_With | K_Do | K_Ctl | K_Defer
  | K_Comment | K_Eof

record token =
  tok_kind :: kind
  tok_span :: span
  tok_line :: nat

section \<open>Tables\<close>

definition KEYWORDS :: "(string \<times> kind) list" where
  "KEYWORDS = [(''let'', K_Let), (''in'', K_In), (''if'', K_If), (''is'', K_Is), (''else'', K_Else),
     (''with'', K_With), (''do'', K_Do), (''ctl'', K_Ctl), (''defer'', K_Defer)]"

datatype op_role = Structural kind | Infix nat nat | InfixPrefix nat nat | PrefixOp | Delimiter

text \<open>An operator definition: its lexeme and its role.\<close>

type_synonym op_def = "string \<times> op_role"

fun op_kind :: "op_def \<Rightarrow> kind" where
  "op_kind (_, Structural k) = k"
| "op_kind (_, _) = K_Op"

definition OPERATORS :: "op_def list" where
  "OPERATORS = [
     ([CHR 0x5C], Structural K_Lambda),
     (''='', Structural K_Eq),
     (''=>'', Structural K_FatArrow),
     (''->'', Structural K_Arrow),
     ('':'', Structural K_Colon),
     (''$'', Structural K_Dollar),
     (''+'', Infix 20 21),
     (''-'', InfixPrefix 20 21),
     (''*'', Infix 30 31),
     (''/'', Infix 30 31),
     (''%'', Infix 30 31),
     (''^'', Infix 35 34),
     (''!'', PrefixOp),
     (''&&&'', Infix 30 31),
     (''<<<'', Infix 30 31),
     (''>>>'', Infix 30 31),
     (''|||'', Infix 20 21),
     (''^^^'', Infix 20 21),
     (''~~~'', PrefixOp),
     (''=='', Infix 10 11),
     (''!='', Infix 10 11),
     (''>'', Infix 10 11),
     (''<'', Infix 10 11),
     (''<='', Infix 10 11),
     (''>='', Infix 10 11),
     (''|'', Delimiter),
     (''<>'', Delimiter),
     (''<|'', Infix 5 4),
     (''<|>'', Infix 37 36),
     (''&&'', Infix 9 10),
     (''||'', Infix 8 9),
     ('';'', Infix 2 1),
     (''|>'', Infix 6 7),
     (''::'', Infix 15 14),
     (''++'', Infix 16 17)]"

definition DELIMITERS :: "(char \<times> kind) list" where
  "DELIMITERS = [(CHR ''('', K_LParen), (CHR '')'', K_RParen), (CHR '','', K_Comma), (CHR ''.'', K_Dot),
     (CHR ''{'', K_LBrace), (CHR ''}'', K_RBrace), (CHR ''['', K_LBrack), (CHR '']'', K_RBrack)]"

definition lookup_str :: "(string \<times> kind) list \<Rightarrow> string \<Rightarrow> kind option" where
  "lookup_str table s = map_option snd (find (\<lambda>(k, _). k = s) table)"

definition keyword_or_word :: "string \<Rightarrow> kind" where
  "keyword_or_word s = (case lookup_str KEYWORDS s of Some k \<Rightarrow> k | None \<Rightarrow> K_Word)"

definition op_def_of :: "string \<Rightarrow> op_def option" where
  "op_def_of s = find (\<lambda>d. fst d = s) OPERATORS"

definition operator :: "string \<Rightarrow> kind option" where
  "operator s = map_option op_kind (op_def_of s)"

definition op_role_of :: "string \<Rightarrow> op_role option" where
  "op_role_of s = map_option snd (op_def_of s)"

definition delimiter :: "char \<Rightarrow> kind option" where
  "delimiter b = map_option snd (find (\<lambda>(k, _). k = b) DELIMITERS)"

section \<open>Character classes\<close>

definition is_digit :: "char \<Rightarrow> bool" where
  "is_digit c \<longleftrightarrow> 48 \<le> byte c \<and> byte c \<le> 57"

definition is_hex_digit :: "char \<Rightarrow> bool" where
  "is_hex_digit c \<longleftrightarrow> is_digit c \<or> 65 \<le> byte c \<and> byte c \<le> 70 \<or> 97 \<le> byte c \<and> byte c \<le> 102"

definition is_bin_digit :: "char \<Rightarrow> bool" where
  "is_bin_digit c \<longleftrightarrow> c = CHR ''0'' \<or> c = CHR ''1''"

definition is_alphabetic :: "char \<Rightarrow> bool" where
  "is_alphabetic c \<longleftrightarrow> 65 \<le> byte c \<and> byte c \<le> 90 \<or> 97 \<le> byte c \<and> byte c \<le> 122"

definition is_ident_start :: "char \<Rightarrow> bool" where
  "is_ident_start c \<longleftrightarrow> is_alphabetic c \<or> c = CHR ''_''"

definition is_ident_cont :: "char \<Rightarrow> bool" where
  "is_ident_cont c \<longleftrightarrow> is_alphabetic c \<or> is_digit c \<or> c = CHR ''_''"

definition is_operator_char :: "char \<Rightarrow> bool" where
  "is_operator_char c \<longleftrightarrow> c \<in> set ''!$%&*+-/:;<=>^|~'' \<or> c = CHR 0x5C"

lemmas classes = is_digit_def is_hex_digit_def is_bin_digit_def is_alphabetic_def is_ident_start_def
  is_ident_cont_def is_operator_char_def

text \<open>Every class is of ASCII bytes, and none of them holds of the zero byte.\<close>

lemma classes_ascii:
  "is_digit c \<Longrightarrow> ascii c" "is_hex_digit c \<Longrightarrow> ascii c" "is_bin_digit c \<Longrightarrow> ascii c"
  "is_ident_start c \<Longrightarrow> ascii c" "is_ident_cont c \<Longrightarrow> ascii c" "is_operator_char c \<Longrightarrow> ascii c"
  by (auto simp: classes ascii_def)

lemma classes_nonzero [simp]:
  "\<not> is_digit CHR 0x00" "\<not> is_hex_digit CHR 0x00" "\<not> is_bin_digit CHR 0x00"
  "\<not> is_ident_start CHR 0x00" "\<not> is_ident_cont CHR 0x00" "\<not> is_operator_char CHR 0x00"
  by (simp_all add: classes)

lemma ident_start_cont: "is_ident_start c \<Longrightarrow> is_ident_cont c"
  by (auto simp: classes)

end
