(* ===== verification/Rust_Num.thy ===== *)
theory Rust_Num
  imports Lexer_Data
begin

text \<open>
  The number parsers of Rust's standard library the front end calls:
  \<^verbatim>\<open>i64::from_str_radix\<close> (of which \<^verbatim>\<open>str::parse\<close> is the decimal case), and \<^verbatim>\<open>str::parse\<close>
  to \<^verbatim>\<open>f64\<close> on unsigned decimal literals, which rounds to the nearest double, ties
  to even.
\<close>

section \<open>Integers\<close>

definition to_digit :: "char \<Rightarrow> nat \<Rightarrow> nat option" where
  "to_digit c radix =
     (let v = (if is_digit c then Some (byte c - 48)
               else if 97 \<le> byte c \<and> byte c \<le> 122 then Some (byte c - 87)
               else if 65 \<le> byte c \<and> byte c \<le> 90 then Some (byte c - 55) else None)
      in case v of Some d \<Rightarrow> if d < radix then Some d else None | None \<Rightarrow> None)"

fun digits_value :: "nat \<Rightarrow> nat \<Rightarrow> string \<Rightarrow> nat option" where
  "digits_value radix acc [] = Some acc"
| "digits_value radix acc (c # cs) =
     (case to_digit c radix of None \<Rightarrow> None | Some d \<Rightarrow> digits_value radix (acc * radix + d) cs)"

definition i64_min :: int where "i64_min = - (2 ^ 63)"
definition i64_max :: int where "i64_max = 2 ^ 63 - 1"

definition in_i64 :: "int \<Rightarrow> i64 option" where
  "in_i64 v = (if i64_min \<le> v \<and> v \<le> i64_max then Some v else None)"

definition from_str_radix :: "string \<Rightarrow> nat \<Rightarrow> i64 option" where
  "from_str_radix s radix =
     (case s of
        [] \<Rightarrow> None
      | c # cs \<Rightarrow>
          if c = CHR ''+'' \<or> c = CHR ''-'' then
            (if cs = [] then None
             else case digits_value radix 0 cs of
               None \<Rightarrow> None | Some n \<Rightarrow> in_i64 (if c = CHR ''-'' then - int n else int n))
          else (case digits_value radix 0 s of None \<Rightarrow> None | Some n \<Rightarrow> in_i64 (int n)))"

section \<open>Doubles\<close>

fun log2 :: "nat \<Rightarrow> nat" where
  "log2 n = (if n \<le> 1 then 0 else Suc (log2 (n div 2)))"

declare log2.simps [simp del]

text \<open>The exponent of the leading bit of \<open>n / d\<close>.\<close>

definition lead_bit :: "nat \<Rightarrow> nat \<Rightarrow> int" where
  "lead_bit n d = (if d \<le> n then int (log2 (n div d)) else - int (log2 ((d - 1) div n) + 1))"

definition round_half_even :: "nat \<Rightarrow> nat \<Rightarrow> nat" where
  "round_half_even n d =
     (let q = n div d; r = n mod d
      in if 2 * r < d \<or> 2 * r = d \<and> even q then q else q + 1)"

text \<open>
  The double nearest to \<open>n / d\<close>: with \<open>e\<close> the exponent of its last place, which is
  at least -1074, the bit pattern is \<open>(e + 1074) * 2 ^ 52\<close> plus the significand; past
  the largest double it is infinity.
\<close>

definition nearest_f64 :: "nat \<Rightarrow> nat \<Rightarrow> f64" where
  "nearest_f64 n d =
     (if n = 0 then 0
      else let e = max (lead_bit n d - 52) (- 1074);
               m = (if 0 \<le> e then round_half_even n (d * 2 ^ nat e) else round_half_even (n * 2 ^ nat (- e)) d)
           in of_nat (min (nat (e + 1074) * 2 ^ 52 + m) (2047 * 2 ^ 52)))"

definition decimal_f64 :: "nat \<Rightarrow> int \<Rightarrow> f64" where
  "decimal_f64 m e = (if 0 \<le> e then nearest_f64 (m * 10 ^ nat e) 1 else nearest_f64 m (10 ^ nat (- e)))"

definition digits10 :: "string \<Rightarrow> nat" where
  "digits10 s = (case digits_value 10 0 s of Some n \<Rightarrow> n | None \<Rightarrow> 0)"

text \<open>The exponent of a literal: nothing, or \<open>e\<close>, an optional sign and digits.\<close>

fun parse_exponent :: "string \<Rightarrow> int option" where
  "parse_exponent [] = Some 0"
| "parse_exponent (c # s) =
     (if c = CHR ''e'' \<or> c = CHR ''E'' then
        let (neg, ds) = (case s of
              x # s' \<Rightarrow> if x = CHR ''-'' then (True, s') else if x = CHR ''+'' then (False, s') else (False, s)
            | [] \<Rightarrow> (False, []))
        in if ds \<noteq> [] \<and> list_all is_digit ds then Some (if neg then - int (digits10 ds) else int (digits10 ds)) else None
      else None)"

definition parse_f64 :: "string \<Rightarrow> f64 option" where
  "parse_f64 s =
     (let whole = takeWhile is_digit s; rest = dropWhile is_digit s;
          (frac, tail) = (case rest of
             c # r \<Rightarrow> if c = CHR ''.'' then (takeWhile is_digit r, dropWhile is_digit r) else ([], rest)
           | [] \<Rightarrow> ([], []))
      in if whole = [] \<and> frac = [] then None
         else map_option (\<lambda>e. decimal_f64 (digits10 (whole @ frac)) (e - int (length frac))) (parse_exponent tail))"

section \<open>Facts\<close>

lemma to_digit_decimal: "is_digit c \<Longrightarrow> to_digit c 10 = Some (byte c - 48)"
  by (auto simp: to_digit_def is_digit_def)

lemma to_digit_hex: "is_hex_digit c \<Longrightarrow> \<exists>d. to_digit c 16 = Some d \<and> d < 16"
  by (auto simp: to_digit_def classes)

lemma to_digit_bin: "is_bin_digit c \<Longrightarrow> \<exists>d. to_digit c 2 = Some d \<and> d < 2"
  by (auto simp: to_digit_def classes)

lemma digits_value_total: "list_all (\<lambda>c. \<exists>d. to_digit c radix = Some d) s \<Longrightarrow> \<exists>n. digits_value radix acc s = Some n"
  by (induction s arbitrary: acc) auto

lemma digits_value_append:
  "digits_value radix acc (s @ t) = (case digits_value radix acc s of None \<Rightarrow> None | Some n \<Rightarrow> digits_value radix n t)"
  by (induction s arbitrary: acc) (auto split: option.splits)

end
