(* ===== verification/Lexer.thy ===== *)
theory Lexer
  imports Rust_Num
begin

text \<open>
  The lexer \<^verbatim>\<open>crates/frontend/src/lexer.rs\<close>: a cursor over the bytes of the source, one
  scanner a kind of token, and the buffered token cursor the parser drives. A
  scanner returns the advanced lexer with a diagnostic (\<open>Inl\<close>) or a token
  (\<open>Inr\<close>); \<^term>\<open>None\<close> is a panic, of slicing the source off a character boundary or
  of a span that ends before it starts.

  A line number is a \<^typ>\<open>nat\<close>: the \<^verbatim>\<open>u32\<close> of the source does not wrap on a source of
  under four billion lines.
\<close>

section \<open>The cursor\<close>

record lexer =
  lx_src :: string
  lx_base :: nat
  lx_cursor :: nat
  lx_line :: nat
  lx_buffer :: "token list"
  lx_pos :: nat

definition quoted :: "string \<Rightarrow> string" where
  "quoted s = [CHR 0x27] @ s @ [CHR 0x27]"

definition HOLE :: string where
  "HOLE = ''???''"

definition lexer_new :: "string \<Rightarrow> lexer" where
  "lexer_new src = \<lparr>lx_src = src, lx_base = 0, lx_cursor = 0, lx_line = 1, lx_buffer = [], lx_pos = 0\<rparr>"

definition lexer_sub :: "string \<Rightarrow> nat \<Rightarrow> nat \<Rightarrow> lexer" where
  "lexer_sub src b line = \<lparr>lx_src = src, lx_base = b, lx_cursor = 0, lx_line = line, lx_buffer = [], lx_pos = 0\<rparr>"

abbreviation src_len :: "lexer \<Rightarrow> nat" where
  "src_len lx \<equiv> length (lx_src lx)"

definition byte_at :: "lexer \<Rightarrow> nat \<Rightarrow> char" where
  "byte_at lx i = (if i < src_len lx then lx_src lx ! i else CHR 0x00)"

definition cur :: "lexer \<Rightarrow> char" where
  "cur lx = byte_at lx (lx_cursor lx)"

definition advance :: "nat \<Rightarrow> lexer \<Rightarrow> lexer" where
  "advance n lx = lx\<lparr>lx_cursor := lx_cursor lx + n\<rparr>"

definition newline :: "lexer \<Rightarrow> lexer" where
  "newline lx = lx\<lparr>lx_cursor := lx_cursor lx + 1, lx_line := lx_line lx + 1\<rparr>"

definition slice_from :: "lexer \<Rightarrow> nat \<Rightarrow> string option" where
  "slice_from lx start = str_slice (lx_src lx) start (lx_cursor lx)"

definition span_from :: "lexer \<Rightarrow> nat \<Rightarrow> span option" where
  "span_from lx start = span_new (lx_base lx + start) (lx_base lx + lx_cursor lx)"

type_synonym 'a lexed = "(lexer \<times> (diagnostic + 'a)) option"

text \<open>\<open>Ok(self.mk(kind, start, line))\<close> and \<open>Err(self.err(code, start, line, msg))\<close>.\<close>

definition mk :: "lexer \<Rightarrow> kind \<Rightarrow> nat \<Rightarrow> nat \<Rightarrow> token lexed" where
  "mk lx k start line = do {
     s \<leftarrow> span_from lx start;
     Some (lx, Inr \<lparr>tok_kind = k, tok_span = s, tok_line = line\<rparr>)
   }"

definition err :: "lexer \<Rightarrow> error_code \<Rightarrow> nat \<Rightarrow> nat \<Rightarrow> string \<Rightarrow> 'a lexed" where
  "err lx c start line msg = do {
     s \<leftarrow> span_from lx start;
     Some (lx, Inl (diag_error c s line msg))
   }"

lemma cur_in_range: "cur lx \<noteq> CHR 0x00 \<Longrightarrow> lx_cursor lx < src_len lx"
  by (auto simp: cur_def byte_at_def split: if_splits)

lemma byte_at_in_range: "byte_at lx i \<noteq> CHR 0x00 \<Longrightarrow> i < src_len lx"
  by (auto simp: byte_at_def split: if_splits)

lemma advance_sel [simp]:
  "lx_cursor (advance n lx) = lx_cursor lx + n" "lx_src (advance n lx) = lx_src lx" "lx_base (advance n lx) = lx_base lx"
  "lx_line (advance n lx) = lx_line lx" "lx_buffer (advance n lx) = lx_buffer lx" "lx_pos (advance n lx) = lx_pos lx"
  by (simp_all add: advance_def)

lemma newline_sel [simp]:
  "lx_cursor (newline lx) = lx_cursor lx + 1" "lx_src (newline lx) = lx_src lx" "lx_base (newline lx) = lx_base lx"
  "lx_line (newline lx) = lx_line lx + 1" "lx_buffer (newline lx) = lx_buffer lx" "lx_pos (newline lx) = lx_pos lx"
  by (simp_all add: newline_def)

section \<open>Scan helpers\<close>

function skip_whitespace :: "lexer \<Rightarrow> lexer" where
  "skip_whitespace lx =
     (if lx_cursor lx < src_len lx then
        if cur lx = CHR '' '' \<or> cur lx = CHR 0x09 \<or> cur lx = CHR 0x0D then skip_whitespace (advance 1 lx)
        else if cur lx = CHR 0x0A then skip_whitespace (newline lx)
        else lx
      else lx)"
  by pat_completeness auto
termination
  by (relation "measure (\<lambda>lx. src_len lx - lx_cursor lx)") auto

function scan_while :: "(char \<Rightarrow> bool) \<Rightarrow> lexer \<Rightarrow> lexer" where
  "scan_while member lx =
     (if lx_cursor lx < src_len lx \<and> member (cur lx) then scan_while member (advance 1 lx) else lx)"
  by pat_completeness auto
termination
  by (relation "measure (\<lambda>(_, lx). src_len lx - lx_cursor lx)") auto

definition scan_while_digit_or_sep :: "(char \<Rightarrow> bool) \<Rightarrow> lexer \<Rightarrow> lexer" where
  "scan_while_digit_or_sep member = scan_while (\<lambda>c. member c \<or> c = CHR ''_'')"

section \<open>Comments and strings\<close>

text \<open>The loop of a block comment, which nests.\<close>

function block_comment :: "lexer \<Rightarrow> nat \<Rightarrow> nat \<Rightarrow> nat \<Rightarrow> token lexed" where
  "block_comment lx depth start line =
     (if depth = 0 then mk lx K_Comment start line
      else if cur lx = CHR 0x00 \<and> src_len lx \<le> lx_cursor lx then
        err lx UnclosedQuote start line (''block comment is not closed with '' @ quoted ''-#'')
      else if cur lx = CHR ''#'' \<and> byte_at lx (lx_cursor lx + 1) = CHR ''-'' then block_comment (advance 2 lx) (depth + 1) start line
      else if cur lx = CHR ''-'' \<and> byte_at lx (lx_cursor lx + 1) = CHR ''#'' then block_comment (advance 2 lx) (depth - 1) start line
      else if cur lx = CHR 0x0A then block_comment (newline lx) depth start line
      else block_comment (advance 1 lx) depth start line)"
  by pat_completeness auto
termination
  by (relation "measure (\<lambda>(lx, _). src_len lx - lx_cursor lx)") (auto simp: cur_def byte_at_def split: if_splits)

definition lex_comment :: "lexer \<Rightarrow> nat \<Rightarrow> nat \<Rightarrow> token lexed" where
  "lex_comment lx start line =
     (if byte_at lx (lx_cursor lx + 1) = CHR ''-'' then block_comment (advance 2 lx) 1 start line
      else mk (scan_while (\<lambda>c. c \<noteq> CHR 0x0A) lx) K_Comment start line)"

text \<open>Past a backslash and the byte it escapes; a newline or the end is left for the loop to see.\<close>

definition skip_escape :: "lexer \<Rightarrow> lexer" where
  "skip_escape lx =
     (let lx1 = advance 1 lx
      in if lx_cursor lx1 < src_len lx1 \<and> cur lx1 \<noteq> CHR 0x0A then advance 1 lx1 else lx1)"

lemma skip_escape_sel [simp]:
  "lx_src (skip_escape lx) = lx_src lx" "lx_base (skip_escape lx) = lx_base lx" "lx_line (skip_escape lx) = lx_line lx"
  "lx_buffer (skip_escape lx) = lx_buffer lx" "lx_pos (skip_escape lx) = lx_pos lx"
  "lx_cursor lx < lx_cursor (skip_escape lx)"
  by (auto simp: skip_escape_def Let_def)

function nested_string :: "lexer \<Rightarrow> nat \<Rightarrow> nat \<Rightarrow> unit lexed" where
  "nested_string lx start line =
     (if src_len lx \<le> lx_cursor lx \<or> cur lx = CHR 0x0A then
        err lx UnclosedQuote start line (''string literal is not closed with a '' @ quoted [CHR 0x22])
      else if cur lx = CHR 0x5C then nested_string (skip_escape lx) start line
      else if cur lx = CHR 0x22 then Some (advance 1 lx, Inr ())
      else nested_string (advance 1 lx) start line)"
  by pat_completeness auto
termination
  by (relation "measure (\<lambda>(lx, _). src_len lx - lx_cursor lx)") (auto intro: diff_less_mono2)

definition skip_nested_string :: "lexer \<Rightarrow> nat \<Rightarrow> nat \<Rightarrow> unit lexed" where
  "skip_nested_string lx start line = nested_string (advance 1 lx) start line"

lemmas lexer_loops [simp del] = skip_whitespace.simps scan_while.simps block_comment.simps nested_string.simps

text \<open>Every scanner only moves the cursor forward and counts lines.\<close>

definition onward :: "lexer \<Rightarrow> lexer \<Rightarrow> bool" where
  "onward lx lx' \<longleftrightarrow> lx_src lx' = lx_src lx \<and> lx_base lx' = lx_base lx \<and> lx_buffer lx' = lx_buffer lx
     \<and> lx_pos lx' = lx_pos lx \<and> lx_cursor lx \<le> lx_cursor lx'"

lemma onward_refl [simp]: "onward lx lx"
  by (simp add: onward_def)

lemma onward_trans: "onward a b \<Longrightarrow> onward b c \<Longrightarrow> onward a c"
  by (auto simp: onward_def)

lemma onward_steps [simp]: "onward lx (advance n lx)" "onward lx (newline lx)" "onward lx (skip_escape lx)"
  by (simp_all add: onward_def less_imp_le)

lemma mk_Some: "mk lx k start line = Some (lx', r) \<Longrightarrow> lx' = lx"
  by (auto simp: mk_def split: bind_splits)

lemma err_Some: "err lx c start line msg = Some (lx', r) \<Longrightarrow> lx' = lx \<and> (\<exists>d. r = Inl d)"
  by (auto simp: err_def split: bind_splits)

lemma onward_nested:
  "nested_string lx start line = Some (lx', r) \<Longrightarrow> onward lx lx'"
proof (induction lx start line rule: nested_string.induct)
  case (1 lx start line)
  note run = "1.prems" [unfolded nested_string.simps [of lx start line]]
  show ?case
    using run "1.IH" onward_trans [OF onward_steps(1) [of lx 1]] onward_trans [OF onward_steps(3) [of lx]]
    by (auto split: if_splits dest: err_Some)
qed

text \<open>The loop of a string literal; \<open>depth\<close> counts the parentheses of an interpolant.\<close>

function string_loop :: "lexer \<Rightarrow> nat \<Rightarrow> nat \<Rightarrow> nat \<Rightarrow> token lexed" where
  "string_loop lx depth start line =
     (if src_len lx \<le> lx_cursor lx \<or> cur lx = CHR 0x0A then
        err lx UnclosedQuote start line
          (if 0 < depth then ''unterminated `?(...)` interpolation in a string''
           else ''string literal is not closed with a '' @ quoted [CHR 0x22])
      else if cur lx = CHR 0x5C \<and> depth = 0 then string_loop (skip_escape lx) depth start line
      else if cur lx = CHR 0x22 \<and> depth = 0 then mk (advance 1 lx) K_Str start line
      else if cur lx = CHR 0x22 then
        (case skip_nested_string lx start line of
           None \<Rightarrow> None
         | Some (lx1, Inl d) \<Rightarrow> Some (lx1, Inl d)
         | Some (lx1, Inr _) \<Rightarrow> string_loop lx1 depth start line)
      else if cur lx = CHR ''?'' \<and> depth = 0 \<and> lx_cursor lx + 1 < src_len lx \<and> lx_src lx ! (lx_cursor lx + 1) = CHR ''(''
        then string_loop (advance 2 lx) (depth + 1) start line
      else if cur lx = CHR ''('' \<and> 0 < depth then string_loop (advance 1 lx) (depth + 1) start line
      else if cur lx = CHR '')'' \<and> 0 < depth then string_loop (advance 1 lx) (depth - 1) start line
      else string_loop (advance 1 lx) depth start line)"
  by pat_completeness auto
termination
proof (relation "measure (\<lambda>(lx, _). src_len lx - lx_cursor lx)", goal_cases)
  case (3 lx depth start line p lx1 r u)
  then have "onward (advance 1 lx) lx1" using onward_nested by (auto simp: skip_nested_string_def)
  then show ?case using 3 by (auto simp: onward_def)
qed (auto intro: diff_less_mono2)

declare string_loop.simps [simp del]

definition lex_string :: "lexer \<Rightarrow> nat \<Rightarrow> nat \<Rightarrow> token lexed" where
  "lex_string lx start line = string_loop (advance 1 lx) 0 start line"

section \<open>Names and operators\<close>

definition lex_intrinsic :: "lexer \<Rightarrow> nat \<Rightarrow> nat \<Rightarrow> token lexed" where
  "lex_intrinsic lx start line =
     (let lx1 = advance 1 lx
      in if \<not> is_ident_start (cur lx1) then
           err lx1 UnknownSymbol start line (''expected an intrinsic name after '' @ quoted ''@'')
         else mk (scan_while is_ident_cont lx1) K_At start line)"

definition lex_word :: "lexer \<Rightarrow> nat \<Rightarrow> nat \<Rightarrow> token lexed" where
  "lex_word lx start line = do {
     let lx1 = scan_while is_ident_cont lx;
     lexeme \<leftarrow> slice_from lx1 start;
     mk lx1 (keyword_or_word lexeme) start line
   }"

definition lex_operator :: "lexer \<Rightarrow> nat \<Rightarrow> nat \<Rightarrow> token lexed" where
  "lex_operator lx start line = do {
     let lx1 = (if cur lx = CHR 0x5C then advance 1 lx
                else scan_while (\<lambda>c. is_operator_char c \<and> c \<noteq> CHR 0x5C) lx);
     lexeme \<leftarrow> slice_from lx1 start;
     (case operator lexeme of
        Some k \<Rightarrow> mk lx1 k start line
      | None \<Rightarrow> err lx1 UnknownSymbol start line (quoted lexeme @ '' is not a known operator''))
   }"

section \<open>Numbers\<close>

definition without_sep :: "string \<Rightarrow> string" where
  "without_sep s = filter (\<lambda>c. c \<noteq> CHR ''_'') s"

definition lex_radix :: "lexer \<Rightarrow> nat \<Rightarrow> nat \<Rightarrow> nat \<Rightarrow> (char \<Rightarrow> bool) \<Rightarrow> token lexed" where
  "lex_radix lx start line radix member = do {
     let lx1 = advance 2 lx;
     let digits_start = lx_cursor lx1;
     let lx2 = scan_while_digit_or_sep member lx1;
     if lx_cursor lx2 = digits_start then err lx2 NumberParsingFailure start line ''expected digits after the radix prefix''
     else do {
       raw \<leftarrow> slice_from lx2 digits_start;
       (case from_str_radix (without_sep raw) radix of
          None \<Rightarrow> err lx2 IntLiteralRange start line ''integer literal does not fit in a 64-bit integer''
        | Some v \<Rightarrow> mk lx2 (K_Int v) start line)
     }
   }"

text \<open>The fractional part and the exponent of a real, each with whether it is there.\<close>

definition lex_fraction :: "lexer \<Rightarrow> lexer \<times> bool" where
  "lex_fraction lx =
     (if cur lx = CHR ''.'' \<and> is_digit (byte_at lx (lx_cursor lx + 1))
      then (scan_while_digit_or_sep is_digit (advance 1 lx), True) else (lx, False))"

definition lex_exponent :: "lexer \<Rightarrow> lexer \<times> bool" where
  "lex_exponent lx =
     (if cur lx = CHR ''e'' \<or> cur lx = CHR ''E'' then
        let sign = byte_at lx (lx_cursor lx + 1);
            n = (if sign = CHR ''+'' \<or> sign = CHR ''-'' then 2 else 1)
        in if is_digit (byte_at lx (lx_cursor lx + n)) then (scan_while_digit_or_sep is_digit (advance n lx), True)
           else (lx, False)
      else (lx, False))"

definition lex_number :: "lexer \<Rightarrow> nat \<Rightarrow> nat \<Rightarrow> token lexed" where
  "lex_number lx start line =
     (let next = byte_at lx (lx_cursor lx + 1)
      in if cur lx = CHR ''0'' \<and> (next = CHR ''x'' \<or> next = CHR ''X'') then lex_radix lx start line 16 is_hex_digit
         else if cur lx = CHR ''0'' \<and> (next = CHR ''b'' \<or> next = CHR ''B'') then lex_radix lx start line 2 is_bin_digit
         else do {
           let lx1 = scan_while_digit_or_sep is_digit lx;
           let (lx2, frac) = lex_fraction lx1;
           let (lx3, expo) = lex_exponent lx2;
           raw \<leftarrow> slice_from lx3 start;
           let cleaned = without_sep raw;
           if cur lx3 = CHR ''i'' \<and> \<not> is_ident_cont (byte_at lx3 (lx_cursor lx3 + 1)) then
             (case parse_f64 cleaned of
                None \<Rightarrow> err (advance 1 lx3) NumberParsingFailure start line ''malformed imaginary literal''
              | Some v \<Rightarrow> mk (advance 1 lx3) (K_Imaginary v) start line)
           else if frac \<or> expo then
             (case parse_f64 cleaned of
                None \<Rightarrow> err lx3 NumberParsingFailure start line ''malformed real literal''
              | Some v \<Rightarrow> mk lx3 (K_Real v) start line)
           else
             (case from_str_radix cleaned 10 of
                None \<Rightarrow> err lx3 IntLiteralRange start line ''integer literal does not fit in a 64-bit integer''
              | Some v \<Rightarrow> mk lx3 (K_Int v) start line)
         })"

section \<open>One token\<close>

definition hex_digit :: "nat \<Rightarrow> char" where
  "hex_digit n = (if n < 10 then char_of (48 + n) else char_of (55 + n))"

definition hex2 :: "char \<Rightarrow> string" where
  "hex2 c = [hex_digit (byte c div 16), hex_digit (byte c mod 16)]"

text \<open>A byte that starts no token.\<close>

definition bad_byte :: "lexer \<Rightarrow> nat \<Rightarrow> nat \<Rightarrow> token lexed" where
  "bad_byte lx start line =
     (let c = cur lx;
          (code, what) = (if byte c < 32 then (AsciiControlChar, ''a control character'')
            else if 128 \<le> byte c then (NonAsciiChar, ''a non-ASCII byte'')
            else (UnknownSymbol, ''an unknown character''))
      in err (advance 1 lx) code start line (''unexpected '' @ what @ '' (byte 0x'' @ hex2 c @ '')''))"

text \<open>The arms of the match after the comment, string, intrinsic and hole.\<close>

definition lex_other :: "lexer \<Rightarrow> nat \<Rightarrow> nat \<Rightarrow> token lexed" where
  "lex_other lx start line =
     (let c = cur lx
      in if is_digit c then lex_number lx start line
         else if is_ident_start c then lex_word lx start line
         else if is_operator_char c then lex_operator lx start line
         else if c = CHR ''.'' \<and> byte_at lx (lx_cursor lx + 1) = CHR ''.'' \<and> byte_at lx (lx_cursor lx + 2) = CHR ''.'' then
           mk (advance 3 lx) K_Ellipsis start line
         else case delimiter c of
             Some k \<Rightarrow> mk (advance 1 lx) k start line
           | None \<Rightarrow> bad_byte lx start line)"

definition starts_with :: "string \<Rightarrow> string \<Rightarrow> bool" where
  "starts_with s pre \<longleftrightarrow> take (length pre) s = pre"

definition lex_at :: "lexer \<Rightarrow> nat \<Rightarrow> nat \<Rightarrow> token lexed" where
  "lex_at lx start line =
     (let c = cur lx
      in if c = CHR ''#'' then lex_comment lx start line
         else if c = CHR 0x22 then lex_string lx start line
         else if c = CHR ''@'' then lex_intrinsic lx start line
         else if c = CHR ''?'' then do {
           rest \<leftarrow> str_slice (lx_src lx) (lx_cursor lx) (src_len lx);
           if starts_with rest HOLE then mk (advance (length HOLE) lx) K_Word start line else lex_other lx start line
         }
         else lex_other lx start line)"

definition lex_one :: "lexer \<Rightarrow> token lexed" where
  "lex_one lx0 =
     (let lx = skip_whitespace lx0; start = lx_cursor lx; line = lx_line lx
      in if src_len lx \<le> lx_cursor lx then mk lx K_Eof start line else lex_at lx start line)"

section \<open>The token cursor\<close>

text \<open>
  The loops around \<^verbatim>\<open>lex_one\<close>. That they end is part of what is proved of them.
\<close>

partial_function (option) ensure :: "lexer \<Rightarrow> nat \<Rightarrow> unit lexed" where
  "ensure lx n =
     (if length (lx_buffer lx) \<le> lx_pos lx + n then
        case lex_one lx of
          None \<Rightarrow> None
        | Some (lx1, r) \<Rightarrow>
            (case r of
               Inl d \<Rightarrow> Some (lx1, Inl d)
             | Inr t \<Rightarrow>
                 if tok_kind t = K_Comment then ensure lx1 n
                 else ensure (lx1\<lparr>lx_buffer := lx_buffer lx1 @ [t]\<rparr>) n)
      else Some (lx, Inr ()))"

definition peek :: "lexer \<Rightarrow> nat \<Rightarrow> token lexed" where
  "peek lx n =
     (case ensure lx n of
        None \<Rightarrow> None
      | Some (lx1, Inl d) \<Rightarrow> Some (lx1, Inl d)
      | Some (lx1, Inr _) \<Rightarrow> map_option (\<lambda>t. (lx1, Inr t)) (nth_opt (lx_buffer lx1) (lx_pos lx1 + n)))"

definition next_token :: "lexer \<Rightarrow> token lexed" where
  "next_token lx =
     (case ensure lx 0 of
        None \<Rightarrow> None
      | Some (lx1, Inl d) \<Rightarrow> Some (lx1, Inl d)
      | Some (lx1, Inr _) \<Rightarrow> do {
          t \<leftarrow> nth_opt (lx_buffer lx1) (lx_pos lx1);
          Some (if tok_kind t \<noteq> K_Eof then lx1\<lparr>lx_pos := lx_pos lx1 + 1\<rparr> else lx1, Inr t)
        })"

definition mark :: "lexer \<Rightarrow> nat" where
  "mark lx = lx_pos lx"

text \<open>With its debug assertion.\<close>

definition reset :: "lexer \<Rightarrow> nat \<Rightarrow> lexer option" where
  "reset lx m = (if m \<le> length (lx_buffer lx) then Some (lx\<lparr>lx_pos := m\<rparr>) else None)"

text \<open>The loop of \<^verbatim>\<open>tokenize\<close> and \<^verbatim>\<open>tokenize_with_comments\<close>, over the step they call.\<close>

partial_function (option) collect :: "(lexer \<Rightarrow> token lexed) \<Rightarrow> lexer \<Rightarrow> token list \<Rightarrow> (diagnostic + token list) option" where
  "collect step lx out =
     (case step lx of
        None \<Rightarrow> None
      | Some (lx1, r) \<Rightarrow>
          (case r of
             Inl d \<Rightarrow> Some (Inl d)
           | Inr t \<Rightarrow> if tok_kind t = K_Eof then Some (Inr (out @ [t])) else collect step lx1 (out @ [t])))"

definition tokenize :: "string \<Rightarrow> (diagnostic + token list) option" where
  "tokenize src = collect next_token (lexer_new src) []"

definition tokenize_with_comments :: "string \<Rightarrow> (diagnostic + token list) option" where
  "tokenize_with_comments src = collect lex_one (lexer_new src) []"

partial_function (option) prefix_loop :: "lexer \<Rightarrow> token list \<Rightarrow> (token list \<times> nat) option" where
  "prefix_loop lx0 out =
     (let lx = skip_whitespace lx0
      in case lex_one lx of
           None \<Rightarrow> None
         | Some (lx1, r) \<Rightarrow>
             (case r of
                Inr t \<Rightarrow> if tok_kind t = K_Eof then Some (out, src_len lx) else prefix_loop lx1 (out @ [t])
              | Inl d \<Rightarrow> Some (out, lx_cursor lx)))"

definition tokenize_prefix :: "string \<Rightarrow> (token list \<times> nat) option" where
  "tokenize_prefix src = prefix_loop (lexer_new src) []"

declare ensure.simps [code] collect.simps [code] prefix_loop.simps [code]

end
