(* ===== verification/Lexer_Sound.thy ===== *)
theory Lexer_Sound
  imports Lexer
begin

text \<open>
  One step of the lexer: it never panics on UTF-8 text, moves forward inside the
  source, counts the lines it passes, cuts at character boundaries, and what it
  emits is a lexeme of the token's kind.
\<close>

section \<open>Moving over the source\<close>

abbreviation ahead :: "lexer \<Rightarrow> string" where
  "ahead lx \<equiv> drop (lx_cursor lx) (lx_src lx)"

definition between :: "string \<Rightarrow> nat \<Rightarrow> nat \<Rightarrow> string" where
  "between s i j = take (j - i) (drop i s)"

definition newlines :: "string \<Rightarrow> nat" where
  "newlines s = length (filter (\<lambda>c. c = CHR 0x0A) s)"

lemma newlines_simps [simp]:
  "newlines [] = 0" "newlines (c # s) = (if c = CHR 0x0A then 1 else 0) + newlines s" "newlines (s @ t) = newlines s + newlines t"
  by (simp_all add: newlines_def)

lemma newlines_none: "CHR 0x0A \<notin> set s \<Longrightarrow> newlines s = 0"
  by (induction s) auto

lemma between_self [simp]: "between s i i = []"
  by (simp add: between_def)

lemma between_append: "i \<le> j \<Longrightarrow> j \<le> k \<Longrightarrow> between s i j @ between s j k = between s i k"
  using take_add [of "j - i" "k - j" "drop i s"] by (simp add: between_def)

lemma between_advance: "between s i (i + n) = take n (drop i s)"
  by (simp add: between_def)

lemma between_step: "i < length s \<Longrightarrow> between s i (Suc i) = [s ! i]"
  by (simp add: between_def take_Suc_conv_app_nth hd_drop_conv_nth take_Suc)

definition moved :: "lexer \<Rightarrow> lexer \<Rightarrow> bool" where
  "moved lx lx' \<longleftrightarrow> onward lx lx' \<and> lx_cursor lx' \<le> src_len lx
     \<and> lx_line lx' = lx_line lx + newlines (between (lx_src lx) (lx_cursor lx) (lx_cursor lx'))"

lemma moved_refl: "lx_cursor lx \<le> src_len lx \<Longrightarrow> moved lx lx"
  by (simp add: moved_def)

lemma moved_trans: "moved a b \<Longrightarrow> moved b c \<Longrightarrow> moved a c"
  using onward_trans [of a b c] between_append [of "lx_cursor a" "lx_cursor b" "lx_cursor c" "lx_src a", symmetric]
  by (auto simp: moved_def onward_def)

lemma cur_eq: "lx_cursor lx < src_len lx \<Longrightarrow> cur lx = lx_src lx ! lx_cursor lx"
  by (simp add: cur_def byte_at_def)

lemma moved_step: "lx_cursor lx < src_len lx \<Longrightarrow> cur lx \<noteq> CHR 0x0A \<Longrightarrow> moved lx (advance 1 lx)"
  by (simp add: moved_def cur_eq between_step)

lemma moved_newline: "lx_cursor lx < src_len lx \<Longrightarrow> cur lx = CHR 0x0A \<Longrightarrow> moved lx (newline lx)"
  by (simp add: moved_def cur_eq between_step)

lemma moved_advance:
  "lx_cursor lx + n \<le> src_len lx \<Longrightarrow> CHR 0x0A \<notin> set (take n (ahead lx)) \<Longrightarrow> moved lx (advance n lx)"
  by (simp add: moved_def between_advance newlines_none)

lemma moved_two:
  assumes "cur lx \<noteq> CHR 0x00" "cur lx \<noteq> CHR 0x0A" "byte_at lx (lx_cursor lx + 1) = c" "c \<noteq> CHR 0x00" "c \<noteq> CHR 0x0A"
  shows "moved lx (advance 2 lx)"
proof -
  have two: "advance 2 lx = advance 1 (advance 1 lx)" by (simp add: advance_def)
  have "lx_cursor (advance 1 lx) < src_len (advance 1 lx)" "cur (advance 1 lx) \<noteq> CHR 0x0A"
    using byte_at_in_range [of lx "lx_cursor lx + 1"] assms by (auto simp: cur_def byte_at_def)
  then show ?thesis unfolding two
    by (intro moved_trans [OF moved_step [OF cur_in_range [OF assms(1)] assms(2)] moved_step])
qed

lemma moved_escape:
  assumes "lx_cursor lx < src_len lx" "cur lx \<noteq> CHR 0x0A"
  shows "moved lx (skip_escape lx)"
  using moved_step [OF assms] moved_trans [OF moved_step [OF assms], of "advance 1 (advance 1 lx)"] moved_step [of "advance 1 lx"]
  by (auto simp: skip_escape_def Let_def)

lemma advance_0 [simp]: "advance 0 lx = lx"
  by (simp add: advance_def)

lemma advance_add [simp]: "advance m (advance n lx) = advance (n + m) lx"
  by (simp add: advance_def)

lemma ahead_cons: "lx_cursor lx < src_len lx \<Longrightarrow> ahead lx = cur lx # ahead (advance 1 lx)"
  by (simp add: cur_eq Cons_nth_drop_Suc)

lemma scan_while_eq: "scan_while m lx = advance (length (takeWhile m (ahead lx))) lx"
proof (induction m lx rule: scan_while.induct)
  case (1 m lx)
  show ?case
  proof (cases "lx_cursor lx < src_len lx \<and> m (cur lx)")
    case True
    then have "scan_while m lx = scan_while m (advance 1 lx)" by (subst scan_while.simps) simp
    moreover have "takeWhile m (ahead lx) = cur lx # takeWhile m (ahead (advance 1 lx))"
      using True by (subst ahead_cons) simp_all
    ultimately show ?thesis using "1.IH" True by simp
  next
    case False
    then have "scan_while m lx = lx" by (subst scan_while.simps) auto
    moreover have "takeWhile m (ahead lx) = []"
      using False ahead_cons [of lx] by (cases "lx_cursor lx < src_len lx") auto
    ultimately show ?thesis by simp
  qed
qed

lemma scan_while_cursor:
  assumes "lx_cursor lx \<le> src_len lx"
  shows "lx_cursor (scan_while m lx) \<le> src_len lx"
  using assms length_takeWhile_le [of m "ahead lx"] by (simp add: scan_while_eq)

lemma moved_scan: "lx_cursor lx \<le> src_len lx \<Longrightarrow> \<not> m CHR 0x0A \<Longrightarrow> moved lx (scan_while m lx)"
  using length_takeWhile_le [of m "ahead lx"]
  by (auto simp: scan_while_eq takeWhile_eq_take [symmetric] intro!: moved_advance dest: set_takeWhileD)

text \<open>White space.\<close>

definition is_space :: "char \<Rightarrow> bool" where
  "is_space c \<longleftrightarrow> c = CHR '' '' \<or> c = CHR 0x09 \<or> c = CHR 0x0D \<or> c = CHR 0x0A"

lemma skip_whitespace_spec:
  "lx_cursor lx \<le> src_len lx \<Longrightarrow> moved lx (skip_whitespace lx)
     \<and> list_all is_space (between (lx_src lx) (lx_cursor lx) (lx_cursor (skip_whitespace lx)))"
proof (induction lx rule: skip_whitespace.induct)
  case (1 lx)
  note unf = skip_whitespace.simps [of lx]
  show ?case
  proof (cases "lx_cursor lx < src_len lx \<and> is_space (cur lx)")
    case True
    define nx where "nx = (if cur lx = CHR 0x0A then newline lx else advance 1 lx)"
    have sw: "skip_whitespace lx = skip_whitespace nx" using True unf by (auto simp: nx_def is_space_def)
    have m: "moved lx nx" using True moved_step [of lx] moved_newline [of lx] by (simp add: nx_def)
    have "lx_cursor nx \<le> src_len nx" "lx_src nx = lx_src lx" "lx_cursor nx = Suc (lx_cursor lx)"
      using True by (auto simp: nx_def)
    with "1.IH" True have IH: "moved nx (skip_whitespace nx)"
      "list_all is_space (between (lx_src lx) (Suc (lx_cursor lx)) (lx_cursor (skip_whitespace nx)))"
      by (auto simp: nx_def is_space_def [of "cur lx"] split: if_splits)
    have "between (lx_src lx) (lx_cursor lx) (lx_cursor (skip_whitespace nx))
        = cur lx # between (lx_src lx) (Suc (lx_cursor lx)) (lx_cursor (skip_whitespace nx))"
      using between_append [of "lx_cursor lx" "Suc (lx_cursor lx)" "lx_cursor (skip_whitespace nx)" "lx_src lx"] True IH(1) \<open>lx_cursor nx = _\<close>
      by (simp add: moved_def onward_def between_step cur_eq)
    then show ?thesis using sw IH moved_trans [OF m IH(1)] True by simp
  next
    case False
    then have "skip_whitespace lx = lx" using unf by (auto simp: is_space_def)
    then show ?thesis using "1.prems" by (simp add: moved_refl)
  qed
qed

section \<open>Lexemes\<close>

definition is_ident :: "string \<Rightarrow> bool" where
  "is_ident s \<longleftrightarrow> s \<noteq> [] \<and> is_ident_start (hd s) \<and> list_all is_ident_cont s"

text \<open>The value an integer lexeme denotes.\<close>

definition int_literal :: "string \<Rightarrow> i64 option" where
  "int_literal s =
     (if starts_with s ''0x'' \<or> starts_with s ''0X'' then from_str_radix (without_sep (drop 2 s)) 16
      else if starts_with s ''0b'' \<or> starts_with s ''0B'' then from_str_radix (without_sep (drop 2 s)) 2
      else from_str_radix (without_sep s) 10)"

fun lexeme_ok :: "kind \<Rightarrow> string \<Rightarrow> bool" where
  "lexeme_ok (K_Int v) s \<longleftrightarrow> is_digit (hd s) \<and> int_literal s = Some v"
| "lexeme_ok (K_Real v) s \<longleftrightarrow> is_digit (hd s) \<and> parse_f64 (without_sep s) = Some v"
| "lexeme_ok (K_Imaginary v) s \<longleftrightarrow> is_digit (hd s) \<and> last s = CHR ''i'' \<and> parse_f64 (without_sep (butlast s)) = Some v"
| "lexeme_ok K_Str s \<longleftrightarrow> 2 \<le> length s \<and> hd s = CHR 0x22 \<and> last s = CHR 0x22"
| "lexeme_ok K_Word s \<longleftrightarrow> s = HOLE \<or> is_ident s \<and> s \<notin> fst ` set KEYWORDS"
| "lexeme_ok K_At s \<longleftrightarrow> hd s = CHR ''@'' \<and> is_ident (tl s)"
| "lexeme_ok K_Ellipsis s \<longleftrightarrow> s = ''...''"
| "lexeme_ok K_Comment s \<longleftrightarrow> hd s = CHR ''#''"
| "lexeme_ok K_Eof s \<longleftrightarrow> s = []"
| "lexeme_ok k s \<longleftrightarrow> (s, k) \<in> set KEYWORDS \<or> operator s = Some k \<or> (\<exists>c. s = [c] \<and> delimiter c = Some k)"

lemma lexeme_ok_table: "operator s = Some k \<Longrightarrow> lexeme_ok k s" "delimiter c = Some k \<Longrightarrow> lexeme_ok k [c]"
  "(s, k) \<in> set KEYWORDS \<Longrightarrow> lexeme_ok k s"
  by (auto simp: operator_def op_def_of_def OPERATORS_def KEYWORDS_def delimiter_def DELIMITERS_def split: if_splits)

text \<open>What a scanner that starts a token at \<open>start\<close> does.\<close>

definition emits :: "lexer \<Rightarrow> nat \<Rightarrow> nat \<Rightarrow> token lexed \<Rightarrow> bool" where
  "emits lx start line r \<longleftrightarrow> (\<exists>lx'. moved lx lx' \<and> start < lx_cursor lx' \<and>
     ((\<exists>k. r = mk lx' k start line \<and> k \<noteq> K_Eof \<and> is_char_boundary (lx_src lx) (lx_cursor lx')
          \<and> lexeme_ok k (between (lx_src lx) start (lx_cursor lx')))
    \<or> (\<exists>c msg. r = err lx' c start line msg \<and> (c = NonAsciiChar \<or> is_char_boundary (lx_src lx) (lx_cursor lx')))))"

lemma emits_moved: "moved lx lx1 \<Longrightarrow> emits lx1 start line r \<Longrightarrow> emits lx start line r"
  using moved_trans unfolding emits_def moved_def onward_def by metis

lemma emits_token:
  "moved lx lx' \<Longrightarrow> start < lx_cursor lx' \<Longrightarrow> k \<noteq> K_Eof \<Longrightarrow> is_char_boundary (lx_src lx) (lx_cursor lx') \<Longrightarrow>
   lexeme_ok k (between (lx_src lx) start (lx_cursor lx')) \<Longrightarrow> emits lx start line (mk lx' k start line)"
  unfolding emits_def by blast

lemma emits_error:
  "moved lx lx' \<Longrightarrow> start < lx_cursor lx' \<Longrightarrow> c = NonAsciiChar \<or> is_char_boundary (lx_src lx) (lx_cursor lx') \<Longrightarrow>
   emits lx start line (err lx' c start line msg)"
  unfolding emits_def by blast

text \<open>Boundaries after a byte the scanner has matched, and at a byte it stops at.\<close>

lemma boundary_past:
  "valid_utf8 (lx_src lx) \<Longrightarrow> lx_cursor lx < src_len lx \<Longrightarrow> ascii (cur lx) \<Longrightarrow> is_char_boundary (lx_src lx) (lx_cursor (advance 1 lx))"
  using boundary_after_ascii [of "lx_src lx" "lx_cursor lx"] by (simp add: cur_eq)

lemma boundary_cur: "ascii (cur lx) \<Longrightarrow> lx_cursor lx \<le> src_len lx \<Longrightarrow> is_char_boundary (lx_src lx) (lx_cursor lx)"
  using boundary_at_ascii [of "lx_cursor lx" "lx_src lx"] by (cases "lx_cursor lx < src_len lx") (auto simp: cur_eq)

lemma last_between: "i < j \<Longrightarrow> j \<le> length s \<Longrightarrow> last (between s i j) = s ! (j - 1)"
  by (simp add: between_def last_conv_nth)

lemma hd_between: "i < j \<Longrightarrow> i < length s \<Longrightarrow> hd (between s i j) = s ! i"
  by (simp add: between_def hd_drop_conv_nth)

lemma length_between: "j \<le> length s \<Longrightarrow> length (between s i j) = j - i"
  by (simp add: between_def)

section \<open>Comments and strings\<close>

lemma block_comment_emits:
  assumes "valid_utf8 (lx_src lx)" "start < lx_cursor lx" "lx_cursor lx \<le> src_len lx" "lx_src lx ! start = CHR ''#''"
    and "depth = 0 \<Longrightarrow> is_char_boundary (lx_src lx) (lx_cursor lx)"
  shows "emits lx start line (block_comment lx depth start line)"
  using assms
proof (induction lx depth start line rule: block_comment.induct)
  case (1 lx depth start line)
  note unf = block_comment.simps [of lx depth start line]
  note pre = "1.prems"
  show ?case
  proof (cases "depth = 0 \<or> cur lx = CHR 0x00 \<and> src_len lx \<le> lx_cursor lx")
    case True
    show ?thesis
    proof (cases "depth = 0")
      case True
      then show ?thesis using unf pre moved_refl [of lx] hd_between [of start "lx_cursor lx" "lx_src lx"]
        by (auto intro!: emits_token)
    next
      case False
      then have e: "block_comment lx depth start line
          = err lx UnclosedQuote start line (''block comment is not closed with '' @ quoted ''-#'')"
        using unf True by simp
      show ?thesis unfolding e using pre True False
        by (intro emits_error moved_refl) (auto simp: is_char_boundary_def)
    qed
  next
    case False
    then have here: "lx_cursor lx < src_len lx" using pre(3) cur_in_range [of lx] by auto
    let ?two = "\<lambda>a b. cur lx = a \<and> byte_at lx (lx_cursor lx + 1) = b"
    consider "?two CHR ''#'' CHR ''-''" | "\<not> ?two CHR ''#'' CHR ''-''" "?two CHR ''-'' CHR ''#''"
      | "\<not> ?two CHR ''#'' CHR ''-''" "\<not> ?two CHR ''-'' CHR ''#''" "cur lx = CHR 0x0A"
      | "\<not> ?two CHR ''#'' CHR ''-''" "\<not> ?two CHR ''-'' CHR ''#''" "cur lx \<noteq> CHR 0x0A" by blast
    then show ?thesis
    proof cases
      case 1
      have m: "moved lx (advance 2 lx)" using 1 by (intro moved_two) auto
      have "emits (advance 2 lx) start line (block_comment (advance 2 lx) (depth + 1) start line)"
        using "1.IH"(1) False 1 pre m by (auto simp: moved_def)
      then show ?thesis using emits_moved [OF m] unf False 1 by auto
    next
      case 2
      have m: "moved lx (advance 2 lx)" using 2 by (intro moved_two) auto
      have l: "lx_cursor lx + 1 < src_len lx" using byte_at_in_range [of lx "lx_cursor lx + 1"] 2 by simp
      have "ascii (lx_src lx ! (lx_cursor lx + 1))" using l 2 by (simp add: byte_at_def ascii_def)
      then have "is_char_boundary (lx_src lx) (lx_cursor lx + 2)"
        using boundary_after_ascii [OF pre(1) l] by simp
      then have "emits (advance 2 lx) start line (block_comment (advance 2 lx) (depth - 1) start line)"
        using "1.IH"(2) False 2 pre m by (auto simp: moved_def)
      then show ?thesis using emits_moved [OF m] unf False 2 by auto
    next
      case 3
      have "emits (newline lx) start line (block_comment (newline lx) depth start line)"
        using "1.IH"(3) False 3 pre here by auto
      then show ?thesis using emits_moved [OF moved_newline [OF here 3(3)]] unf False 3 by auto
    next
      case 4
      have "emits (advance 1 lx) start line (block_comment (advance 1 lx) depth start line)"
        using "1.IH"(4) False 4 pre here by auto
      then show ?thesis using emits_moved [OF moved_step [OF here 4(3)]] unf False 4 by auto
    qed
  qed
qed

lemma takeWhile_stop: "length (takeWhile P xs) < length xs \<Longrightarrow> \<not> P (xs ! length (takeWhile P xs))"
  by (rule nth_length_takeWhile)

lemma scan_stop:
  assumes "lx_cursor (scan_while m lx) < src_len lx" "lx_cursor lx \<le> src_len lx"
  shows "\<not> m (lx_src lx ! lx_cursor (scan_while m lx))"
  using assms takeWhile_stop [of m "ahead lx"] by (simp add: scan_while_eq)

lemma lex_comment_emits:
  assumes "valid_utf8 (lx_src lx)" "cur lx = CHR ''#''" "lx_cursor lx < src_len lx" "start = lx_cursor lx"
  shows "emits lx start line (lex_comment lx start line)"
proof (cases "byte_at lx (lx_cursor lx + 1) = CHR ''-''")
  case True
  have m: "moved lx (advance 2 lx)" using assms True by (intro moved_two) auto
  have "emits (advance 2 lx) start line (block_comment (advance 2 lx) 1 start line)"
    using assms m by (intro block_comment_emits) (auto simp: moved_def cur_eq)
  then show ?thesis using emits_moved [OF m] True by (simp add: lex_comment_def)
next
  case False
  let ?m = "\<lambda>c. c \<noteq> CHR 0x0A" let ?lx = "scan_while ?m lx"
  have le: "lx_cursor ?lx \<le> src_len lx" using assms by (intro scan_while_cursor) simp
  have "takeWhile ?m (ahead lx) = cur lx # takeWhile ?m (ahead (advance 1 lx))"
    using assms by (subst ahead_cons) simp_all
  then have gt: "start < lx_cursor ?lx" using assms by (simp add: scan_while_eq)
  have "is_char_boundary (lx_src lx) (lx_cursor ?lx)"
  proof (cases "lx_cursor ?lx < src_len lx")
    case True
    then have "lx_src lx ! lx_cursor ?lx = CHR 0x0A" using scan_stop [of ?m lx] assms by auto
    then show ?thesis using True by (intro boundary_at_ascii) (simp_all add: ascii_def)
  qed (use le in \<open>auto simp: is_char_boundary_def\<close>)
  then show ?thesis using False assms gt le hd_between [of start "lx_cursor ?lx" "lx_src lx"] moved_scan [of lx ?m]
    by (auto simp: lex_comment_def cur_eq intro!: emits_token)
qed

text \<open>A nested string ends past its closing quote, or at a newline or the end.\<close>

lemma nested_string_spec:
  assumes "lx_cursor lx \<le> src_len lx" "start < lx_cursor lx"
  shows "\<exists>lx'. moved lx lx' \<and> start < lx_cursor lx'
    \<and> (nested_string lx start line = Some (lx', Inr ())
     \<or> (\<exists>msg. nested_string lx start line = err lx' UnclosedQuote start line msg) \<and> is_char_boundary (lx_src lx) (lx_cursor lx'))"
  using assms
proof (induction lx start line rule: nested_string.induct)
  case (1 lx start line)
  note unf = nested_string.simps [of lx start line]
  have later: ?case if m: "moved lx nx" and e: "nested_string lx start line = nested_string nx start line"
    and IH: "\<exists>lx'. moved nx lx' \<and> start < lx_cursor lx' \<and> (nested_string nx start line = Some (lx', Inr ())
      \<or> (\<exists>msg. nested_string nx start line = err lx' UnclosedQuote start line msg) \<and> is_char_boundary (lx_src nx) (lx_cursor lx'))" for nx
  proof -
    have "lx_src nx = lx_src lx" using m by (simp add: moved_def onward_def)
    then show ?thesis using IH e moved_trans [OF m] by metis
  qed
  consider "src_len lx \<le> lx_cursor lx \<or> cur lx = CHR 0x0A"
    | "lx_cursor lx < src_len lx" "cur lx \<noteq> CHR 0x0A" "cur lx = CHR 0x5C"
    | "lx_cursor lx < src_len lx" "cur lx \<noteq> CHR 0x0A" "cur lx \<noteq> CHR 0x5C" "cur lx = CHR 0x22"
    | "lx_cursor lx < src_len lx" "cur lx \<noteq> CHR 0x0A" "cur lx \<noteq> CHR 0x5C" "cur lx \<noteq> CHR 0x22" by linarith
  then show ?case
  proof cases
    case 1
    have "is_char_boundary (lx_src lx) (lx_cursor lx)"
      using 1 "1.prems"(1) boundary_cur [of lx] by (auto simp: is_char_boundary_def ascii_def)
    then show ?thesis using 1 "1.prems" unf moved_refl [of lx] by auto
  next
    case 2
    have m: "moved lx (skip_escape lx)" using 2 by (intro moved_escape)
    show ?thesis using later [OF m] "1.IH"(1) "1.prems" unf 2 m by (auto simp: moved_def onward_def)
  next
    case 3
    then show ?thesis using unf moved_step [of lx] "1.prems" by auto
  next
    case 4
    then show ?thesis using later [OF moved_step [of lx]] "1.IH"(2) "1.prems" unf by auto
  qed
qed

lemma string_loop_emits:
  assumes "valid_utf8 (lx_src lx)" "start < lx_cursor lx" "lx_cursor lx \<le> src_len lx" "lx_src lx ! start = CHR 0x22"
  shows "emits lx start line (string_loop lx depth start line)"
  using assms
proof (induction lx depth start line rule: string_loop.induct)
  case (1 lx depth start line)
  note unf = string_loop.simps [of lx depth start line]
  note pre = "1.prems"
  have later: ?case if m: "moved lx nx" and e: "string_loop lx depth start line = string_loop nx d start line"
    and IH: "lx_src nx = lx_src lx \<Longrightarrow> start < lx_cursor nx \<Longrightarrow> lx_cursor nx \<le> src_len nx \<Longrightarrow>
      emits nx start line (string_loop nx d start line)" for nx d
    using IH emits_moved [OF m, of start line] m e pre(2) by (auto simp: moved_def onward_def)
  show ?case
  proof (cases "src_len lx \<le> lx_cursor lx \<or> cur lx = CHR 0x0A")
    case True
    then have "is_char_boundary (lx_src lx) (lx_cursor lx)"
      using pre(3) boundary_cur [of lx] by (auto simp: is_char_boundary_def ascii_def)
    then show ?thesis using unf True pre by (auto intro!: emits_error moved_refl)
  next
    case False
    then have here: "lx_cursor lx < src_len lx" "cur lx \<noteq> CHR 0x0A" by auto
    note one = moved_step [OF here]
    consider "cur lx = CHR 0x5C" "depth = 0" | "cur lx = CHR 0x22" "depth = 0" | "cur lx = CHR 0x22" "0 < depth"
      | "cur lx = CHR ''?''" "depth = 0" "lx_cursor lx + 1 < src_len lx" "lx_src lx ! (lx_cursor lx + 1) = CHR ''(''"
      | "cur lx \<noteq> CHR 0x22" "\<not> (cur lx = CHR 0x5C \<and> depth = 0)"
        "\<not> (cur lx = CHR ''?'' \<and> depth = 0 \<and> lx_cursor lx + 1 < src_len lx \<and> lx_src lx ! (lx_cursor lx + 1) = CHR ''('')" by blast
    then show ?thesis
    proof cases
      case 1
      then show ?thesis using later [OF moved_escape [OF here]] "1.IH"(1) unf False pre(1,4) by auto
    next
      case 2
      have "is_char_boundary (lx_src lx) (lx_cursor (advance 1 lx))"
        using 2 here pre by (intro boundary_past) (simp_all add: ascii_def)
      moreover have "hd (between (lx_src lx) start (Suc (lx_cursor lx))) = CHR 0x22" "last (between (lx_src lx) start (Suc (lx_cursor lx))) = CHR 0x22"
        using 2 here pre by (simp_all add: hd_between last_between cur_eq)
      ultimately have "emits lx start line (mk (advance 1 lx) K_Str start line)"
        using one pre here by (intro emits_token) (auto simp: length_between)
      then show ?thesis using unf False 2 by auto
    next
      case 3
      from nested_string_spec [of "advance 1 lx" start line] obtain lx' where n: "moved (advance 1 lx) lx'" "start < lx_cursor lx'"
        "skip_nested_string lx start line = Some (lx', Inr ())
         \<or> (\<exists>msg. skip_nested_string lx start line = err lx' UnclosedQuote start line msg) \<and> is_char_boundary (lx_src lx) (lx_cursor lx')"
        using here pre by (auto simp: skip_nested_string_def)
      have m: "moved lx lx'" by (rule moved_trans [OF one n(1)])
      from n(3) show ?thesis
      proof
        assume ok: "skip_nested_string lx start line = Some (lx', Inr ())"
        then show ?thesis using later [OF m, of depth] "1.IH"(2) unf False 3 pre(1,4) by auto
      next
        assume "(\<exists>msg. skip_nested_string lx start line = err lx' UnclosedQuote start line msg) \<and> is_char_boundary (lx_src lx) (lx_cursor lx')"
        then obtain msg where e: "skip_nested_string lx start line = err lx' UnclosedQuote start line msg" "is_char_boundary (lx_src lx) (lx_cursor lx')" by blast
        have "string_loop lx depth start line = err lx' UnclosedQuote start line msg"
          using unf False 3 e(1) by (auto simp: err_def split: bind_splits)
        then show ?thesis using emits_error [OF m n(2)] e(2) by auto
      qed
    next
      case 4
      have m: "moved lx (advance 2 lx)" using 4 by (intro moved_two) (auto simp: byte_at_def)
      show ?thesis using later [OF m] "1.IH"(3) unf False 4 pre(1,4) by auto
    next
      case 5
      then show ?thesis using later [OF one] "1.IH"(4,5,6) unf False pre(1,4) by (auto split: if_splits)
    qed
  qed
qed

section \<open>Names and operators\<close>

lemma classes_newline [simp]:
  "\<not> is_digit CHR 0x0A" "\<not> is_hex_digit CHR 0x0A" "\<not> is_bin_digit CHR 0x0A"
  "\<not> is_ident_start CHR 0x0A" "\<not> is_ident_cont CHR 0x0A" "\<not> is_operator_char CHR 0x0A"
  by (simp_all add: classes)

lemma between_snoc: "i \<le> j \<Longrightarrow> j < length s \<Longrightarrow> between s i (Suc j) = between s i j @ [s ! j]"
  using between_append [of i j "Suc j" s] by (simp add: between_step)

lemma drop_between: "drop n (between s i j) = between s (i + n) j"
  by (simp add: between_def drop_take add.commute)

lemma slice_from_between:
  "is_char_boundary (lx_src lx) start \<Longrightarrow> is_char_boundary (lx_src lx) (lx_cursor lx) \<Longrightarrow> start \<le> lx_cursor lx \<Longrightarrow>
   slice_from lx start = Some (between (lx_src lx) start (lx_cursor lx))"
  by (simp add: slice_from_def str_slice_def between_def)

text \<open>A move that ends at a boundary.\<close>

definition cuts :: "lexer \<Rightarrow> lexer \<Rightarrow> bool" where
  "cuts lx lx' \<longleftrightarrow> moved lx lx' \<and> is_char_boundary (lx_src lx) (lx_cursor lx')"

lemma cuts_trans: "cuts a b \<Longrightarrow> cuts b c \<Longrightarrow> cuts a c"
  using moved_trans [of a b c] by (auto simp: cuts_def moved_def onward_def)

lemma cuts_src: "cuts lx lx' \<Longrightarrow> lx_src lx' = lx_src lx \<and> lx_cursor lx \<le> lx_cursor lx' \<and> lx_cursor lx' \<le> src_len lx"
  by (auto simp: cuts_def moved_def onward_def)

lemma cuts_refl: "is_char_boundary (lx_src lx) (lx_cursor lx) \<Longrightarrow> cuts lx lx"
  using moved_refl [of lx] by (auto simp: cuts_def is_char_boundary_def)

lemma cuts_step:
  "valid_utf8 (lx_src lx) \<Longrightarrow> lx_cursor lx < src_len lx \<Longrightarrow> ascii (cur lx) \<Longrightarrow> cur lx \<noteq> CHR 0x0A \<Longrightarrow> cuts lx (advance 1 lx)"
  unfolding cuts_def by (intro conjI moved_step boundary_past)

lemma scan_between: "between (lx_src lx) (lx_cursor lx) (lx_cursor (scan_while m lx)) = takeWhile m (ahead lx)"
  by (simp add: scan_while_eq between_advance takeWhile_eq_take [symmetric])

lemma cuts_scan:
  assumes "valid_utf8 (lx_src lx)" "is_char_boundary (lx_src lx) (lx_cursor lx)" "\<And>c. m c \<Longrightarrow> ascii c" "\<not> m CHR 0x0A"
  shows "cuts lx (scan_while m lx)"
proof -
  let ?n = "length (takeWhile m (ahead lx))"
  have le: "lx_cursor lx \<le> src_len lx" using assms(2) by (auto simp: is_char_boundary_def)
  have "is_char_boundary (lx_src lx) (lx_cursor lx + ?n)"
  proof (cases ?n)
    case (Suc k)
    have "?n \<le> length (ahead lx)" by (rule length_takeWhile_le)
    then have k: "lx_cursor lx + k < src_len lx" using Suc by simp
    have "takeWhile m (ahead lx) ! k = lx_src lx ! (lx_cursor lx + k)"
      using Suc k by (subst takeWhile_nth) auto
    moreover have "m (takeWhile m (ahead lx) ! k)" using Suc nth_mem [of k "takeWhile m (ahead lx)"] set_takeWhileD by (metis lessI)
    ultimately have "ascii (lx_src lx ! (lx_cursor lx + k))" using assms(3) by simp
    then show ?thesis using boundary_after_ascii [OF assms(1) k] Suc by simp
  qed (use assms(2) in simp)
  then show ?thesis using moved_scan [of lx m] le assms(4) by (simp add: cuts_def scan_while_eq)
qed

lemma cuts_token: "cuts lx lx' \<Longrightarrow> start < lx_cursor lx' \<Longrightarrow> k \<noteq> K_Eof \<Longrightarrow>
   lexeme_ok k (between (lx_src lx) start (lx_cursor lx')) \<Longrightarrow> emits lx start line (mk lx' k start line)"
  unfolding cuts_def by (blast intro: emits_token)

lemma cuts_error: "cuts lx lx' \<Longrightarrow> start < lx_cursor lx' \<Longrightarrow> emits lx start line (err lx' c start line msg)"
  unfolding cuts_def by (blast intro: emits_error)

lemma scan_past:
  assumes "lx_cursor lx < src_len lx" "m (cur lx)"
  shows "lx_cursor lx < lx_cursor (scan_while m lx)"
  using assms ahead_cons [OF assms(1)] by (simp add: scan_while_eq)

lemma scan_ident:
  assumes "lx_cursor lx < src_len lx" "is_ident_start (cur lx)"
  shows "is_ident (between (lx_src lx) (lx_cursor lx) (lx_cursor (scan_while is_ident_cont lx)))"
  using assms ahead_cons [OF assms(1)] ident_start_cont [OF assms(2)]
  by (simp add: scan_between is_ident_def list_all_iff) (auto dest: set_takeWhileD)

lemma lex_intrinsic_emits:
  assumes "valid_utf8 (lx_src lx)" "cur lx = CHR ''@''" "lx_cursor lx < src_len lx" "start = lx_cursor lx"
  shows "emits lx start line (lex_intrinsic lx start line)"
proof -
  have one: "cuts lx (advance 1 lx)" using assms by (intro cuts_step) (simp_all add: ascii_def)
  show ?thesis
  proof (cases "is_ident_start (cur (advance 1 lx))")
    case False
    then show ?thesis using cuts_error [OF one] assms by (simp add: lex_intrinsic_def Let_def)
  next
    case True
    let ?lx = "scan_while is_ident_cont (advance 1 lx)"
    have here: "lx_cursor (advance 1 lx) < src_len (advance 1 lx)" using True by (intro cur_in_range) auto
    have c: "cuts lx ?lx"
      using one assms(1) by (intro cuts_trans [OF one cuts_scan]) (auto simp: cuts_def classes_ascii)
    have "start < lx_cursor ?lx" using cuts_src [of "advance 1 lx" ?lx] scan_past [OF here, of is_ident_cont] ident_start_cont [OF True] assms by simp
    then have b: "between (lx_src lx) start (lx_cursor ?lx) = CHR ''@'' # between (lx_src lx) (lx_cursor (advance 1 lx)) (lx_cursor ?lx)"
      using between_append [of start "Suc start" "lx_cursor ?lx" "lx_src lx"] assms by (simp add: between_step cur_eq)
    show ?thesis using cuts_token [OF c, of start K_At] \<open>start < lx_cursor ?lx\<close> scan_ident [OF here True] b True
      by (simp add: lex_intrinsic_def Let_def)
  qed
qed

lemma keyword_lexeme: "is_ident s \<Longrightarrow> lexeme_ok (keyword_or_word s) s \<and> keyword_or_word s \<noteq> K_Eof"
proof (cases "lookup_str KEYWORDS s")
  case None
  assume "is_ident s"
  moreover have "s \<notin> fst ` set KEYWORDS" using None by (auto simp: lookup_str_def find_None_iff)
  ultimately show ?thesis using None by (simp add: keyword_or_word_def)
next
  case (Some k)
  then have "(s, k) \<in> set KEYWORDS" by (auto simp: lookup_str_def find_Some_iff in_set_conv_nth)
  then show ?thesis using lexeme_ok_table(3) Some by (auto simp: keyword_or_word_def KEYWORDS_def)
qed

lemma lex_word_emits:
  assumes "valid_utf8 (lx_src lx)" "is_ident_start (cur lx)" "lx_cursor lx < src_len lx" "start = lx_cursor lx"
  shows "emits lx start line (lex_word lx start line)"
proof -
  let ?lx = "scan_while is_ident_cont lx"
  have b: "is_char_boundary (lx_src lx) (lx_cursor lx)"
    using assms classes_ascii by (intro boundary_cur) auto
  have c: "cuts lx ?lx" using assms b by (intro cuts_scan) (auto simp: classes_ascii)
  have gt: "start < lx_cursor ?lx" using assms scan_past [of lx is_ident_cont] ident_start_cont by simp
  have "slice_from ?lx start = Some (between (lx_src lx) start (lx_cursor ?lx))"
    using c b gt assms(4) cuts_src [OF c] slice_from_between [of ?lx start] by (simp add: cuts_def)
  then show ?thesis
    using cuts_token [OF c gt] keyword_lexeme scan_ident [OF assms(3,2)] assms(4) by (simp add: lex_word_def Let_def)
qed

lemma operator_not_eof: "operator s = Some k \<Longrightarrow> k \<noteq> K_Eof"
  by (auto simp: operator_def op_def_of_def OPERATORS_def split: if_splits)

lemma lex_operator_emits:
  assumes "valid_utf8 (lx_src lx)" "is_operator_char (cur lx)" "lx_cursor lx < src_len lx" "start = lx_cursor lx"
  shows "emits lx start line (lex_operator lx start line)"
proof -
  let ?m = "\<lambda>c. is_operator_char c \<and> c \<noteq> CHR 0x5C"
  define lx1 where "lx1 = (if cur lx = CHR 0x5C then advance 1 lx else scan_while ?m lx)"
  have b: "is_char_boundary (lx_src lx) (lx_cursor lx)"
    using assms classes_ascii by (intro boundary_cur) auto
  have c: "cuts lx lx1"
  proof (cases "cur lx = CHR 0x5C")
    case True
    then have "cuts lx (advance 1 lx)" using assms by (intro cuts_step) (simp_all add: ascii_def)
    then show ?thesis using True by (simp add: lx1_def)
  next
    case False
    have "cuts lx (scan_while ?m lx)" using assms(1) b by (intro cuts_scan) (auto simp: classes_ascii)
    then show ?thesis using False by (simp add: lx1_def)
  qed
  have gt: "start < lx_cursor lx1" using assms scan_past [of lx ?m] by (simp add: lx1_def)
  have "slice_from lx1 start = Some (between (lx_src lx) start (lx_cursor lx1))"
    using c b gt assms(4) cuts_src [OF c] slice_from_between [of lx1 start] by (simp add: cuts_def)
  then have e: "lex_operator lx start line = (case operator (between (lx_src lx) start (lx_cursor lx1)) of
      Some k \<Rightarrow> mk lx1 k start line
    | None \<Rightarrow> err lx1 UnknownSymbol start line (quoted (between (lx_src lx) start (lx_cursor lx1)) @ '' is not a known operator''))"
    unfolding lex_operator_def Let_def lx1_def [symmetric] by (simp only: bind.bind_lunit)
  show ?thesis
  proof (cases "operator (between (lx_src lx) start (lx_cursor lx1))")
    case None
    then show ?thesis unfolding e using cuts_error [OF c gt] by simp
  next
    case (Some k)
    then show ?thesis unfolding e using cuts_token [OF c gt operator_not_eof [OF Some] lexeme_ok_table(1) [OF Some]] by simp
  qed
qed

section \<open>Numbers\<close>

lemma cuts_scan_sep:
  assumes "valid_utf8 (lx_src lx)" "is_char_boundary (lx_src lx) (lx_cursor lx)" "\<And>c. m c \<Longrightarrow> ascii c" "\<not> m CHR 0x0A"
  shows "cuts lx (scan_while_digit_or_sep m lx)"
  unfolding scan_while_digit_or_sep_def using assms by (intro cuts_scan) (auto simp: ascii_def)

lemma cuts_fraction:
  assumes "valid_utf8 (lx_src lx)" "is_char_boundary (lx_src lx) (lx_cursor lx)"
  shows "cuts lx (fst (lex_fraction lx))"
proof (cases "cur lx = CHR ''.'' \<and> is_digit (byte_at lx (lx_cursor lx + 1))")
  case True
  then have "cuts lx (advance 1 lx)" using assms(1) by (intro cuts_step cur_in_range) (auto simp: ascii_def)
  then have "cuts lx (scan_while_digit_or_sep is_digit (advance 1 lx))"
    using assms by (intro cuts_trans [OF _ cuts_scan_sep]) (auto simp: cuts_def classes_ascii)
  then show ?thesis using True by (simp add: lex_fraction_def)
qed (use cuts_refl [OF assms(2)] in \<open>auto simp: lex_fraction_def\<close>)

lemma cuts_exponent:
  assumes "valid_utf8 (lx_src lx)" "is_char_boundary (lx_src lx) (lx_cursor lx)"
  shows "cuts lx (fst (lex_exponent lx))"
proof -
  define sign where "sign = byte_at lx (lx_cursor lx + 1)"
  define n :: nat where "n = (if sign = CHR ''+'' \<or> sign = CHR ''-'' then 2 else 1)"
  have e: "lex_exponent lx = (if (cur lx = CHR ''e'' \<or> cur lx = CHR ''E'') \<and> is_digit (byte_at lx (lx_cursor lx + n))
      then (scan_while_digit_or_sep is_digit (advance n lx), True) else (lx, False))"
    by (simp add: lex_exponent_def n_def sign_def Let_def)
  show ?thesis
  proof (cases "(cur lx = CHR ''e'' \<or> cur lx = CHR ''E'') \<and> is_digit (byte_at lx (lx_cursor lx + n))")
    case True
    have here: "lx_cursor lx < src_len lx" "cur lx \<noteq> CHR 0x0A" using True cur_in_range [of lx] by auto
    have "moved lx (advance n lx)"
    proof (cases "sign = CHR ''+'' \<or> sign = CHR ''-''")
      case s: True
      then have "moved lx (advance 2 lx)"
        using True by (intro moved_two [where c = sign]) (auto simp: sign_def)
      then show ?thesis using s by (simp add: n_def)
    qed (use moved_step [OF here] in \<open>simp add: n_def\<close>)
    moreover have "lx_cursor lx + n < src_len lx" using True by (intro byte_at_in_range) auto
    moreover have "ascii (lx_src lx ! (lx_cursor lx + n))"
      using True calculation(2) classes_ascii(1) by (simp add: byte_at_def)
    ultimately have "cuts lx (advance n lx)" by (simp add: cuts_def boundary_at_ascii)
    then have "cuts lx (scan_while_digit_or_sep is_digit (advance n lx))"
      using assms by (intro cuts_trans [OF _ cuts_scan_sep]) (auto simp: cuts_def classes_ascii)
    then show ?thesis using True by (simp add: e)
  qed (use cuts_refl [OF assms(2)] in \<open>auto simp: e\<close>)
qed

lemma starts_with_between:
  assumes "i + 1 < j" "j \<le> length s"
  shows "starts_with (between s i j) [a, b] \<longleftrightarrow> s ! i = a \<and> s ! (i + 1) = b"
proof -
  have "between s i j = s ! i # s ! (i + 1) # between s (i + 2) j"
    using assms between_append [of i "i + 1" j s] between_append [of "i + 1" "i + 2" j s] by (simp add: between_step)
  then show ?thesis by (simp add: starts_with_def)
qed

lemma starts_with_short: "length s < length p \<Longrightarrow> \<not> starts_with s p"
  by (auto simp: starts_with_def dest: arg_cong [of _ _ length])

lemma lex_radix_emits:
  assumes v: "valid_utf8 (lx_src lx)" and c: "cur lx = CHR ''0''" "byte_at lx (lx_cursor lx + 1) = x" "start = lx_cursor lx"
    and x: "radix = 16 \<and> (x = CHR ''x'' \<or> x = CHR ''X'') \<or> radix = 2 \<and> (x = CHR ''b'' \<or> x = CHR ''B'')"
    and m: "\<And>c. m c \<Longrightarrow> ascii c" "\<not> m CHR 0x0A"
  shows "emits lx start line (lex_radix lx start line radix m)"
proof -
  let ?lx1 = "advance 2 lx" let ?lx2 = "scan_while_digit_or_sep m ?lx1"
  have x1: "x \<noteq> CHR 0x00" "x \<noteq> CHR 0x0A" "ascii x" using x by (auto simp: ascii_def)
  have l: "lx_cursor lx + 1 < src_len lx" using byte_at_in_range [of lx "lx_cursor lx + 1"] c x1 by simp
  then have two: "moved lx ?lx1" "is_char_boundary (lx_src lx) (lx_cursor lx + 2)"
    using c x1 boundary_after_ascii [OF v l] by (auto simp: byte_at_def intro!: moved_two)
  then have c1: "cuts lx ?lx1" by (simp add: cuts_def)
  have c2: "cuts ?lx1 ?lx2" using v two m by (intro cuts_scan_sep) auto
  note c12 = cuts_trans [OF c1 c2]
  have gt: "start < lx_cursor ?lx2" using cuts_src [OF c2] c(3) by simp
  show ?thesis
  proof (cases "lx_cursor ?lx2 = lx_cursor ?lx1")
    case True
    then show ?thesis using cuts_error [OF c12 gt] by (simp add: lex_radix_def Let_def)
  next
    case False
    define raw where "raw = between (lx_src lx) (start + 2) (lx_cursor ?lx2)"
    have raw: "slice_from ?lx2 (lx_cursor ?lx1) = Some raw"
      using two(2) c12 cuts_src [OF c2] slice_from_between [of ?lx2 "lx_cursor ?lx1"] c(3) by (simp add: cuts_def raw_def)
    have "starts_with (between (lx_src lx) start (lx_cursor ?lx2)) [CHR ''0'', b] \<longleftrightarrow> b = x" for b
      using starts_with_between [of start "lx_cursor ?lx2" "lx_src lx" "CHR ''0''" b] c cuts_src [OF c2] l
      by (auto simp: byte_at_def cur_eq)
    then have "from_str_radix (without_sep raw) radix = int_literal (between (lx_src lx) start (lx_cursor ?lx2))"
      using x unfolding int_literal_def drop_between raw_def by (elim disjE conjE) simp_all
    moreover have "is_digit (hd (between (lx_src lx) start (lx_cursor ?lx2)))"
      using gt l c by (subst hd_between) (auto simp: cur_def byte_at_def is_digit_def)
    ultimately have "emits lx start line (mk ?lx2 (K_Int w) start line)" if "from_str_radix (without_sep raw) radix = Some w" for w
      using that by (intro cuts_token [OF c12 gt]) auto
    then show ?thesis using False raw cuts_error [OF c12 gt]
      by (simp add: lex_radix_def Let_def split: option.splits)
  qed
qed

lemma lex_number_emits:
  assumes v: "valid_utf8 (lx_src lx)" and d: "is_digit (cur lx)" "lx_cursor lx < src_len lx" "start = lx_cursor lx"
  shows "emits lx start line (lex_number lx start line)"
proof -
  define nx where "nx = byte_at lx (lx_cursor lx + 1)"
  define lx1 where "lx1 = scan_while_digit_or_sep is_digit lx"
  define lx2 where "lx2 = fst (lex_fraction lx1)"
  define lx3 where "lx3 = fst (lex_exponent lx2)"
  define frac where "frac = snd (lex_fraction lx1)"
  define expo where "expo = snd (lex_exponent lx2)"
  have b: "is_char_boundary (lx_src lx) (lx_cursor lx)" using d classes_ascii by (intro boundary_cur) auto
  have c1: "cuts lx lx1" unfolding lx1_def using v b by (intro cuts_scan_sep) (auto simp: classes_ascii)
  have c2: "cuts lx1 lx2" unfolding lx2_def using v c1 cuts_src [OF c1] by (intro cuts_fraction) (auto simp: cuts_def)
  have c3: "cuts lx2 lx3" unfolding lx3_def using v c2 cuts_src [OF c1] cuts_src [OF c2] by (intro cuts_exponent) (auto simp: cuts_def)
  have c: "cuts lx lx3" using cuts_trans [OF cuts_trans [OF c1 c2] c3] .
  have "lx_cursor lx < lx_cursor lx1"
    unfolding lx1_def scan_while_digit_or_sep_def using d by (intro scan_past) auto
  then have gt: "start < lx_cursor lx3" using cuts_src [OF c2] cuts_src [OF c3] d by simp
  define raw where "raw = between (lx_src lx) start (lx_cursor lx3)"
  have raw: "slice_from lx3 start = Some raw"
    using b c gt cuts_src [OF c] slice_from_between [of lx3 start] d(3) by (simp add: cuts_def raw_def)
  have hd: "is_digit (hd (between (lx_src lx) start j))" if "start < j" for j
    using that d by (subst hd_between) (auto simp: cur_eq)
  show ?thesis
  proof (cases "cur lx = CHR ''0'' \<and> (nx = CHR ''x'' \<or> nx = CHR ''X'')
      \<or> cur lx = CHR ''0'' \<and> (nx = CHR ''b'' \<or> nx = CHR ''B'')")
    case True
    then have z: "cur lx = CHR ''0''" by blast
    show ?thesis
      using True lex_radix_emits [OF v z nx_def [symmetric] d(3), of 16 is_hex_digit line] lex_radix_emits [OF v z nx_def [symmetric] d(3), of 2 is_bin_digit line]
      unfolding lex_number_def nx_def [symmetric] Let_def by (auto simp: classes_ascii)
  next
    case False
    have e: "lex_number lx start line =
       (if cur lx3 = CHR ''i'' \<and> \<not> is_ident_cont (byte_at lx3 (lx_cursor lx3 + 1)) then
          (case parse_f64 (without_sep raw) of
             None \<Rightarrow> err (advance 1 lx3) NumberParsingFailure start line ''malformed imaginary literal''
           | Some v \<Rightarrow> mk (advance 1 lx3) (K_Imaginary v) start line)
        else if frac \<or> expo then
          (case parse_f64 (without_sep raw) of
             None \<Rightarrow> err lx3 NumberParsingFailure start line ''malformed real literal''
           | Some v \<Rightarrow> mk lx3 (K_Real v) start line)
        else
          (case from_str_radix (without_sep raw) 10 of
             None \<Rightarrow> err lx3 IntLiteralRange start line ''integer literal does not fit in a 64-bit integer''
           | Some v \<Rightarrow> mk lx3 (K_Int v) start line))"
    proof -
      have no: "(cur lx = CHR ''0'' \<and> (nx = CHR ''x'' \<or> nx = CHR ''X'')) = False" "(cur lx = CHR ''0'' \<and> (nx = CHR ''b'' \<or> nx = CHR ''B'')) = False"
        using False by auto
      have pairs: "lex_fraction lx1 = (lx2, frac)" "lex_exponent lx2 = (lx3, expo)" by (simp_all add: lx2_def lx3_def frac_def expo_def)
      show ?thesis unfolding lex_number_def nx_def [symmetric] lx1_def [symmetric] Let_def no if_False pairs case_prod_conv raw bind.bind_lunit
        by (rule refl)
    qed
    show ?thesis
    proof (cases "cur lx3 = CHR ''i'' \<and> \<not> is_ident_cont (byte_at lx3 (lx_cursor lx3 + 1))")
      case True
      then have here: "lx_cursor lx3 < src_len lx3" by (intro cur_in_range) simp
      then have "cuts lx3 (advance 1 lx3)" using True v cuts_src [OF c] by (intro cuts_step) (auto simp: ascii_def)
      note c4 = cuts_trans [OF c this]
      have "between (lx_src lx) start (lx_cursor (advance 1 lx3)) = raw @ ''i''"
        using between_snoc [of start "lx_cursor lx3" "lx_src lx"] gt here True cuts_src [OF c] by (simp add: raw_def cur_eq)
      then show ?thesis using True e cuts_error [OF c4] cuts_token [OF c4] gt hd [of "lx_cursor (advance 1 lx3)"]
        by (simp split: option.splits)
    next
      case imag: False
      have "int_literal raw = from_str_radix (without_sep raw) 10"
      proof (cases "start + 1 < lx_cursor lx3")
        case True
        then show ?thesis using False starts_with_between [of start "lx_cursor lx3" "lx_src lx"] cuts_src [OF c] d
          by (auto simp: int_literal_def raw_def nx_def byte_at_def cur_eq)
      next
        case False
        then have "length raw < 2" using cuts_src [OF c] by (simp add: raw_def length_between)
        then show ?thesis using starts_with_short by (simp add: int_literal_def)
      qed
      then show ?thesis unfolding e if_not_P [OF imag] using cuts_error [OF c gt] cuts_token [OF c gt] hd [OF gt]
        by (simp add: raw_def [symmetric] split: option.splits)
    qed
  qed
qed

section \<open>One token\<close>

lemma bad_byte_emits:
  assumes v: "valid_utf8 (lx_src lx)" and d: "lx_cursor lx < src_len lx" "cur lx \<noteq> CHR 0x0A" "start = lx_cursor lx"
  shows "emits lx start line (bad_byte lx start line)"
proof (cases "128 \<le> byte (cur lx)")
  case True
  then show ?thesis using emits_error [OF moved_step [OF d(1,2)]] d(3) by (simp add: bad_byte_def Let_def)
next
  case False
  then have "cuts lx (advance 1 lx)" using v d by (intro cuts_step) (auto simp: ascii_def)
  then show ?thesis using cuts_error d(3) False by (auto simp: bad_byte_def Let_def)
qed

lemma delimiter_props: "delimiter c = Some k \<Longrightarrow> ascii c \<and> k \<noteq> K_Eof \<and> c \<noteq> CHR 0x0A"
proof -
  assume "delimiter c = Some k"
  then have "(c, k) \<in> set DELIMITERS" by (auto simp: delimiter_def find_Some_iff in_set_conv_nth)
  then show ?thesis by (auto simp: DELIMITERS_def ascii_def)
qed

lemma byte_at_ahead:
  assumes "byte_at lx (lx_cursor lx + n) \<noteq> CHR 0x00"
  shows "n < length (ahead lx) \<and> ahead lx ! n = byte_at lx (lx_cursor lx + n)"
proof -
  have "lx_cursor lx + n < src_len lx" using assms by (rule byte_at_in_range)
  then show ?thesis unfolding byte_at_def by simp
qed

text \<open>A fixed lexeme the text ahead starts with.\<close>

lemma cuts_fixed:
  assumes "valid_utf8 (lx_src lx)" "take n (ahead lx) = s" "n = length s" "n \<noteq> 0" "list_all ascii s" "CHR 0x0A \<notin> set s"
  shows "cuts lx (advance n lx)" "between (lx_src lx) (lx_cursor lx) (lx_cursor lx + n) = s"
proof -
  have l: "n \<le> length (ahead lx)" using assms(2,3) by (metis length_take min.absorb_iff2)
  then have i: "lx_cursor lx + (n - 1) < src_len lx" using assms(4) by simp
  have "ascii (s ! (n - 1))" using assms(3,4,5) by (simp add: list_all_length)
  moreover have "s ! (n - 1) = lx_src lx ! (lx_cursor lx + (n - 1))" using assms(2,4) l by auto
  ultimately have "is_char_boundary (lx_src lx) (lx_cursor lx + n)"
    using boundary_after_ascii [OF assms(1) i] assms(4) by simp
  moreover have "moved lx (advance n lx)" using l assms(2,4,6) by (intro moved_advance) auto
  ultimately show "cuts lx (advance n lx)" by (simp add: cuts_def)
  show "between (lx_src lx) (lx_cursor lx) (lx_cursor lx + n) = s" using assms(2) by (simp add: between_advance)
qed

lemma lex_other_emits:
  assumes v: "valid_utf8 (lx_src lx)" and d: "lx_cursor lx < src_len lx" "start = lx_cursor lx" and n: "cur lx \<noteq> CHR 0x0A"
  shows "emits lx start line (lex_other lx start line)"
proof -
  let ?c = "cur lx"
  consider "is_digit ?c" | "\<not> is_digit ?c" "is_ident_start ?c" | "\<not> is_digit ?c" "\<not> is_ident_start ?c" "is_operator_char ?c"
    | "\<not> is_digit ?c" "\<not> is_ident_start ?c" "\<not> is_operator_char ?c" by blast
  then show ?thesis
  proof cases
    case 1
    then show ?thesis using lex_number_emits [OF v _ d] by (simp add: lex_other_def)
  next
    case 2
    then show ?thesis using lex_word_emits [OF v _ d] by (simp add: lex_other_def)
  next
    case 3
    then show ?thesis using lex_operator_emits [OF v _ d] by (simp add: lex_other_def)
  next
    case 4
    show ?thesis
    proof (cases "?c = CHR ''.'' \<and> byte_at lx (lx_cursor lx + 1) = CHR ''.'' \<and> byte_at lx (lx_cursor lx + 2) = CHR ''.''")
      case True
      have "take 3 (ahead lx) = ''...''"
        using True byte_at_ahead [of lx 0] byte_at_ahead [of lx 1] byte_at_ahead [of lx 2]
        by (intro nth_equalityI) (auto simp: cur_def less_Suc_eq numeral_3_eq_3 numeral_2_eq_2)
      show ?thesis using cuts_token [OF cuts_fixed(1) [OF v \<open>take 3 (ahead lx) = ''...''\<close>]] cuts_fixed(2) [OF v \<open>take 3 (ahead lx) = ''...''\<close>] 4 True d
        by (simp add: lex_other_def Let_def ascii_def)
    next
      case False
      show ?thesis
      proof (cases "delimiter ?c")
        case None
        then show ?thesis using bad_byte_emits [OF v d(1) n d(2)] 4 False by (auto simp: lex_other_def Let_def)
      next
        case (Some k)
        then have "cuts lx (advance 1 lx)" using delimiter_props [OF Some] v d n by (intro cuts_step) auto
        then have "emits lx start line (mk (advance 1 lx) k start line)"
          using lexeme_ok_table(2) [OF Some] delimiter_props [OF Some] d
          by (intro cuts_token) (simp_all add: between_step cur_eq)
        then show ?thesis using Some 4 False by (auto simp: lex_other_def Let_def)
      qed
    qed
  qed
qed

lemma lex_at_emits:
  assumes v: "valid_utf8 (lx_src lx)" and d: "lx_cursor lx < src_len lx" "start = lx_cursor lx" and n: "cur lx \<noteq> CHR 0x0A"
  shows "emits lx start line (lex_at lx start line)"
proof -
  let ?c = "cur lx"
  consider "?c = CHR ''#''" | "?c = CHR 0x22" | "?c = CHR ''@''" | "?c = CHR ''?''"
    | "?c \<noteq> CHR ''#''" "?c \<noteq> CHR 0x22" "?c \<noteq> CHR ''@''" "?c \<noteq> CHR ''?''" by blast
  then show ?thesis
  proof cases
    case 1
    then show ?thesis using lex_comment_emits [OF v _ d] by (simp add: lex_at_def)
  next
    case 2
    have m: "moved lx (advance 1 lx)" using d n by (intro moved_step)
    have "emits (advance 1 lx) start line (string_loop (advance 1 lx) 0 start line)"
      using v d 2 by (intro string_loop_emits) (auto simp: cur_eq)
    then show ?thesis using 2 emits_moved [OF m] by (simp add: lex_at_def lex_string_def)
  next
    case 3
    then show ?thesis using lex_intrinsic_emits [OF v _ d] by (simp add: lex_at_def)
  next
    case 4
    have "is_char_boundary (lx_src lx) (lx_cursor lx)" using 4 d by (intro boundary_cur) (auto simp: ascii_def)
    then have s: "str_slice (lx_src lx) (lx_cursor lx) (src_len lx) = Some (ahead lx)"
      using d by (simp add: str_slice_def)
    show ?thesis
    proof (cases "starts_with (ahead lx) HOLE")
      case True
      then have t: "take 3 (ahead lx) = HOLE" by (simp add: starts_with_def HOLE_def numeral_3_eq_3)
      have "cuts lx (advance 3 lx)" "between (lx_src lx) (lx_cursor lx) (lx_cursor lx + 3) = HOLE"
        using cuts_fixed [OF v t] by (simp_all add: HOLE_def ascii_def)
      then have "emits lx start line (mk (advance 3 lx) K_Word start line)"
        using d by (intro cuts_token) auto
      then show ?thesis using 4 s True by (simp add: lex_at_def HOLE_def numeral_3_eq_3)
    next
      case False
      then show ?thesis using 4 s lex_other_emits [OF v d n] by (simp add: lex_at_def)
    qed
  next
    case 5
    then show ?thesis using lex_other_emits [OF v d n] by (simp add: lex_at_def)
  qed
qed

end
