(* ===== verification/Lexer_Stream.thy ===== *)
theory Lexer_Stream
  imports Lexer_Sound
begin

text \<open>
  The token stream of a source: a reference definition that lexes to the end or to
  the first error, what its tokens cover, and that \<^verbatim>\<open>tokenize\<close>,
  \<^verbatim>\<open>tokenize_with_comments\<close>, \<^verbatim>\<open>tokenize_prefix\<close> and the buffered cursor all deliver it.
\<close>

section \<open>One step\<close>

text \<open>The span of the source bytes from \<open>i\<close> to \<open>j\<close>.\<close>

definition span_of :: "lexer \<Rightarrow> nat \<Rightarrow> nat \<Rightarrow> span" where
  "span_of lx i j = \<lparr>span_start = lx_base lx + i, span_end = lx_base lx + j\<rparr>"

lemma mk_token: "start \<le> lx_cursor lx \<Longrightarrow>
   mk lx k start line = Some (lx, Inr \<lparr>tok_kind = k, tok_span = span_of lx start (lx_cursor lx), tok_line = line\<rparr>)"
  by (simp add: mk_def span_from_def span_new_def span_of_def)

lemma err_diag: "start \<le> lx_cursor lx \<Longrightarrow>
   err lx c start line msg = Some (lx, Inl (diag_error c (span_of lx start (lx_cursor lx)) line msg))"
  by (simp add: err_def span_from_def span_new_def span_of_def)

lemma span_of_moved: "moved lx lx' \<Longrightarrow> span_of lx' = span_of lx"
  by (auto simp: span_of_def moved_def onward_def fun_eq_iff)

lemma cuts_whitespace:
  assumes "valid_utf8 (lx_src lx)" "is_char_boundary (lx_src lx) (lx_cursor lx)"
  shows "cuts lx (skip_whitespace lx)"
proof -
  let ?w = "skip_whitespace lx"
  have le: "lx_cursor lx \<le> src_len lx" using assms(2) by (auto simp: is_char_boundary_def)
  from skip_whitespace_spec [OF le] have m: "moved lx ?w" and sp: "list_all is_space (between (lx_src lx) (lx_cursor lx) (lx_cursor ?w))" by blast+
  show ?thesis
  proof (cases "lx_cursor ?w = lx_cursor lx")
    case False
    then have lt: "lx_cursor lx < lx_cursor ?w" "lx_cursor ?w \<le> src_len lx" using m by (auto simp: moved_def onward_def)
    then have "between (lx_src lx) (lx_cursor lx) (lx_cursor ?w) \<noteq> []" by (auto simp: between_def)
    then have "is_space (lx_src lx ! (lx_cursor ?w - 1))"
      using sp last_between [OF lt] last_in_set unfolding list_all_iff by metis
    then have "ascii (lx_src lx ! (lx_cursor ?w - 1))" by (auto simp: is_space_def ascii_def)
    then show ?thesis using boundary_after_ascii [OF assms(1), of "lx_cursor ?w - 1"] lt m by (simp add: cuts_def)
  qed (use m assms(2) in \<open>simp add: cuts_def\<close>)
qed

lemma skip_whitespace_stop: "lx_cursor (skip_whitespace lx) < src_len lx \<Longrightarrow> cur (skip_whitespace lx) \<noteq> CHR 0x0A"
  by (induction lx rule: skip_whitespace.induct) (subst (asm) skip_whitespace.simps, subst skip_whitespace.simps, auto split: if_splits)

text \<open>What \<^verbatim>\<open>lex_one\<close> does from a character boundary: skip white space, then one of three things.\<close>

lemma lex_one_cases:
  assumes v: "valid_utf8 (lx_src lx)" and b: "is_char_boundary (lx_src lx) (lx_cursor lx)"
  obtains (eof) w where "cuts lx w" "list_all is_space (between (lx_src lx) (lx_cursor lx) (lx_cursor w))" "w = skip_whitespace lx"
      "lx_cursor w = src_len lx"
      "lex_one lx = Some (w, Inr \<lparr>tok_kind = K_Eof, tok_span = span_of lx (lx_cursor w) (lx_cursor w), tok_line = lx_line w\<rparr>)"
  | (token) w lx' k where "cuts lx w" "list_all is_space (between (lx_src lx) (lx_cursor lx) (lx_cursor w))" "w = skip_whitespace lx"
      "cuts w lx'" "lx_cursor w < lx_cursor lx'" "k \<noteq> K_Eof" "lexeme_ok k (between (lx_src lx) (lx_cursor w) (lx_cursor lx'))"
      "lex_one lx = Some (lx', Inr \<lparr>tok_kind = k, tok_span = span_of lx (lx_cursor w) (lx_cursor lx'), tok_line = lx_line w\<rparr>)"
  | (error) w lx' c msg where "cuts lx w" "list_all is_space (between (lx_src lx) (lx_cursor lx) (lx_cursor w))" "w = skip_whitespace lx"
      "moved w lx'" "lx_cursor w < lx_cursor lx'" "c = NonAsciiChar \<or> is_char_boundary (lx_src lx) (lx_cursor lx')"
      "lex_one lx = Some (lx', Inl (diag_error c (span_of lx (lx_cursor w) (lx_cursor lx')) (lx_line w) msg))"
proof -
  define w where "w = skip_whitespace lx"
  have w: "cuts lx w" unfolding w_def by (rule cuts_whitespace [OF v b])
  have le: "lx_cursor lx \<le> src_len lx" using b by (auto simp: is_char_boundary_def)
  have sp: "list_all is_space (between (lx_src lx) (lx_cursor lx) (lx_cursor w))"
    unfolding w_def using skip_whitespace_spec [OF le] by blast
  have src: "lx_src w = lx_src lx" "lx_cursor w \<le> src_len lx" using cuts_src [OF w] by auto
  have so: "span_of w = span_of lx" using w span_of_moved by (auto simp: cuts_def)
  show thesis
  proof (cases "src_len w \<le> lx_cursor w")
    case True
    then have "lex_one lx = mk w K_Eof (lx_cursor w) (lx_line w)" by (simp add: lex_one_def w_def [symmetric])
    then show thesis using eof [OF w sp w_def] True src by (simp add: mk_token so)
  next
    case False
    then have one: "lex_one lx = lex_at w (lx_cursor w) (lx_line w)" by (simp add: lex_one_def w_def [symmetric])
    have "cur w \<noteq> CHR 0x0A" using skip_whitespace_stop [of lx] False src by (simp add: w_def)
    then have "emits w (lx_cursor w) (lx_line w) (lex_one lx)"
      unfolding one using v src False by (intro lex_at_emits) auto
    then obtain lx' where m: "moved w lx'" "lx_cursor w < lx_cursor lx'"
      and r: "(\<exists>k. lex_one lx = mk lx' k (lx_cursor w) (lx_line w) \<and> k \<noteq> K_Eof \<and> is_char_boundary (lx_src lx) (lx_cursor lx')
          \<and> lexeme_ok k (between (lx_src lx) (lx_cursor w) (lx_cursor lx')))
        \<or> (\<exists>c msg. lex_one lx = err lx' c (lx_cursor w) (lx_line w) msg \<and> (c = NonAsciiChar \<or> is_char_boundary (lx_src lx) (lx_cursor lx')))"
      unfolding emits_def src(1) by blast
    have so': "span_of lx' = span_of lx" using so span_of_moved [OF m(1)] by simp
    from r show thesis
    proof (elim disjE exE conjE)
      fix k assume k: "lex_one lx = mk lx' k (lx_cursor w) (lx_line w)" "k \<noteq> K_Eof" "is_char_boundary (lx_src lx) (lx_cursor lx')"
        "lexeme_ok k (between (lx_src lx) (lx_cursor w) (lx_cursor lx'))"
      have "cuts w lx'" using m k(3) src(1) by (simp add: cuts_def)
      from token [OF w sp w_def this m(2) k(2,4)] show thesis using k(1) m(2) by (simp add: mk_token so')
    next
      fix c msg assume e: "lex_one lx = err lx' c (lx_cursor w) (lx_line w) msg"
      then show thesis if "c = NonAsciiChar"
        using error [OF w sp w_def m, of c msg] that m(2) by (simp add: err_diag so')
      show thesis if "is_char_boundary (lx_src lx) (lx_cursor lx')"
        using error [OF w sp w_def m, of c msg] that m(2) e by (simp add: err_diag so')
    qed
  qed
qed

section \<open>The reference stream\<close>

text \<open>The tokens from here to the end of the source, or to the first error.\<close>

partial_function (option) stream :: "lexer \<Rightarrow> (token list \<times> diagnostic option) option" where
  "stream lx =
     (case lex_one lx of
        None \<Rightarrow> None
      | Some (lx1, r) \<Rightarrow>
          (case r of
             Inl d \<Rightarrow> Some ([], Some d)
           | Inr t \<Rightarrow>
               if tok_kind t = K_Eof then Some ([t], None)
               else Option.bind (stream lx1) (\<lambda>(ts, e). Some (t # ts, e))))"

text \<open>
  The tokens tile the source from \<open>at\<close> on: white space, a token of its kind cut at
  character boundaries, and so on to the end; each has the line it starts on.
\<close>

fun tiles :: "string \<Rightarrow> nat \<Rightarrow> nat \<Rightarrow> nat \<Rightarrow> token list \<Rightarrow> bool" where
  "tiles s b l at [] \<longleftrightarrow> True"
| "tiles s b l at (t # ts) \<longleftrightarrow>
     (\<exists>i j. tok_span t = \<lparr>span_start = b + i, span_end = b + j\<rparr> \<and> at \<le> i \<and> i \<le> j \<and> j \<le> length s
        \<and> list_all is_space (between s at i) \<and> is_char_boundary s i \<and> is_char_boundary s j
        \<and> tok_line t = l + newlines (between s 0 i) \<and> lexeme_ok (tok_kind t) (between s i j)
        \<and> (if tok_kind t = K_Eof then ts = [] \<and> i = length s else i < j \<and> tiles s b l j ts))"

text \<open>A diagnostic of the lexer: inside the source, and at character boundaries but for a non-ASCII byte.\<close>

definition located :: "string \<Rightarrow> nat \<Rightarrow> nat \<Rightarrow> diagnostic \<Rightarrow> bool" where
  "located s b l d \<longleftrightarrow> (\<exists>c i j msg. d = diag_error c \<lparr>span_start = b + i, span_end = b + j\<rparr> (l + newlines (between s 0 i)) msg
     \<and> i < j \<and> j \<le> length s \<and> is_char_boundary s i \<and> (c = NonAsciiChar \<or> is_char_boundary s j))"

lemma stream_spec:
  assumes "valid_utf8 (lx_src lx)" "is_char_boundary (lx_src lx) (lx_cursor lx)"
    and "lx_line lx = l + newlines (between (lx_src lx) 0 (lx_cursor lx))"
  shows "\<exists>ts e. stream lx = Some (ts, e) \<and> tiles (lx_src lx) (lx_base lx) l (lx_cursor lx) ts
    \<and> (case e of None \<Rightarrow> ts \<noteq> [] \<and> tok_kind (last ts) = K_Eof
       | Some d \<Rightarrow> list_all (\<lambda>t. tok_kind t \<noteq> K_Eof) ts \<and> located (lx_src lx) (lx_base lx) l d)"
  using assms
proof (induction "src_len lx - lx_cursor lx" arbitrary: lx rule: less_induct)
  case less
  have line: "lx_line w = l + newlines (between (lx_src lx) 0 (lx_cursor w))" if "moved lx w" for w
    using that less.prems(3) between_append [of 0 "lx_cursor lx" "lx_cursor w" "lx_src lx", symmetric]
    by (auto simp: moved_def onward_def)
  from less.prems(1,2) show ?case
  proof (cases lx rule: lex_one_cases)
    case (eof w)
    have "stream lx = Some ([\<lparr>tok_kind = K_Eof, tok_span = span_of lx (lx_cursor w) (lx_cursor w), tok_line = lx_line w\<rparr>], None)"
      using eof(5) by (subst stream.simps) simp
    then show ?thesis using eof(1,2,4) line [of w] cuts_src [OF eof(1)] by (auto simp: span_of_def cuts_def)
  next
    case (token w lx' k)
    let ?t = "\<lparr>tok_kind = k, tok_span = span_of lx (lx_cursor w) (lx_cursor lx'), tok_line = lx_line w\<rparr>"
    have c: "cuts lx lx'" by (rule cuts_trans [OF token(1,4)])
    have src: "lx_src lx' = lx_src lx" "lx_base lx' = lx_base lx" "lx_src w = lx_src lx"
      using c token(1) by (auto simp: cuts_def moved_def onward_def)
    have shorter: "src_len lx' - lx_cursor lx' < src_len lx - lx_cursor lx"
      using cuts_src [OF token(1)] cuts_src [OF token(4)] token(5) src by simp
    from less.hyps [OF this, unfolded src] obtain ts e where IH: "stream lx' = Some (ts, e)" "tiles (lx_src lx) (lx_base lx) l (lx_cursor lx') ts"
      "case e of None \<Rightarrow> ts \<noteq> [] \<and> tok_kind (last ts) = K_Eof
       | Some d \<Rightarrow> list_all (\<lambda>t. tok_kind t \<noteq> K_Eof) ts \<and> located (lx_src lx) (lx_base lx) l d"
      using less.prems(1) c line [of lx'] src by (auto simp: cuts_def)
    have "stream lx = Some (?t # ts, e)" using token(8,6) IH(1) by (subst stream.simps) simp
    moreover have "tiles (lx_src lx) (lx_base lx) l (lx_cursor lx) (?t # ts)"
      using token IH(2) line [of w] cuts_src [OF token(1)] cuts_src [OF token(4)] src
      by (auto simp: span_of_def cuts_def simp del: lexeme_ok.simps)
    ultimately show ?thesis using IH(3) token(6) by (auto split: option.splits simp del: tiles.simps)
  next
    case (error w lx' c msg)
    have "stream lx = Some ([], Some (diag_error c (span_of lx (lx_cursor w) (lx_cursor lx')) (lx_line w) msg))"
      using error(7) by (subst stream.simps) simp
    moreover have "located (lx_src lx) (lx_base lx) l (diag_error c (span_of lx (lx_cursor w) (lx_cursor lx')) (lx_line w) msg)"
      using error line [of w] cuts_src [OF error(1)] unfolding located_def
      by (intro exI [of _ c] exI [of _ "lx_cursor w"] exI [of _ "lx_cursor lx'"] exI [of _ msg])
         (auto simp: span_of_def cuts_def moved_def onward_def)
    ultimately show ?thesis by simp
  qed
qed

section \<open>Scanning does not look at the buffer\<close>

definition rebuf :: "token list \<Rightarrow> nat \<Rightarrow> lexer \<Rightarrow> lexer" where
  "rebuf b p lx = lx\<lparr>lx_buffer := b, lx_pos := p\<rparr>"

definition rebuf_result :: "token list \<Rightarrow> nat \<Rightarrow> 'a lexed \<Rightarrow> 'a lexed" where
  "rebuf_result b p = map_option (map_prod (rebuf b p) id)"

lemma rebuf_sel [simp]:
  "lx_src (rebuf b p lx) = lx_src lx" "lx_base (rebuf b p lx) = lx_base lx" "lx_cursor (rebuf b p lx) = lx_cursor lx"
  "lx_line (rebuf b p lx) = lx_line lx" "lx_buffer (rebuf b p lx) = b" "lx_pos (rebuf b p lx) = p"
  by (simp_all add: rebuf_def)

lemma rebuf_moves [simp]:
  "byte_at (rebuf b p lx) i = byte_at lx i" "cur (rebuf b p lx) = cur lx" "slice_from (rebuf b p lx) s = slice_from lx s"
  "advance n (rebuf b p lx) = rebuf b p (advance n lx)" "newline (rebuf b p lx) = rebuf b p (newline lx)"
  "skip_escape (rebuf b p lx) = rebuf b p (skip_escape lx)" "scan_while m (rebuf b p lx) = rebuf b p (scan_while m lx)"
proof -
  show *: "byte_at (rebuf b p lx) i = byte_at lx i" "cur (rebuf b p lx) = cur lx" "slice_from (rebuf b p lx) s = slice_from lx s"
    "advance n (rebuf b p lx) = rebuf b p (advance n lx)" "newline (rebuf b p lx) = rebuf b p (newline lx)" for n i lx
    by (simp_all add: byte_at_def cur_def slice_from_def advance_def newline_def rebuf_def)
  show "skip_escape (rebuf b p lx) = rebuf b p (skip_escape lx)" "scan_while m (rebuf b p lx) = rebuf b p (scan_while m lx)"
    by (simp_all add: skip_escape_def scan_while_eq Let_def *)
qed

lemma rebuf_result_simps [simp]:
  "rebuf_result b p None = None" "rebuf_result b p (Some (lx, r)) = Some (rebuf b p lx, r)"
  "mk (rebuf b p lx) k s l = rebuf_result b p (mk lx k s l)" "err (rebuf b p lx) c s l msg = rebuf_result b p (err lx c s l msg)"
proof -
  have "span_from (rebuf b p lx) s = span_from lx s" by (simp add: span_from_def)
  then show "mk (rebuf b p lx) k s l = rebuf_result b p (mk lx k s l)" "err (rebuf b p lx) c s l msg = rebuf_result b p (err lx c s l msg)"
    by (cases "span_from lx s"; simp add: rebuf_result_def mk_def err_def)+
qed (simp_all add: rebuf_result_def)

lemma rebuf_whitespace [simp]: "skip_whitespace (rebuf b p lx) = rebuf b p (skip_whitespace lx)"
proof (induction lx rule: skip_whitespace.induct)
  case (1 lx)
  then show ?case by (simp add: skip_whitespace.simps [of lx] skip_whitespace.simps [of "rebuf b p lx"])
qed

lemma rebuf_block_comment [simp]: "block_comment (rebuf b p lx) d s l = rebuf_result b p (block_comment lx d s l)"
proof (induction lx d s l rule: block_comment.induct)
  case (1 lx d s l)
  then show ?case by (simp add: block_comment.simps [of lx] block_comment.simps [of "rebuf b p lx"])
qed

lemma rebuf_nested_string [simp]: "nested_string (rebuf b p lx) s l = rebuf_result b p (nested_string lx s l)"
proof (induction lx s l rule: nested_string.induct)
  case (1 lx s l)
  then show ?case by (simp add: nested_string.simps [of lx] nested_string.simps [of "rebuf b p lx"])
qed

lemma rebuf_out:
  "Option.bind x (\<lambda>y. rebuf_result b p (f y)) = rebuf_result b p (Option.bind x f)"
  "(case x of None \<Rightarrow> rebuf_result b p u | Some v \<Rightarrow> rebuf_result b p (f v)) = rebuf_result b p (case x of None \<Rightarrow> u | Some v \<Rightarrow> f v)"
  "(if c then rebuf_result b p u else rebuf_result b p w) = rebuf_result b p (if c then u else w)"
  "(case y of (a, d) \<Rightarrow> rebuf_result b p (g a d)) = rebuf_result b p (case y of (a, d) \<Rightarrow> g a d)"
  "(if c then rebuf b p m else rebuf b p n) = rebuf b p (if c then m else n)"
  by (cases x; simp)+ (simp_all split: prod.splits)

lemma rebuf_string_loop [simp]: "string_loop (rebuf b p lx) d s l = rebuf_result b p (string_loop lx d s l)"
proof (induction lx d s l rule: string_loop.induct)
  case (1 lx d s l)
  note unf = string_loop.simps [of lx d s l] string_loop.simps [of "rebuf b p lx" d s l]
  have nested: "skip_nested_string (rebuf b p lx) s l = rebuf_result b p (skip_nested_string lx s l)"
    by (simp add: skip_nested_string_def)
  show ?case
  proof (cases "src_len lx \<le> lx_cursor lx \<or> cur lx = CHR 0x0A")
    case True
    then show ?thesis by (simp add: unf)
  next
    case False
    show ?thesis
    proof (cases "cur lx = CHR 0x22 \<and> d \<noteq> 0")
      case True
      then show ?thesis using False "1.IH"(2) nested
        by (cases "skip_nested_string lx s l") (auto simp: unf split: sum.splits)
    next
      case q: False
      then show ?thesis using False "1.IH"(1,3-) by (simp add: unf)
    qed
  qed
qed

lemma rebuf_fraction: "lex_fraction (rebuf b p lx) = map_prod (rebuf b p) id (lex_fraction lx)"
  "lex_exponent (rebuf b p lx) = map_prod (rebuf b p) id (lex_exponent lx)"
  by (simp_all add: lex_fraction_def lex_exponent_def scan_while_digit_or_sep_def Let_def)

lemma rebuf_sep: "scan_while_digit_or_sep m (rebuf b p lx) = rebuf b p (scan_while_digit_or_sep m lx)"
  by (simp add: scan_while_digit_or_sep_def)

lemmas rebuf_rules = Let_def rebuf_sep rebuf_moves rebuf_sel rebuf_result_simps rebuf_out

lemma rebuf_scanners:
  "lex_comment (rebuf b p lx) s l = rebuf_result b p (lex_comment lx s l)"
  "lex_string (rebuf b p lx) s l = rebuf_result b p (lex_string lx s l)"
  "lex_intrinsic (rebuf b p lx) s l = rebuf_result b p (lex_intrinsic lx s l)"
  "lex_word (rebuf b p lx) s l = rebuf_result b p (lex_word lx s l)"
  "lex_operator (rebuf b p lx) s l = rebuf_result b p (lex_operator lx s l)"
  "lex_radix (rebuf b p lx) s l r m = rebuf_result b p (lex_radix lx s l r m)"
  "bad_byte (rebuf b p lx) s l = rebuf_result b p (bad_byte lx s l)"
  unfolding lex_comment_def lex_string_def lex_intrinsic_def lex_word_def lex_operator_def lex_radix_def bad_byte_def
    rebuf_rules rebuf_block_comment rebuf_string_loop
  by (rule refl)+

lemma rebuf_number: "lex_number (rebuf b p lx) s l = rebuf_result b p (lex_number lx s l)"
proof -
  obtain lx2 f where f: "lex_fraction (scan_while_digit_or_sep is_digit lx) = (lx2, f)" by fastforce
  obtain lx3 e where e: "lex_exponent lx2 = (lx3, e)" by fastforce
  show ?thesis
    unfolding lex_number_def rebuf_rules rebuf_fraction f map_prod_simp e case_prod_conv id_apply rebuf_scanners by (rule refl)
qed

lemma rebuf_lex_one: "lex_one (rebuf b p lx) = rebuf_result b p (lex_one lx)"
  unfolding lex_one_def lex_at_def lex_other_def rebuf_whitespace rebuf_rules rebuf_scanners rebuf_number by (rule refl)

section \<open>The eager tokenizers\<close>

definition code_tokens :: "token list \<Rightarrow> token list" where
  "code_tokens ts = filter (\<lambda>t. tok_kind t \<noteq> K_Comment) ts"

abbreviation outcome :: "token list \<Rightarrow> diagnostic option \<Rightarrow> diagnostic + token list" where
  "outcome ts e \<equiv> (case e of None \<Rightarrow> Inr ts | Some d \<Rightarrow> Inl d)"

lemma streamE:
  assumes "stream lx = Some (ts, e)"
  obtains (error) lx1 d where "lex_one lx = Some (lx1, Inl d)" "ts = []" "e = Some d"
  | (eof) lx1 t where "lex_one lx = Some (lx1, Inr t)" "tok_kind t = K_Eof" "ts = [t]" "e = None"
  | (token) lx1 t ts' where "lex_one lx = Some (lx1, Inr t)" "tok_kind t \<noteq> K_Eof" "ts = t # ts'" "stream lx1 = Some (ts', e)"
  using assms by (subst (asm) stream.simps) (auto split: option.splits sum.splits if_splits bind_splits)

lemma collect_lex_one:
  "stream lx = Some (ts, e) \<Longrightarrow> collect lex_one lx out = Some (outcome (out @ ts) e)"
proof (induction ts arbitrary: lx out)
  case Nil
  then show ?case by (cases rule: streamE) (auto simp: collect.simps)
next
  case (Cons t ts)
  from Cons.prems show ?case
  proof (cases rule: streamE)
    case (token lx1 t' ts')
    then show ?thesis using Cons.IH [of lx1 "out @ [t]"] by (subst collect.simps) (auto split: option.splits)
  qed (auto simp: collect.simps)
qed

text \<open>With nothing buffered ahead, the cursor lexes the next token that is not a comment.\<close>

lemma lex_one_keeps: "valid_utf8 (lx_src lx) \<Longrightarrow> is_char_boundary (lx_src lx) (lx_cursor lx) \<Longrightarrow> lex_one lx = Some (lx1, r) \<Longrightarrow>
   lx_src lx1 = lx_src lx \<and> lx_base lx1 = lx_base lx \<and> lx_buffer lx1 = lx_buffer lx \<and> lx_pos lx1 = lx_pos lx
   \<and> ((\<exists>t. r = Inr t) \<longrightarrow> is_char_boundary (lx_src lx) (lx_cursor lx1))"
  by (cases lx rule: lex_one_cases) (auto simp: cuts_def moved_def onward_def)

lemma next_token_step:
  assumes "length (lx_buffer lx) = lx_pos lx" "lex_one lx = Some (lx1, r)" "lx_buffer lx1 = lx_buffer lx" "lx_pos lx1 = lx_pos lx"
  shows "next_token lx = (case r of Inl d \<Rightarrow> Some (lx1, Inl d)
     | Inr t \<Rightarrow> if tok_kind t = K_Comment then next_token lx1
         else Some (lx1\<lparr>lx_buffer := lx_buffer lx1 @ [t], lx_pos := lx_pos lx1 + (if tok_kind t = K_Eof then 0 else 1)\<rparr>, Inr t))"
  using assms
  by (subst next_token_def, subst ensure.simps) (auto simp: next_token_def ensure.simps nth_opt_def nth_append split: sum.splits)

lemma collect_comment:
  "next_token lx = next_token lx1 \<Longrightarrow> collect next_token lx out = collect next_token lx1 out"
  by (simp add: collect.simps)

lemma stream_rebuf: "stream lx = Some (ts, e) \<Longrightarrow> stream (rebuf b p lx) = Some (ts, e)"
proof (induction ts arbitrary: lx)
  case Nil
  then show ?case by (cases rule: streamE) (auto simp: stream.simps rebuf_lex_one)
next
  case (Cons t ts)
  from Cons.prems show ?case
  proof (cases rule: streamE)
    case (token lx1 t' ts')
    then show ?thesis using Cons.IH [of lx1] by (subst stream.simps) (simp add: rebuf_lex_one)
  qed (auto simp: stream.simps rebuf_lex_one)
qed

lemma collect_next_token:
  assumes "stream lx = Some (ts, e)" "valid_utf8 (lx_src lx)" "is_char_boundary (lx_src lx) (lx_cursor lx)"
    and "length (lx_buffer lx) = lx_pos lx"
  shows "collect next_token lx out = Some (outcome (out @ code_tokens ts) e)"
  using assms
proof (induction ts arbitrary: lx out)
  case Nil
  from Nil(1) obtain lx1 d where l: "lex_one lx = Some (lx1, Inl d)" "e = Some d" by (cases rule: streamE) auto
  then have "next_token lx = Some (lx1, Inl d)"
    using next_token_step [OF Nil(4) l(1)] lex_one_keeps [OF Nil(2,3) l(1)] by simp
  then show ?case using l by (simp add: collect.simps)
next
  case (Cons t ts)
  from Cons.prems(1) show ?case
  proof (cases rule: streamE)
    case (eof lx1 t')
    then show ?thesis using next_token_step [OF Cons.prems(4) eof(1)] lex_one_keeps [OF Cons.prems(2,3) eof(1)]
      by (simp add: collect.simps code_tokens_def)
  next
    case (token lx1 t' ts')
    note keeps = lex_one_keeps [OF Cons.prems(2,3) token(1)]
    note step = next_token_step [OF Cons.prems(4) token(1)]
    have [simp]: "t' = t" "ts' = ts" using token(3) by auto
    show ?thesis
    proof (cases "tok_kind t = K_Comment")
      case True
      have "collect next_token lx1 out = Some (outcome (out @ code_tokens ts) e)"
        using Cons.IH [of lx1 out] token(4) keeps Cons.prems by simp
      then show ?thesis using collect_comment [of lx lx1 out] step keeps True by (cases e) (simp_all add: code_tokens_def)
    next
      case False
      let ?lx = "rebuf (lx_buffer lx @ [t]) (lx_pos lx + 1) lx1"
      have "next_token lx = Some (?lx, Inr t)" using step keeps False token(2) by (simp add: rebuf_def)
      moreover have "collect next_token ?lx (out @ [t]) = Some (outcome ((out @ [t]) @ code_tokens ts) e)"
        using Cons.IH [of ?lx "out @ [t]"] stream_rebuf [of lx1 ts e] token(4) keeps Cons.prems by simp
      ultimately show ?thesis using token(2) False by (subst collect.simps) (cases e; simp add: code_tokens_def)
    qed
  qed simp
qed





lemma stream_new:
  assumes "valid_utf8 src"
  obtains ts e where "stream (lexer_new src) = Some (ts, e)" "tiles src 0 1 0 ts"
    "case e of None \<Rightarrow> ts \<noteq> [] \<and> tok_kind (last ts) = K_Eof
     | Some d \<Rightarrow> list_all (\<lambda>t. tok_kind t \<noteq> K_Eof) ts \<and> located src 0 1 d"
proof -
  have "lx_src (lexer_new src) = src" "lx_base (lexer_new src) = 0" "lx_cursor (lexer_new src) = 0" "lx_line (lexer_new src) = 1"
    by (simp_all add: lexer_new_def)
  from stream_spec [of "lexer_new src" 1, unfolded this] show ?thesis using that assms by auto
qed

text \<open>
  C5: Lexing UTF-8 text never panics and always ends, and the tokens it yields tile
  the source: between two tokens there is only white space, each token is a lexeme of
  its kind cut at character boundaries and carries the line it starts on, and the
  last one is the end of input. Otherwise the result is the first lexical error, which
  points inside the source.
\<close>

theorem tokenize_with_comments_tiles:
  assumes "valid_utf8 src"
  shows "\<exists>r. tokenize_with_comments src = Some r
    \<and> (case r of Inr ts \<Rightarrow> tiles src 0 1 0 ts \<and> ts \<noteq> [] \<and> tok_kind (last ts) = K_Eof | Inl d \<Rightarrow> located src 0 1 d)"
proof -
  obtain ts e where s: "stream (lexer_new src) = Some (ts, e)" "tiles src 0 1 0 ts"
    "case e of None \<Rightarrow> ts \<noteq> [] \<and> tok_kind (last ts) = K_Eof
     | Some d \<Rightarrow> list_all (\<lambda>t. tok_kind t \<noteq> K_Eof) ts \<and> located src 0 1 d" by (rule stream_new [OF assms])
  then show ?thesis using collect_lex_one [OF s(1), of "[]"]
    by (cases e) (auto simp: tokenize_with_comments_def simp del: tiles.simps)
qed

text \<open>
  C18: \<^verbatim>\<open>tokenize\<close>, which goes through the buffered cursor, is
  \<^verbatim>\<open>tokenize_with_comments\<close> without the comments, with the same errors.
\<close>

theorem tokenize_drops_comments:
  assumes "valid_utf8 src"
  shows "tokenize src = map_option (map_sum id code_tokens) (tokenize_with_comments src)"
proof -
  obtain ts e where s: "stream (lexer_new src) = Some (ts, e)" by (rule stream_new [OF assms])
  have "collect next_token (lexer_new src) [] = Some (outcome ([] @ code_tokens ts) e)"
    using assms by (intro collect_next_token [OF s]) (simp_all add: lexer_new_def)
  then show ?thesis using collect_lex_one [OF s, of "[]"]
    by (cases e) (simp_all add: tokenize_def tokenize_with_comments_def)
qed


section \<open>Witnesses\<close>

definition demo_source :: string where
  "demo_source = ''let x # c''"

lemma demo_source_valid: "valid_utf8 demo_source"
  by code_simp

lemma map_result_Inr: "map_option (map_sum f g) x = Some (Inr y) \<longleftrightarrow> (\<exists>z. x = Some (Inr z) \<and> g z = y)"
proof (cases x)
  case (Some r)
  then show ?thesis by (cases r) auto
qed simp

lemma demo_source_kinds:
  "map_option (map_sum (map frame_code \<circ> frames) (map tok_kind)) (tokenize_with_comments demo_source)
     = Some (Inr [K_Let, K_Word, K_Comment, K_Eof])"
  by code_simp

lemma demo_source_tokens:
  obtains ts where "tokenize_with_comments demo_source = Some (Inr ts)" "map tok_kind ts = [K_Let, K_Word, K_Comment, K_Eof]"
  using demo_source_kinds [unfolded map_result_Inr] by (elim exE conjE) (rule that)

theorem tokenize_with_comments_tiles_witness:
  "\<exists>ts. tokenize_with_comments demo_source = Some (Inr ts) \<and> tiles demo_source 0 1 0 ts
     \<and> map tok_kind ts = [K_Let, K_Word, K_Comment, K_Eof]"
proof -
  obtain ts where "tokenize_with_comments demo_source = Some (Inr ts)" "map tok_kind ts = [K_Let, K_Word, K_Comment, K_Eof]"
    by (rule demo_source_tokens)
  then show ?thesis using tokenize_with_comments_tiles [OF demo_source_valid] by (simp del: tiles.simps)
qed

theorem tokenize_drops_comments_witness:
  "map_option (map_sum (map frame_code \<circ> frames) (map tok_kind)) (tokenize demo_source) = Some (Inr [K_Let, K_Word, K_Eof])"
proof -
  obtain ts where ts: "tokenize_with_comments demo_source = Some (Inr ts)" "map tok_kind ts = [K_Let, K_Word, K_Comment, K_Eof]"
    by (rule demo_source_tokens)
  then have "map tok_kind (code_tokens ts) = [K_Let, K_Word, K_Eof]" by (auto simp: code_tokens_def)
  then show ?thesis using tokenize_drops_comments [OF demo_source_valid] ts by simp
qed


section \<open>The tables lex back\<close>

text \<open>The one token \<open>s\<close> lexes to, if it does.\<close>

definition lexes_as :: "string \<Rightarrow> kind \<Rightarrow> bool" where
  "lexes_as s k \<longleftrightarrow> tokenize s = Some (Inr
     [\<lparr>tok_kind = k, tok_span = \<lparr>span_start = 0, span_end = length s\<rparr>, tok_line = 1\<rparr>,
      \<lparr>tok_kind = K_Eof, tok_span = span_at (length s), tok_line = 1\<rparr>])"

text \<open>
  C26: Every operator, keyword and delimiter of the tables lexes back to one token of
  the kind its table gives it.
\<close>

theorem tables_lex_back:
  "list_all (\<lambda>d. lexes_as (fst d) (op_kind d)) OPERATORS \<and> list_all (\<lambda>(s, k). lexes_as s k) KEYWORDS
     \<and> list_all (\<lambda>(c, k). lexes_as [c] k) DELIMITERS"
  by code_simp


end
