(* ===== verification/Token_Cursor.thy ===== *)
theory Token_Cursor
  imports Lexer_Stream
begin

text \<open>
  The interface the parser relies on: a cursor over a fixed sequence of tokens that
  peeks any distance, advances, and rewinds to a mark. The lexer provides it on every
  source that lexes.
\<close>

section \<open>The interface\<close>





section \<open>The lexer as a cursor\<close>











section \<open>Witness\<close>



end
