(* ===== verification/String_Decoding.thy ===== *)
theory String_Decoding
  imports Lexer
begin

text \<open>
  Decoding string literals, the last part of \<^verbatim>\<open>crates/frontend/src/lexer.rs\<close>: escapes of
  one byte, \<open>\xHH\<close> and \<open>\u{...}\<close>, shared by plain literals and interpolation chunks. A
  function that appends to \<^verbatim>\<open>out\<close> returns what it appends, with the next index.
\<close>

section \<open>Escapes\<close>

definition invalid_escape :: "nat \<Rightarrow> nat \<Rightarrow> string \<Rightarrow> diagnostic" where
  "invalid_escape at line msg = diag_error InvalidEscape \<lparr>span_start = at, span_end = at + 1\<rparr> line msg"

definition byte_or_zero :: "string \<Rightarrow> nat \<Rightarrow> char" where
  "byte_or_zero s i = (case nth_opt s i of Some c \<Rightarrow> c | None \<Rightarrow> CHR 0x00)"

definition hex_value :: "char \<Rightarrow> nat" where
  "hex_value c = (case to_digit c 16 of Some d \<Rightarrow> d | None \<Rightarrow> 0)"

definition decode_hex_byte :: "string \<Rightarrow> nat \<Rightarrow> nat \<Rightarrow> nat \<Rightarrow> diagnostic + string \<times> nat" where
  "decode_hex_byte inner i esc_at line =
     (let h1 = byte_or_zero inner i; h2 = byte_or_zero inner (i + 1)
      in if \<not> is_hex_digit h1 \<or> \<not> is_hex_digit h2 then
           Inl (invalid_escape esc_at line (quoted [CHR 0x5C, CHR ''x''] @ '' must be followed by exactly two hex digits''))
         else Inr ([char_of (hex_value h1 * 16 + hex_value h2)], i + 2))"

text \<open>The loop of \<^verbatim>\<open>decode_unicode\<close>: at most \<open>left\<close> more digits.\<close>

fun unicode_digits :: "string \<Rightarrow> nat \<Rightarrow> nat \<Rightarrow> nat \<Rightarrow> nat \<times> nat \<times> nat" where
  "unicode_digits inner i cp 0 = (i, cp, 0)"
| "unicode_digits inner i cp (Suc left) =
     (let d = byte_or_zero inner i
      in if \<not> is_hex_digit d then (i, cp, Suc left)
         else unicode_digits inner (i + 1) (cp * 16 + hex_value d) left)"

definition decode_unicode :: "string \<Rightarrow> nat \<Rightarrow> nat \<Rightarrow> nat \<Rightarrow> diagnostic + string \<times> nat" where
  "decode_unicode inner i esc_at line =
     (let bad = invalid_escape esc_at line
            (quoted ([CHR 0x5C] @ ''u{...}'') @ '' needs 1-6 hex digits naming a Unicode scalar value (<= U+10FFFF, not a surrogate U+D800..U+DFFF)'')
      in if nth_opt inner i \<noteq> Some CHR ''{'' then Inl bad
         else let (j, cp, left) = unicode_digits inner (i + 1) 0 6
              in if left = 6 \<or> nth_opt inner j \<noteq> Some CHR ''}'' then Inl bad
                 else case from_u32 cp of
                     None \<Rightarrow> Inl bad
                   | Some scalar \<Rightarrow> Inr (encode_utf8 scalar, j + 1))"

text \<open>The escapes that stand for one byte.\<close>

definition simple_escape :: "char \<Rightarrow> char option" where
  "simple_escape c = map_of
     [(CHR ''n'', CHR 0x0A), (CHR ''t'', CHR 0x09), (CHR ''r'', CHR 0x0D), (CHR ''0'', CHR 0x00), (CHR 0x5C, CHR 0x5C),
      (CHR 0x22, CHR 0x22), (CHR 0x27, CHR 0x27), (CHR ''{'', CHR ''{''), (CHR ''}'', CHR ''}''), (CHR ''?'', CHR ''?''),
      (CHR ''a'', CHR 0x07), (CHR ''b'', CHR 0x08), (CHR ''f'', CHR 0x0C), (CHR ''v'', CHR 0x0B)] c"

definition decode_escape :: "string \<Rightarrow> nat \<Rightarrow> nat \<Rightarrow> nat \<Rightarrow> diagnostic + string \<times> nat" where
  "decode_escape body i body_start line =
     (let esc_at = body_start + i
      in case nth_opt body (i + 1) of
           None \<Rightarrow> Inl (invalid_escape esc_at line (''dangling escape '' @ quoted [CHR 0x5C]))
         | Some sel \<Rightarrow>
             (case simple_escape sel of
                Some c \<Rightarrow> Inr ([c], i + 2)
              | None \<Rightarrow>
                  if sel = CHR ''x'' then decode_hex_byte body (i + 2) esc_at line
                  else if sel = CHR ''u'' then decode_unicode body (i + 2) esc_at line
                  else Inl (invalid_escape esc_at line (''unknown escape '' @ quoted ([CHR 0x5C] @ encode_utf8 (byte sel))))))"

lemma unicode_digits_le: "unicode_digits inner i cp n = (j, cp', left) \<Longrightarrow> i \<le> j"
  by (induction inner i cp n rule: unicode_digits.induct) (auto simp: Let_def split: if_splits)

lemma decode_escape_after: "decode_escape body i body_start line = Inr (bs, j) \<Longrightarrow> i < j"
  by (auto simp: decode_escape_def decode_hex_byte_def decode_unicode_def Let_def dest: unicode_digits_le
      split: option.splits if_splits prod.splits)

section \<open>Literals\<close>

text \<open>The loop of \<^verbatim>\<open>decode_string\<close> from index \<open>i\<close> of the body.\<close>

function decode_body :: "string \<Rightarrow> nat \<Rightarrow> nat \<Rightarrow> nat \<Rightarrow> diagnostic + string" where
  "decode_body inner i body_start line =
     (if i < length inner then
        if inner ! i \<noteq> CHR 0x5C then map_sum id (Cons (inner ! i)) (decode_body inner (i + 1) body_start line)
        else case decode_escape inner i body_start line of
            Inl d \<Rightarrow> Inl d
          | Inr (bs, j) \<Rightarrow> map_sum id (append bs) (decode_body inner j body_start line)
      else Inr [])"
  by pat_completeness auto
termination
  by (relation "measure (\<lambda>(inner, i, _). length inner - i)") (auto dest!: decode_escape_after sym [of "Inr _"])

definition is_quoted :: "string \<Rightarrow> bool" where
  "is_quoted raw \<longleftrightarrow> 2 \<le> length raw \<and> raw ! 0 = CHR 0x22 \<and> raw ! (length raw - 1) = CHR 0x22"

definition body_of :: "string \<Rightarrow> string" where
  "body_of raw = take (length raw - 2) (drop 1 raw)"

text \<open>With its debug assertion.\<close>

definition decode_string :: "string \<Rightarrow> nat \<Rightarrow> nat \<Rightarrow> (diagnostic + string) option" where
  "decode_string raw start line =
     (if is_quoted raw then Some (decode_body (body_of raw) 0 (start + 1) line) else None)"

text \<open>The loop of \<^verbatim>\<open>decode_string_offsets\<close>.\<close>

function decode_offsets :: "string \<Rightarrow> nat \<Rightarrow> (string \<times> nat list) option" where
  "decode_offsets inner i =
     (if i < length inner then
        if inner ! i = CHR 0x5C then
          (case decode_escape inner i 1 0 of
             Inl d \<Rightarrow> None
           | Inr (bs, j) \<Rightarrow> map_option (\<lambda>(out, at). (bs @ out, replicate (length bs) (i + 1) @ at)) (decode_offsets inner j))
        else map_option (\<lambda>(out, at). (inner ! i # out, (i + 1) # at)) (decode_offsets inner (i + 1))
      else Some ([], [length inner + 1]))"
  by pat_completeness auto
termination
  by (relation "measure (\<lambda>(inner, i). length inner - i)") (auto dest!: decode_escape_after sym [of "Inr _"])

definition decode_string_offsets :: "string \<Rightarrow> (string \<times> nat list) option" where
  "decode_string_offsets raw = (if 2 \<le> length raw then decode_offsets (body_of raw) 0 else None)"

declare decode_body.simps [simp del] decode_offsets.simps [simp del]

section \<open>Offsets\<close>

text \<open>Whether an escape decodes does not depend on where the diagnostics would point.\<close>

lemma decode_escape_location:
  "(case decode_escape body i s l of Inl _ \<Rightarrow> None | Inr x \<Rightarrow> Some x) = (case decode_escape body i s' l' of Inl _ \<Rightarrow> None | Inr x \<Rightarrow> Some x)"
  by (auto simp: decode_escape_def decode_hex_byte_def decode_unicode_def Let_def split: option.splits prod.splits)

lemma decode_offsets_body:
  "map_option fst (decode_offsets inner i) = (case decode_body inner i s l of Inl _ \<Rightarrow> None | Inr out \<Rightarrow> Some out)"
proof (induction inner i rule: decode_offsets.induct)
  case (1 inner i)
  note unf = decode_offsets.simps [of inner i] decode_body.simps [of inner i s l]
  show ?case
  proof (cases "i < length inner \<and> inner ! i = CHR 0x5C")
    case True
    show ?thesis
    proof (cases "decode_escape inner i 1 0")
      case (Inl d)
      then show ?thesis using True decode_escape_location [of inner i 1 0 s l] unf by (auto split: sum.splits)
    next
      case (Inr r)
      obtain bs j where r: "r = (bs, j)" by fastforce
      have "decode_escape inner i s l = Inr (bs, j)"
        using decode_escape_location [of inner i 1 0 s l] Inr r by (auto split: sum.splits)
      moreover have "map_option fst (decode_offsets inner j) = (case decode_body inner j s l of Inl _ \<Rightarrow> None | Inr out \<Rightarrow> Some out)"
        using "1.IH"(1) True Inr r by blast
      ultimately show ?thesis unfolding unf using True Inr r
        by (cases "decode_offsets inner j"; cases "decode_body inner j s l") auto
    qed
  next
    case False
    show ?thesis
    proof (cases "i < length inner")
      case True
      then have "map_option fst (decode_offsets inner (i + 1)) = (case decode_body inner (i + 1) s l of Inl _ \<Rightarrow> None | Inr out \<Rightarrow> Some out)"
        using "1.IH"(2) False by blast
      then show ?thesis unfolding unf using True False
        by (cases "decode_offsets inner (i + 1)"; cases "decode_body inner (i + 1) s l") auto
    qed (simp add: unf)
  qed
qed

text \<open>Offsets ascend from \<open>lo\<close> to the end, and each is of its byte or of a backslash.\<close>

definition offsets_ok :: "string \<Rightarrow> nat \<Rightarrow> string \<Rightarrow> nat list \<Rightarrow> bool" where
  "offsets_ok inner lo out at \<longleftrightarrow> length at = length out + 1 \<and> sorted at \<and> lo \<le> hd at \<and> last at = length inner + 1
     \<and> list_all (\<lambda>(p, c). 0 < p \<and> p \<le> length inner \<and> (inner ! (p - 1) = CHR 0x5C \<or> inner ! (p - 1) = c)) (zip at out)"

lemma sorted_replicate_append: "sorted at \<Longrightarrow> at \<noteq> [] \<Longrightarrow> p \<le> hd at \<Longrightarrow> sorted (replicate n p @ at)"
  by (cases at) (auto simp: sorted_append)

lemma offsets_ok_append:
  assumes ok: "offsets_ok inner lo out at" and p: "p < lo" "0 < p" "p \<le> length inner"
    and bs: "inner ! (p - 1) = CHR 0x5C \<or> bs = [inner ! (p - 1)]" and lo: "lo' \<le> p"
  shows "offsets_ok inner lo' (bs @ out) (replicate (length bs) p @ at)"
proof -
  have at: "at \<noteq> []" "p \<le> hd at" "lo' \<le> hd at" using ok p lo by (auto simp: offsets_ok_def)
  have "lo' \<le> hd (replicate (length bs) p @ at)" using at lo by (cases bs) auto
  moreover have "list_all (\<lambda>(p, c). 0 < p \<and> p \<le> length inner \<and> (inner ! (p - 1) = CHR 0x5C \<or> inner ! (p - 1) = c)) (zip (replicate (length bs) p) bs)"
    using p bs by (auto simp: list_all_iff set_zip)
  ultimately show ?thesis using ok at sorted_replicate_append [of at p "length bs"] by (simp add: offsets_ok_def)
qed

lemma byte_or_zero_bound: "is_hex_digit (byte_or_zero s i) \<Longrightarrow> i < length s"
  by (cases "i < length s") (auto simp: byte_or_zero_def nth_opt_def)

lemma decode_escape_bound:
  assumes "decode_escape inner i s l = Inr (bs, j)"
  shows "j \<le> length inner"
proof -
  have "j \<le> length inner" if "decode_hex_byte inner k a b = Inr (bs, j)" for k a b
    using that byte_or_zero_bound [of inner "k + 1"] by (auto simp: decode_hex_byte_def Let_def split: if_splits)
  moreover have "j \<le> length inner" if "decode_unicode inner k a b = Inr (bs, j)" for k a b
    using that by (auto simp: decode_unicode_def Let_def split: if_splits prod.splits option.splits)
  ultimately show ?thesis
    using assms by (auto simp: decode_escape_def Let_def split: option.splits if_splits)
qed

lemma decode_offsets_ok:
  "decode_offsets inner i = Some (out, at) \<Longrightarrow> i \<le> length inner \<Longrightarrow> offsets_ok inner (i + 1) out at"
proof (induction inner i arbitrary: out at rule: decode_offsets.induct)
  case (1 inner i)
  note run = "1.prems"(1) [unfolded decode_offsets.simps [of inner i]]
  consider "length inner \<le> i" | "i < length inner" "inner ! i \<noteq> CHR 0x5C" | "i < length inner" "inner ! i = CHR 0x5C" by linarith
  then show ?case
  proof cases
    case 1
    then show ?thesis using run "1.prems"(2) by (auto simp: offsets_ok_def)
  next
    case 2
    then obtain out' at' where r: "decode_offsets inner (i + 1) = Some (out', at')" "out = inner ! i # out'" "at = (i + 1) # at'"
      using run by auto
    have "offsets_ok inner (i + 1 + 1) out' at'" using "1.IH"(2) 2 r(1) by auto
    from offsets_ok_append [OF this, of "i + 1" "[inner ! i]" "i + 1"] show ?thesis using r 2 by simp
  next
    case 3
    then obtain bs j out' at' where r: "decode_escape inner i 1 0 = Inr (bs, j)" "decode_offsets inner j = Some (out', at')"
      "out = bs @ out'" "at = replicate (length bs) (i + 1) @ at'"
      using run by (auto split: sum.splits)
    have j: "i < j" "j \<le> length inner" using decode_escape_after [OF r(1)] decode_escape_bound [OF r(1)] by auto
    have "offsets_ok inner (j + 1) out' at'" using "1.IH"(1) 3 r(1,2) j by auto
    from offsets_ok_append [OF this, of "i + 1" bs "i + 1"] show ?thesis using r 3 j by simp
  qed
qed

text \<open>
  C24: \<^verbatim>\<open>decode_string_offsets\<close> decodes a literal exactly as \<^verbatim>\<open>decode_string\<close> does, and its
  offsets are in order: one for each decoded byte, where that byte or the backslash of
  its escape stands in the literal, and one for the closing quote.
\<close>

theorem decode_string_offsets_agrees:
  assumes "is_quoted raw"
  shows "(case decode_string_offsets raw of
      None \<Rightarrow> \<exists>d. decode_string raw start line = Some (Inl d)
    | Some (out, at) \<Rightarrow> decode_string raw start line = Some (Inr out) \<and> length at = length out + 1 \<and> sorted at
        \<and> last at = length raw - 1
        \<and> list_all (\<lambda>(p, c). 0 < p \<and> p < length raw - 1 \<and> (raw ! p = CHR 0x5C \<or> raw ! p = c)) (zip at out))"
proof -
  have len: "length (body_of raw) = length raw - 2" "2 \<le> length raw" using assms by (auto simp: body_of_def is_quoted_def)
  have nth: "body_of raw ! (p - 1) = raw ! p" if "0 < p" "p \<le> length (body_of raw)" for p
    using that len by (simp add: body_of_def)
  note agree = decode_offsets_body [of "body_of raw" 0 "start + 1" line]
  show ?thesis
  proof (cases "decode_offsets (body_of raw) 0")
    case None
    then show ?thesis using agree assms len by (auto simp: decode_string_offsets_def decode_string_def split: sum.splits)
  next
    case (Some r)
    obtain out at where r: "r = (out, at)" by fastforce
    have ok: "offsets_ok (body_of raw) 1 out at" using decode_offsets_ok [of "body_of raw" 0 out at] Some r by simp
    have "list_all (\<lambda>(p, c). 0 < p \<and> p < length raw - 1 \<and> (raw ! p = CHR 0x5C \<or> raw ! p = c)) (zip at out)"
    proof -
      have elem: "0 < p \<and> p \<le> length (body_of raw) \<and> (body_of raw ! (p - 1) = CHR 0x5C \<or> body_of raw ! (p - 1) = c)"
        if "(p, c) \<in> set (zip at out)" for p c
        using ok that by (auto simp: offsets_ok_def list_all_iff)
      have "0 < p \<and> p < length raw - 1 \<and> (raw ! p = CHR 0x5C \<or> raw ! p = c)" if "(p, c) \<in> set (zip at out)" for p c
        using elem [OF that] nth [of p] len by auto
      then show ?thesis by (auto simp: list_all_iff)
    qed
    moreover have "decode_string raw start line = Some (Inr out)"
      using agree assms Some r by (auto simp: decode_string_def split: sum.splits)
    ultimately show ?thesis using Some r ok len by (simp add: decode_string_offsets_def offsets_ok_def)
  qed
qed

section \<open>Round trips\<close>

lemma hex_digit_value: "n < 16 \<Longrightarrow> is_hex_digit (hex_digit n) \<and> hex_value (hex_digit n) = n"
  by (cases "n < 10") (auto simp: hex_digit_def hex_value_def to_digit_def classes)

text \<open>A literal with every byte written as \<open>\xHH\<close>.\<close>

definition hex_escape :: "char \<Rightarrow> string" where
  "hex_escape c = [CHR 0x5C, CHR ''x'', hex_digit (byte c div 16), hex_digit (byte c mod 16)]"

lemma decode_hex_escape: "decode_escape (p @ hex_escape c @ q) (length p) s l = Inr ([c], length p + 4)"
proof -
  let ?b = "p @ hex_escape c @ q"
  have at: "nth_opt ?b (length p + 1) = Some CHR ''x''" "byte_or_zero ?b (length p + 2) = hex_digit (byte c div 16)"
    "byte_or_zero ?b (length p + 3) = hex_digit (byte c mod 16)"
    by (simp_all add: nth_opt_def byte_or_zero_def hex_escape_def nth_append)
  have v: "byte c div 16 < 16" "byte c mod 16 < 16" using nat_of_char_less_256 [of c] by (simp_all add: less_mult_imp_div_less del: nat_of_char_less_256)
  have x: "simple_escape CHR ''x'' = None" by (simp add: simple_escape_def)
  have "char_of (byte c div 16 * 16 + byte c mod 16) = c" by simp
  then have h: "decode_hex_byte ?b (length p + 2) (s + length p) l = Inr ([c], length p + 4)"
    using at(2,3) hex_digit_value [OF v(1)] hex_digit_value [OF v(2)]
    by (simp add: decode_hex_byte_def Let_def numeral_3_eq_3 numeral_2_eq_2)
  show ?thesis unfolding decode_escape_def Let_def at(1) option.case x h by simp
qed

lemma decode_body_hex: "decode_body (p @ concat (map hex_escape bs)) (length p) s l = Inr bs"
proof (induction bs arbitrary: p)
  case Nil
  then show ?case by (simp add: decode_body.simps)
next
  case (Cons c bs)
  let ?b = "p @ hex_escape c @ concat (map hex_escape bs)"
  have "length (p @ hex_escape c) = length p + 4" by (simp add: hex_escape_def)
  then have "decode_body ?b (length p + 4) s l = Inr bs" using Cons.IH [of "p @ hex_escape c"] by simp
  moreover have "length p < length ?b" "?b ! length p = CHR 0x5C" by (simp_all add: hex_escape_def nth_append)
  ultimately show ?case using decode_hex_escape [of p c "concat (map hex_escape bs)" s l]
    by (subst decode_body.simps) simp
qed

definition in_quotes :: "string \<Rightarrow> string" where
  "in_quotes s = [CHR 0x22] @ s @ [CHR 0x22]"

lemma decode_in_quotes: "decode_string (in_quotes s) start line = Some (decode_body s 0 (start + 1) line)"
  by (simp add: decode_string_def is_quoted_def body_of_def in_quotes_def nth_append)

text \<open>
  Every byte string has a literal: decoding its bytes written as \<open>\xHH\<close> gives it back.
\<close>

lemma hex_literal_roundtrip:
  "decode_string (in_quotes (concat (map hex_escape bs))) start line = Some (Inr bs)"
  using decode_body_hex [of "[]"] by (simp add: decode_in_quotes)

text \<open>A code point in six hex digits.\<close>

definition hex6 :: "nat \<Rightarrow> nat list" where
  "hex6 cp = [cp div 1048576, cp div 65536 mod 16, cp div 4096 mod 16, cp div 256 mod 16, cp div 16 mod 16, cp mod 16]"

lemma hex6_value: "foldl (\<lambda>a d. a * 16 + d) 0 (hex6 cp) = cp"
proof -
  have d: "n div 16 * 16 + n mod 16 = n" for n :: nat by simp
  have "cp div 1048576 = cp div 65536 div 16" "cp div 65536 = cp div 4096 div 16" "cp div 4096 = cp div 256 div 16" "cp div 256 = cp div 16 div 16"
    by (simp_all flip: div_mult2_eq)
  then show ?thesis using d [of "cp div 65536"] d [of "cp div 4096"] d [of "cp div 256"] d [of "cp div 16"] d [of cp]
    by (simp add: hex6_def)
qed

lemma unicode_digits_run:
  "list_all (\<lambda>d. d < 16) ds \<Longrightarrow>
   unicode_digits (p @ map hex_digit ds @ q) (length p) cp (length ds) = (length p + length ds, foldl (\<lambda>a d. a * 16 + d) cp ds, 0)"
proof (induction ds arbitrary: p cp)
  case (Cons d ds)
  have "byte_or_zero (p @ map hex_digit (d # ds) @ q) (length p) = hex_digit d" by (simp add: byte_or_zero_def nth_opt_def nth_append)
  then show ?case using Cons.IH [of "p @ [hex_digit d]" "cp * 16 + d"] Cons.prems hex_digit_value [of d] by (simp add: Let_def)
qed simp

definition unicode_escape :: "nat \<Rightarrow> string" where
  "unicode_escape cp = [CHR 0x5C, CHR ''u'', CHR ''{''] @ map hex_digit (hex6 cp) @ ''}''"

text \<open>
  C25: The literal of a code point in six hex digits decodes to its UTF-8 encoding when
  it is a Unicode scalar value, and is rejected otherwise, surrogates included.
\<close>

theorem unicode_literal_decodes:
  assumes "cp < 16 ^ 6"
  shows "(case from_u32 cp of
      Some c \<Rightarrow> decode_string (in_quotes (unicode_escape cp)) start line = Some (Inr (encode_utf8 c)) \<and> valid_utf8 (encode_utf8 c)
    | None \<Rightarrow> \<exists>msg. decode_string (in_quotes (unicode_escape cp)) start line
        = Some (Inl (invalid_escape (start + 1) line msg)))"
proof -
  let ?b = "unicode_escape cp"
  have ds: "list_all (\<lambda>d. d < 16) (hex6 cp)" "length (hex6 cp) = 6" using assms by (simp_all add: hex6_def)
  have run: "unicode_digits ?b 3 0 6 = (9, cp, 0)"
    using unicode_digits_run [OF ds(1), of "[CHR 0x5C, CHR ''u'', CHR ''{'']" "''}''" 0] ds(2) hex6_value [of cp]
    by (simp add: unicode_escape_def numeral_3_eq_3)
  have at: "nth_opt ?b 1 = Some CHR ''u''" "nth_opt ?b 2 = Some CHR ''{''" "nth_opt ?b 9 = Some CHR ''}''" "?b ! 0 = CHR 0x5C" "length ?b = 10"
    by (simp_all add: unicode_escape_def nth_opt_def ds(2) nth_append hex6_def)
  have "simple_escape CHR ''u'' = None" by (simp add: simple_escape_def)
  then have e: "decode_escape ?b 0 (start + 1) line = decode_unicode ?b 2 (start + 1) line"
    using at(1) by (simp add: decode_escape_def Let_def numeral_2_eq_2 split: option.split)
  have b: "decode_body ?b 10 (start + 1) line = Inr []" using at(5) by (simp add: decode_body.simps)
  show ?thesis
  proof (cases "from_u32 cp")
    case None
    then show ?thesis using e run at by (auto simp: decode_in_quotes decode_body.simps [of ?b 0] decode_unicode_def Let_def)
  next
    case (Some c)
    have "valid_utf8 (encode_utf8 c)" using valid_utf8_encode [OF Some, of "[]"] by simp
    then show ?thesis using Some e run at b by (simp add: decode_in_quotes decode_body.simps [of ?b 0] decode_unicode_def Let_def)
  qed
qed

section \<open>Witnesses\<close>

text \<open>The literal \<open>"a\n?"\<close>.\<close>

theorem decode_string_offsets_agrees_witness:
  "decode_string_offsets (in_quotes [CHR ''a'', CHR 0x5C, CHR ''n'', CHR ''?'']) = Some ([CHR ''a'', CHR 0x0A, CHR ''?''], [1, 2, 4, 5])
     \<and> decode_string (in_quotes [CHR ''a'', CHR 0x5C, CHR ''n'', CHR ''?'']) 0 1 = Some (Inr [CHR ''a'', CHR 0x0A, CHR ''?''])"
proof -
  have "is_quoted (in_quotes [CHR ''a'', CHR 0x5C, CHR ''n'', CHR ''?''])" by code_simp
  moreover have "decode_string_offsets (in_quotes [CHR ''a'', CHR 0x5C, CHR ''n'', CHR ''?'']) = Some ([CHR ''a'', CHR 0x0A, CHR ''?''], [1, 2, 4, 5])"
    by code_simp
  ultimately show ?thesis using decode_string_offsets_agrees [of "in_quotes [CHR ''a'', CHR 0x5C, CHR ''n'', CHR ''?'']" 0 1] by simp
qed

theorem unicode_literal_decodes_witness:
  "decode_string (in_quotes (unicode_escape 233)) 0 1 = Some (Inr [CHR 0xC3, CHR 0xA9])"
proof -
  have "from_u32 233 = Some 233" "encode_utf8 233 = [CHR 0xC3, CHR 0xA9]"
    by (simp_all add: from_u32_def encode_utf8_def char_of_eq_iff take_bit_eq_mod)
  then show ?thesis using unicode_literal_decodes [of 233 0 1] by simp
qed

end
