(* ===== verification/Edits.thy ===== *)
theory Edits
  imports Diagnostics
begin

text \<open>
  Fixes applied to source text: applying non-overlapping edits back to front gives
  the text with every edited span replaced, and building a diagnostic keeps its root.
\<close>

section \<open>Applying edits\<close>

text \<open>The reference: the text from \<open>at\<close> on, with each span replaced by its text, front to back.\<close>

fun patch_from :: "nat \<Rightarrow> string \<Rightarrow> edit list \<Rightarrow> string" where
  "patch_from at s [] = drop at s"
| "patch_from at s (e # es) = take (edit_start e - at) (drop at s) @ edit_text e @ patch_from (edit_end e) s es"

text \<open>Edits in order, apart, inside the text and at its character boundaries.\<close>

fun placed :: "nat \<Rightarrow> string \<Rightarrow> edit list \<Rightarrow> bool" where
  "placed at s [] \<longleftrightarrow> at \<le> length s"
| "placed at s (e # es) \<longleftrightarrow> at \<le> edit_start e \<and> edit_start e \<le> edit_end e \<and> edit_end e \<le> length s
     \<and> is_char_boundary s (edit_start e) \<and> is_char_boundary s (edit_end e) \<and> placed (edit_end e) s es"

lemma apply_rev_append: "apply_rev (es @ fs) out = Option.bind (apply_rev es out) (apply_rev fs)"
  by (induction es arbitrary: out) (auto split: bind_splits)

lemma placed_at: "placed at s es \<Longrightarrow> at \<le> length s"
  by (cases es) auto

lemma boundary_head:
  assumes "valid_utf8 s" "is_char_boundary s i" "i < length s"
  shows "\<not> cont_byte (s ! i)"
proof (cases "i = 0")
  case True
  then show ?thesis using assms valid_utf8_head [of "hd s" "tl s"] by (cases s) auto
qed (use assms in \<open>auto simp: is_char_boundary_def\<close>)

text \<open>A string no longer cut at \<open>i\<close> in the middle of a character.\<close>

definition clean :: "string \<Rightarrow> bool" where
  "clean t \<longleftrightarrow> t = [] \<or> \<not> cont_byte (hd t)"

lemma clean_drop: "valid_utf8 s \<Longrightarrow> is_char_boundary s i \<Longrightarrow> i \<le> length s \<Longrightarrow> clean (take n (drop i s) @ t) \<longleftrightarrow> n = 0 \<and> clean t \<or> i = length s \<and> clean t \<or> 0 < n \<and> i < length s"
  using boundary_head [of s i] by (cases "i < length s"; cases n) (auto simp: clean_def hd_append hd_drop_conv_nth)

lemma clean_valid: "valid_utf8 s \<Longrightarrow> clean t \<Longrightarrow> clean (s @ t)"
  by (cases s) (auto simp: clean_def dest: valid_utf8_head)

lemma patch_from_clean:
  assumes "valid_utf8 s"
  shows "placed at s es \<Longrightarrow> is_char_boundary s at \<Longrightarrow> list_all (\<lambda>e. valid_utf8 (edit_text e)) es \<Longrightarrow> clean (patch_from at s es)"
proof (induction es arbitrary: at)
  case Nil
  then show ?case using clean_drop [OF assms, of at "length s" "[]"] by (auto simp: clean_def)
next
  case (Cons e es)
  have "clean (edit_text e @ patch_from (edit_end e) s es)" using Cons by (intro clean_valid) auto
  moreover have "at \<le> length s" using Cons.prems by auto
  ultimately show ?case using clean_drop [OF assms Cons.prems(2), of "edit_start e - at"] Cons.prems by auto
qed

lemma boundary_prefix:
  "is_char_boundary s i \<Longrightarrow> i \<le> k \<Longrightarrow> k \<le> length s \<Longrightarrow> clean t \<Longrightarrow> is_char_boundary (take k s @ t) i"
  by (cases "i = k") (auto simp: is_char_boundary_def nth_append clean_def hd_conv_nth)

lemma apply_rev_patches:
  assumes "valid_utf8 s"
  shows "placed at s es \<Longrightarrow> list_all (\<lambda>e. valid_utf8 (edit_text e)) es \<Longrightarrow> apply_rev (rev es) s = Some (take at s @ patch_from at s es)"
proof (induction es arbitrary: at)
  case (Cons e es)
  let ?i = "edit_start e" and ?j = "edit_end e"
  let ?out = "take ?j s @ patch_from ?j s es"
  have p: "at \<le> ?i" "?i \<le> ?j" "?j \<le> length s" "is_char_boundary s ?i" "is_char_boundary s ?j" "placed ?j s es" using Cons.prems by auto
  have c: "clean (patch_from ?j s es)" using p(5,6) Cons.prems by (intro patch_from_clean [OF assms]) auto
  have b: "is_char_boundary ?out ?i" "is_char_boundary ?out ?j"
    using boundary_prefix [OF p(4,2,3) c] boundary_prefix [OF p(5) _ p(3) c] by auto
  have "apply_edit ?out e = Some (take ?i s @ edit_text e @ patch_from ?j s es)"
    using b p by (simp add: apply_edit_def replace_range_def Let_def min_def take_take)
  moreover have "take ?i s = take at s @ take (?i - at) (drop at s)"
    using p(1) take_add [of at "?i - at" s] by simp
  moreover have "apply_rev (rev es) s = Some ?out" using Cons.IH [OF p(6)] Cons.prems(2) by simp
  ultimately show ?case by (simp add: apply_rev_append)
qed simp

lemma placed_apart: "placed at s es \<Longrightarrow> apart es"
  by (induction es arbitrary: at rule: apart.induct) auto

abbreviation in_order :: "edit list \<Rightarrow> edit list" where
  "in_order es \<equiv> sort_key (\<lambda>e. (edit_start e, edit_end e)) es"

text \<open>
  C11: Edits given in any order that lie apart, at character boundaries of the text, are
  applied without a panic, and the result is the text with the span of each replaced.
\<close>

theorem apply_edits_patches:
  assumes "valid_utf8 source" "list_all (\<lambda>e. valid_utf8 (edit_text e)) es" "placed 0 source (in_order es)"
  shows "apply_edits source es = Some (patch_from 0 source (in_order es))"
proof -
  have "list_all (\<lambda>e. valid_utf8 (edit_text e)) (in_order es)" using assms(2) by (simp add: list_all_iff)
  then show ?thesis using apply_rev_patches [OF assms(1,3)] placed_apart [OF assms(3)] by (simp add: apply_edits_def Let_def)
qed

theorem apply_edits_patches_witness:
  "apply_edits ''f x'' [\<lparr>edit_span = span_at 3, edit_text = '' y''\<rparr>, \<lparr>edit_span = \<lparr>span_start = 0, span_end = 1\<rparr>, edit_text = ''go''\<rparr>]
     = Some ''go x y''"
proof -
  let ?es = "[\<lparr>edit_span = span_at 3, edit_text = '' y''\<rparr>, \<lparr>edit_span = \<lparr>span_start = 0, span_end = 1\<rparr>, edit_text = ''go''\<rparr>]"
  have "valid_utf8 ''f x''" "list_all (\<lambda>e. valid_utf8 (edit_text e)) ?es" "placed 0 ''f x'' (in_order ?es)" by code_simp+
  moreover have "patch_from 0 ''f x'' (in_order ?es) = ''go x y''" by code_simp
  ultimately show ?thesis using apply_edits_patches [of "''f x''" ?es] by simp
qed

section \<open>Building diagnostics\<close>

datatype diag_op =
    Note string | HelpText string | Fix string "edit list" applicability | Label span string
  | Fill span | Retitle string | Context error_code span nat string | Graded severity

fun build :: "diag_op list \<Rightarrow> diagnostic \<Rightarrow> diagnostic option" where
  "build [] d = Some d"
| "build (x # xs) d = Option.bind
     (case x of
        Note s \<Rightarrow> Some (with_note s d)
      | HelpText s \<Rightarrow> Some (with_help s d)
      | Fix m es a \<Rightarrow> with_fix m es a d
      | Label s m \<Rightarrow> Some (with_label s m d)
      | Fill s \<Rightarrow> fill_span s d
      | Retitle m \<Rightarrow> retitle m d
      | Context c s l m \<Rightarrow> Some (add_context c s l m d)
      | Graded s \<Rightarrow> Some (with_severity s d)) (build xs)"

text \<open>The span the root ends up with: the first real one.\<close>

fun root_span :: "span \<Rightarrow> diag_op list \<Rightarrow> span" where
  "root_span s [] = s"
| "root_span s (Fill t # xs) = root_span (if s = span_at 0 then t else s) xs"
| "root_span s (_ # xs) = root_span s xs"

fun contexts :: "diag_op list \<Rightarrow> frame list" where
  "contexts [] = []"
| "contexts (Context c s l m # xs) = \<lparr>frame_code = c, frame_span = s, frame_line = l, frame_msg = m\<rparr> # contexts xs"
| "contexts (_ # xs) = contexts xs"

text \<open>Every fix is located once the root is: no edit is left at the sentinel.\<close>

lemma build_keeps_root:
  "frames d = fr # fs \<Longrightarrow> \<exists>d' m. build xs d = Some d' \<and>
     frames d' = fr\<lparr>frame_span := root_span (frame_span fr) xs, frame_msg := m\<rparr> # fs @ contexts xs"
proof (induction xs arbitrary: d fr fs)
  case Nil
  then show ?case by (auto intro!: exI [of _ "frame_msg fr"])
next
  case (Cons x xs)
  show ?case
  proof (cases x)
    case (Fill s)
    show ?thesis
    proof (cases "frame_span fr = span_at 0")
      case True
      then have "fill_span s d = Some ((on_edits (at_sentinel s) d)\<lparr>frames := fr\<lparr>frame_span := s\<rparr> # fs\<rparr>)"
        using Cons.prems by (simp add: fill_span_def nth_opt_def on_root_def on_edits_def)
      then show ?thesis using Cons.IH [of "(on_edits (at_sentinel s) d)\<lparr>frames := fr\<lparr>frame_span := s\<rparr> # fs\<rparr>" "fr\<lparr>frame_span := s\<rparr>" fs] Fill True
        by fastforce
    next
      case False
      then have "fill_span s d = Some d" using Cons.prems by (simp add: fill_span_def nth_opt_def)
      then show ?thesis using Cons.IH [OF Cons.prems] Fill False by fastforce
    qed
  next
    case (Retitle m)
    then show ?thesis using Cons.prems Cons.IH [of "d\<lparr>frames := fr\<lparr>frame_msg := m\<rparr> # fs\<rparr>" "fr\<lparr>frame_msg := m\<rparr>" fs]
      by (fastforce simp: retitle_def on_root_def)
  next
    case (Context c s l m)
    let ?fr = "\<lparr>frame_code = c, frame_span = s, frame_line = l, frame_msg = m\<rparr>"
    show ?thesis using Cons.prems Cons.IH [of "d\<lparr>frames := fr # fs @ [?fr]\<rparr>" fr "fs @ [?fr]"] Context
      by (fastforce simp: add_context_def)
  next
    case (Fix m es a)
    then show ?thesis using Cons.prems Cons.IH [of _ fr fs] by (simp add: with_fix_def nth_opt_def)
  qed (use Cons.prems Cons.IH [of _ fr fs] in \<open>simp_all add: with_note_def with_help_def with_label_def with_severity_def\<close>)
qed

text \<open>
  C34: Building on a diagnostic never panics: the chain keeps its root in front, with its
  code and line, the contexts follow in order, and the root's span is its own or, when
  it had none, the first one filled in.
\<close>

theorem diagnostic_keeps_root:
  "\<exists>d m. build xs (diag_error c s l msg) = Some d \<and>
     frames d = \<lparr>frame_code = c, frame_span = root_span s xs, frame_line = l, frame_msg = m\<rparr> # contexts xs"
  using build_keeps_root [of "diag_error c s l msg" _ "[]" xs] by (fastforce simp: diag_error_def)

end
