(* ===== verification/Rendering.thy ===== *)
theory Rendering
  imports Edits Core_Terms
begin

text \<open>
  The text of a diagnostic, of \<^verbatim>\<open>crates/utilities/src/error.rs\<close>: where a span lies, the
  excerpt of the source with its underlines, and the preview of a fix. Slicing off a
  character boundary and indexing past the lines panic, so the result is an option.
\<close>

section \<open>Characters and white space\<close>

text \<open>\<^verbatim>\<open>char::is_whitespace\<close> (on integers, whose numerals compute), and the characters of a string each as its bytes.\<close>

definition is_whitespace :: "nat \<Rightarrow> bool" where
  "is_whitespace n \<longleftrightarrow> (let c = int n in 9 \<le> c \<and> c \<le> 13 \<or> c = 32 \<or> c = 133 \<or> c = 160 \<or> c = 5760 \<or> 8192 \<le> c \<and> c \<le> 8202
     \<or> c = 8232 \<or> c = 8233 \<or> c = 8239 \<or> c = 8287 \<or> c = 12288)"

function char_strs :: "string \<Rightarrow> string list" where
  "char_strs s = (case utf8_width s of None \<Rightarrow> [] | Some k \<Rightarrow> take k s # char_strs (drop k s))"
  by pat_completeness auto
termination
  by (relation "measure length") (auto dest: utf8_width_bounds)

declare char_strs.simps [simp del]

definition white :: "string \<Rightarrow> bool" where
  "white c \<longleftrightarrow> is_whitespace (code_point c (length c))"

definition trim_start :: "string \<Rightarrow> string" where
  "trim_start s = concat (dropWhile white (char_strs s))"

definition trim_end :: "string \<Rightarrow> string" where
  "trim_end s = concat (rev (dropWhile white (rev (char_strs s))))"

definition trimmed_empty :: "string \<Rightarrow> bool" where
  "trimmed_empty s \<longleftrightarrow> list_all white (char_strs s)"

section \<open>Lines\<close>

definition find_newline :: "string \<Rightarrow> nat option" where
  "find_newline s = (let n = length (takeWhile (\<lambda>c. c \<noteq> CHR 0x0A) s) in if n < length s then Some n else None)"

definition rfind_newline :: "string \<Rightarrow> nat option" where
  "rfind_newline s = map_option (\<lambda>n. length s - 1 - n) (find_newline (rev s))"

definition line_starts :: "string \<Rightarrow> nat list" where
  "line_starts source = 0 # map Suc (filter (\<lambda>i. source ! i = CHR 0x0A) [0..<length source])"

text \<open>\<^verbatim>\<open>partition_point\<close> on a sorted list counts the elements up to the bound.\<close>

definition line_of :: "nat list \<Rightarrow> nat \<Rightarrow> nat" where
  "line_of starts offset = length (takeWhile (\<lambda>s. s \<le> offset) starts) - 1"

definition line_text :: "string \<Rightarrow> nat list \<Rightarrow> nat \<Rightarrow> string option" where
  "line_text source starts l = do {
     s \<leftarrow> nth_opt starts l;
     rest \<leftarrow> str_slice source s (length source);
     str_slice source s (case find_newline rest of None \<Rightarrow> length source | Some i \<Rightarrow> s + i)
   }"

definition locate :: "string \<Rightarrow> nat \<Rightarrow> (nat \<times> nat \<times> string \<times> nat) option" where
  "locate source at = do {
     let offset = min at (length source);
     prefix \<leftarrow> str_slice source 0 offset;
     let line_start = (case rfind_newline prefix of None \<Rightarrow> 0 | Some i \<Rightarrow> i + 1);
     after \<leftarrow> str_slice source offset (length source);
     let line_end = (case find_newline after of None \<Rightarrow> length source | Some i \<Rightarrow> offset + i);
     ahead \<leftarrow> str_slice source line_start offset;
     above \<leftarrow> str_slice source 0 line_start;
     text \<leftarrow> str_slice source line_start line_end;
     Some (length (filter (\<lambda>c. c = CHR 0x0A) above) + 1, length (chars ahead) + 1, text, line_start)
   }"

definition anchor :: "string \<Rightarrow> Diagnostics.span \<Rightarrow> Diagnostics.span option" where
  "anchor source sp =
     (let e = min (span_end sp) (length source); s = min (span_start sp) e; text_end = length (trim_end source)
      in if s = e \<and> text_end < s then Some (span_at text_end) else span_new s e)"

section \<open>Excerpts\<close>

record mark =
  mark_span :: Diagnostics.span
  glyph :: char
  mark_msg :: "string option"

definition MAX_SPAN_LINES :: nat where
  "MAX_SPAN_LINES = 4"

text \<open>The lines of a mark: the first, the last and those between that are not blank, the middle elided.\<close>

definition elide :: "'a list \<Rightarrow> 'a list" where
  "elide xs = (if MAX_SPAN_LINES < length xs then take (MAX_SPAN_LINES - 1) xs @ [last xs] else xs)"

definition mark_lines :: "string \<Rightarrow> nat list \<Rightarrow> nat \<Rightarrow> nat \<Rightarrow> nat list option" where
  "mark_lines source starts first final = do {
     keep \<leftarrow> those (map (\<lambda>l. if l = first \<or> l = final then Some (l, True)
              else map_option (\<lambda>t. (l, \<not> trimmed_empty t)) (line_text source starts l)) [first..<Suc final]);
     Some (elide (map fst (filter snd keep)))
   }"

text \<open>A segment: its line, first and last byte, the mark and whether it is the mark's last.\<close>

type_synonym segment = "nat \<times> nat \<times> nat \<times> nat \<times> bool"

definition segment_at :: "string \<Rightarrow> nat list \<Rightarrow> Diagnostics.span \<Rightarrow> nat \<Rightarrow> nat \<Rightarrow> nat \<Rightarrow> nat \<Rightarrow> nat \<times> nat \<Rightarrow> segment option" where
  "segment_at source starts sp first final n m kl = (case kl of (k, l) \<Rightarrow> do {
     text \<leftarrow> line_text source starts l;
     ls \<leftarrow> nth_opt starts l;
     let le = ls + length text;
     let indent = length text - length (trim_start text);
     let s = (if l = first then span_start sp else ls + indent);
     let e = (if l = final then min (span_end sp) le else le);
     Some (l, s, max e s, m, k + 1 = n)
   })"

definition mark_segments :: "string \<Rightarrow> nat list \<Rightarrow> nat \<times> mark \<Rightarrow> segment list option" where
  "mark_segments source starts mm = (case mm of (m, mk) \<Rightarrow> do {
     let sp = mark_span mk;
     let first = line_of starts (span_start sp);
     let final = (if span_start sp < span_end sp then line_of starts (span_end sp - 1) else first);
     lines \<leftarrow> mark_lines source starts first final;
     those (map (segment_at source starts sp first final (length lines) m) (enumerate 0 lines))
   })"

definition pad_char :: "nat \<Rightarrow> char" where
  "pad_char c = (if c = 9 then CHR 0x09 else CHR '' '')"

text \<open>\<^verbatim>\<open>format!("{:>width$}", n)\<close>.\<close>

definition right_aligned :: "nat \<Rightarrow> nat \<Rightarrow> string" where
  "right_aligned width n = replicate (width - length (decimal n)) (CHR '' '') @ decimal n"

fun excerpt_rows :: "string \<Rightarrow> nat list \<Rightarrow> nat \<Rightarrow> mark list \<Rightarrow> nat option \<Rightarrow> segment list \<Rightarrow> string option" where
  "excerpt_rows source starts width marks shown [] = Some []"
| "excerpt_rows source starts width marks shown ((l, s, e, m, is_last) # segs) = do {
     let blank = replicate width (CHR '' '');
     text \<leftarrow> line_text source starts l;
     let header = (if shown = Some l then []
                   else (case shown of Some p \<Rightarrow> if p + 1 < l then blank @ '' ...'' @ [CHR 0x0A] else [] | None \<Rightarrow> [])
                        @ right_aligned width (l + 1) @ '' | '' @ text @ [CHR 0x0A]);
     ls \<leftarrow> nth_opt starts l;
     ahead \<leftarrow> str_slice source ls s;
     let pad = map pad_char (take (length (chars ahead)) (chars text));
     under \<leftarrow> str_slice source s e;
     mk \<leftarrow> nth_opt marks m;
     let row = blank @ '' | '' @ pad @ replicate (max (length (chars under)) 1) (glyph mk)
               @ (if is_last then (case mark_msg mk of None \<Rightarrow> [] | Some msg \<Rightarrow> CHR '' '' # msg) else []);
     rest \<leftarrow> excerpt_rows source starts width marks (Some l) segs;
     Some (header @ trim_end row @ [CHR 0x0A] @ rest)
   }"

definition excerpt :: "string \<Rightarrow> mark list \<Rightarrow> string option" where
  "excerpt source marks = do {
     let starts = line_starts source;
     segs \<leftarrow> those (map (mark_segments source starts) (enumerate 0 marks));
     let segments = sort_key (\<lambda>(l, _, _, m, _). (l, m)) (concat segs);
     let widest = fold max (map (\<lambda>s. fst s + 1) segments) 0;
     let width = length (decimal (if segments = [] then 1 else widest));
     rows \<leftarrow> excerpt_rows source starts width marks None segments;
     Some (replicate width (CHR '' '') @ '' |'' @ [CHR 0x0A] @ rows)
   }"

section \<open>Previews of fixes\<close>

text \<open>\<^verbatim>\<open>str::lines\<close>: cut after each newline, which goes together with a carriage return before it.\<close>

fun str_lines_acc :: "string \<Rightarrow> string \<Rightarrow> string list" where
  "str_lines_acc acc [] = (if acc = [] then [] else [rev acc])"
| "str_lines_acc acc (c # s) =
     (if c = CHR 0x0A then rev (if acc \<noteq> [] \<and> hd acc = CHR 0x0D then tl acc else acc) # str_lines_acc [] s
      else str_lines_acc (c # acc) s)"

definition str_lines :: "string \<Rightarrow> string list" where
  "str_lines s = str_lines_acc [] s"

definition checked_sub :: "nat \<Rightarrow> nat \<Rightarrow> nat option" where
  "checked_sub a b = (if b \<le> a then Some (a - b) else None)"

definition shift_edit :: "nat \<Rightarrow> edit \<Rightarrow> edit option" where
  "shift_edit lo e = do {
     s \<leftarrow> checked_sub (edit_start e) lo;
     t \<leftarrow> checked_sub (edit_end e) lo;
     sp \<leftarrow> span_new s t;
     Some \<lparr>edit_span = sp, edit_text = edit_text e\<rparr>
   }"

definition patched_region :: "string \<Rightarrow> edit list \<Rightarrow> string option" where
  "patched_region source es = do {
     let starts = line_starts source;
     let first = (case es of [] \<Rightarrow> 0 | _ \<Rightarrow> Min (set (map edit_start es)));
     let final = fold max (map edit_end es) 0;
     lo \<leftarrow> nth_opt starts (line_of starts first);
     after \<leftarrow> str_slice source final (length source);
     let hi = (case find_newline after of None \<Rightarrow> length source | Some i \<Rightarrow> final + i);
     shifted \<leftarrow> those (map (shift_edit lo) es);
     prefix \<leftarrow> str_slice source lo hi;
     region \<leftarrow> apply_edits prefix shifted;
     Some (''  |'' @ [CHR 0x0A] @ concat (map (\<lambda>line. trim_end (''+ | '' @ line) @ [CHR 0x0A]) (str_lines region)))
   }"

text \<open>Whether an edit removes or adds a newline; the search stops at the first that does.\<close>

fun crosses_lines :: "string \<Rightarrow> edit list \<Rightarrow> bool option" where
  "crosses_lines source [] = Some False"
| "crosses_lines source (e # es) = do {
     t \<leftarrow> span_slice (edit_span e) source;
     if CHR 0x0A \<in> set t \<or> CHR 0x0A \<in> set (edit_text e) then Some True else crosses_lines source es
   }"

definition edit_glyph :: "edit \<Rightarrow> char" where
  "edit_glyph e = (if span_is_empty (edit_span e) then CHR ''+'' else if edit_text e = [] then CHR ''-'' else CHR ''~'')"

text \<open>The loop over the edits of one line: the new line, the marks under it and the cursor after them.\<close>

fun splice_edits :: "string \<Rightarrow> edit list \<Rightarrow> nat \<Rightarrow> (string \<times> string \<times> nat) option" where
  "splice_edits source [] cursor = Some ([], [], cursor)"
| "splice_edits source (e # es) cursor = do {
     kept \<leftarrow> str_slice source cursor (edit_start e);
     let n = max (length (chars (edit_text e))) (of_bool (edit_glyph e = CHR ''-''));
     (new_line, marks, c) \<leftarrow> splice_edits source es (edit_end e);
     Some (kept @ edit_text e @ new_line, map pad_char (chars kept) @ replicate n (edit_glyph e) @ marks, c)
   }"

definition patched_line :: "string \<Rightarrow> nat list \<Rightarrow> edit list \<Rightarrow> nat \<Rightarrow> nat \<Rightarrow> string option" where
  "patched_line source starts es width l = do {
     ls \<leftarrow> nth_opt starts l;
     text \<leftarrow> line_text source starts l;
     let on_line = sort_key edit_start (filter (\<lambda>e. line_of starts (edit_start e) = l) es);
     (new_line, marks, cursor) \<leftarrow> splice_edits source on_line ls;
     kept \<leftarrow> str_slice source cursor (ls + length text);
     Some (right_aligned width (l + 1) @ '' | '' @ new_line @ kept @ [CHR 0x0A]
           @ replicate width (CHR '' '') @ '' | '' @ trim_end marks @ [CHR 0x0A])
   }"

definition patched :: "string \<Rightarrow> edit list \<Rightarrow> string option" where
  "patched source es =
     (if es = [] then Some []
      else do {
        across \<leftarrow> crosses_lines source es;
        if across then patched_region source es
        else do {
          let starts = line_starts source;
          let lines = remdups_adj (sort (map (\<lambda>e. line_of starts (edit_start e)) es));
          let width = length (decimal (last lines + 1));
          rows \<leftarrow> those (map (patched_line source starts es width) lines);
          Some (replicate width (CHR '' '') @ '' |'' @ [CHR 0x0A] @ concat rows)
        }
      })"

section \<open>Rendering\<close>

definition render_frame :: "diagnostic \<Rightarrow> string \<Rightarrow> string \<Rightarrow> string \<Rightarrow> nat \<times> frame \<Rightarrow> string option" where
  "render_frame d root_lead source filename df = (case df of (depth, fr) \<Rightarrow>
     let start = (if depth = 0 then root_lead else ''note '') @ ''['' @ code_name_of (frame_code fr) @ '']: '' @ frame_msg fr
                 @ [CHR 0x0A] @ ''  --> '' @ filename
     in if frame_span fr = span_at 0 then Some (start @ [CHR 0x0A])
        else do {
          sp \<leftarrow> anchor source (frame_span fr);
          (line, col, _, _) \<leftarrow> locate source (span_start sp);
          ls \<leftarrow> (if depth = 0
                 then those (map (\<lambda>l. map_option (\<lambda>s. \<lparr>mark_span = s, glyph = CHR ''-'', mark_msg = Some (label_msg l)\<rparr>)
                        (anchor source (label_span l))) (labels d))
                 else Some []);
          body \<leftarrow> excerpt source (\<lparr>mark_span = sp, glyph = CHR ''^'', mark_msg = None\<rparr> # ls);
          Some (start @ '':'' @ decimal line @ '':'' @ decimal col @ [CHR 0x0A] @ body)
        })"

definition render_help :: "string \<Rightarrow> diag_help \<Rightarrow> string option" where
  "render_help source h = do {
     preview \<leftarrow> (case located_edits h of None \<Rightarrow> Some [] | Some es \<Rightarrow> patched source es);
     Some (''help: '' @ help_msg h @ [CHR 0x0A] @ preview)
   }"

definition render_as :: "diagnostic \<Rightarrow> string \<Rightarrow> string \<Rightarrow> string \<Rightarrow> string option" where
  "render_as d root_lead source filename = do {
     fs \<leftarrow> those (map (render_frame d root_lead source filename) (enumerate 0 (frames d)));
     hs \<leftarrow> those (map (render_help source) (helps d));
     Some (concat fs @ concat (map (\<lambda>note. ''note: '' @ note @ [CHR 0x0A]) (diag_notes d)) @ concat hs)
   }"

definition render :: "diagnostic \<Rightarrow> string \<Rightarrow> string \<Rightarrow> string option" where
  "render d source filename = render_as d (lead (diag_severity d)) source filename"

definition render_warning :: "diagnostic \<Rightarrow> string \<Rightarrow> string \<Rightarrow> string option" where
  "render_warning d source filename = render_as d (lead Warning) source filename"

end
