(* ===== verification/Rendering_Total.thy ===== *)
theory Rendering_Total
  imports Rendering
begin

text \<open>
  Rendering never panics on a diagnostic whose spans lie at character boundaries, and the
  line it reports for an offset is the line whose text the excerpt shows.
\<close>

section \<open>Slices of UTF-8 text\<close>

lemma slice_Some: "i \<le> j \<Longrightarrow> is_char_boundary s i \<Longrightarrow> is_char_boundary s j \<Longrightarrow> str_slice s i j = Some (take (j - i) (drop i s))"
  by (simp add: str_slice_def)

lemma boundary_le: "is_char_boundary s i \<Longrightarrow> i \<le> length s"
  by (auto simp: is_char_boundary_def)

lemma utf8_width_take:
  assumes "utf8_width s = Some k" "k \<le> i"
  shows "utf8_width (take i s) = Some k"
proof -
  obtain a t where s: "s = a # t" using assms(1) by (cases s) auto
  obtain m where m: "i = Suc m" using assms utf8_width_bounds [OF assms(1)] by (cases i) auto
  have "conts n (take m t) = conts n t" if "n \<le> m" for n using that by (auto simp: conts_def min_def)
  moreover have "hd (take m t) = hd t" if "0 < m" using that by (simp add: hd_take)
  ultimately show ?thesis using assms by (auto simp: s m split: if_splits)
qed

lemma boundary_width:
  assumes "utf8_width s = Some k" "is_char_boundary s i" "i < k"
  shows "i = 0"
  using assms utf8_width_conts [of s k i] utf8_width_bounds [of s k] by (auto simp: is_char_boundary_def)

lemma boundary_rest:
  assumes "utf8_width s = Some k" "is_char_boundary s i" "k \<le> i"
  shows "is_char_boundary (drop k s) (i - k)"
  using assms utf8_width_bounds [of s k] by (auto simp: is_char_boundary_def)

lemma valid_drop: "valid_utf8 s \<Longrightarrow> is_char_boundary s i \<Longrightarrow> valid_utf8 (drop i s)"
proof (induction s arbitrary: i rule: valid_utf8.induct)
  case (1 s)
  show ?case
  proof (cases "i = 0 \<or> s = []")
    case False
    then obtain k where k: "utf8_width s = Some k" using valid_utf8_width [OF "1.prems"(1)] by blast
    have "k \<le> i" using boundary_width [OF k "1.prems"(2)] False by fastforce
    moreover have "valid_utf8 (drop (i - k) (drop k s))"
      using "1.prems" boundary_rest [OF k _ calculation] k by (intro "1.IH" [OF k]) (simp_all add: valid_utf8_step [OF k, symmetric])
    ultimately show ?thesis by simp
  qed (use "1.prems" in auto)
qed

lemma valid_take: "valid_utf8 s \<Longrightarrow> is_char_boundary s i \<Longrightarrow> valid_utf8 (take i s)"
proof (induction s arbitrary: i rule: valid_utf8.induct)
  case (1 s)
  show ?case
  proof (cases "i = 0 \<or> s = []")
    case False
    then obtain k where k: "utf8_width s = Some k" using valid_utf8_width [OF "1.prems"(1)] by blast
    have i: "k \<le> i" using boundary_width [OF k "1.prems"(2)] False by fastforce
    moreover have "valid_utf8 (take (i - k) (drop k s))"
      using "1.prems" boundary_rest [OF k _ i] k by (intro "1.IH" [OF k]) (simp_all add: valid_utf8_step [OF k, symmetric])
    ultimately show ?thesis using valid_utf8_step [OF utf8_width_take [OF k i]] by (simp add: drop_take)
  qed auto
qed

text \<open>Boundaries of a slice are the boundaries of the text it is cut from.\<close>

lemma boundary_slice:
  assumes "valid_utf8 s" "is_char_boundary s i" "is_char_boundary s j" "i \<le> j" "p \<le> j - i"
  shows "is_char_boundary (take (j - i) (drop i s)) p \<longleftrightarrow> is_char_boundary s (i + p)"
proof -
  have "j \<le> length s" using assms(3) by (rule boundary_le)
  moreover have "\<not> cont_byte (s ! i)" if "i < length s" using boundary_head [OF assms(1,2) that] .
  ultimately show ?thesis using assms(2-5) by (cases "p = 0"; cases "p = j - i") (auto simp: is_char_boundary_def)
qed

lemma slice_valid:
  assumes "valid_utf8 s" "is_char_boundary s i" "is_char_boundary s j" "i \<le> j"
  shows "valid_utf8 (take (j - i) (drop i s))"
proof -
  have "is_char_boundary (drop i s) (j - i)" using boundary_slice [OF assms(1,2) boundary_end(1), of "j - i"] assms boundary_le [OF assms(2)] boundary_le [OF assms(3)] by simp
  then show ?thesis using valid_take valid_drop assms(1,2) by blast
qed

section \<open>Trimming\<close>

lemma char_strs_concat: "valid_utf8 s \<Longrightarrow> concat (char_strs s) = s"
proof (induction s rule: valid_utf8.induct)
  case (1 s)
  show ?case
  proof (cases "utf8_width s")
    case None
    then show ?thesis using "1.prems" by (subst char_strs.simps, subst (asm) valid_utf8.simps) simp
  next
    case (Some k)
    then have "concat (char_strs (drop k s)) = drop k s" using "1.IH" [OF Some] "1.prems" valid_utf8_step [OF Some] by simp
    then show ?thesis by (subst char_strs.simps) (simp add: Some)
  qed
qed

lemma char_strs_boundary:
  assumes "valid_utf8 s" "char_strs s = xs @ ys"
  shows "is_char_boundary s (length (concat xs))"
  using assms
proof (induction xs arbitrary: s)
  case (Cons x xs)
  obtain k where k: "utf8_width s = Some k" "x = take k s" "char_strs (drop k s) = xs @ ys"
    using Cons.prems(2) by (subst (asm) char_strs.simps) (auto split: option.splits)
  have v: "valid_utf8 (drop k s)" using Cons.prems(1) valid_utf8_step [OF k(1)] by simp
  have kb: "is_char_boundary s k"
    using v valid_utf8_head [of "s ! k" "drop (Suc k) s"] utf8_width_bounds [OF k(1)]
    by (cases "k < length s") (auto simp: is_char_boundary_def Cons_nth_drop_Suc)
  have "is_char_boundary (drop k s) (length (concat xs))" by (rule Cons.IH [OF v k(3)])
  then have "is_char_boundary s (k + length (concat xs))"
    using boundary_slice [OF Cons.prems(1) kb boundary_end(1), of "length (concat xs)"] boundary_le [OF kb] boundary_le by fastforce
  then show ?case using k(2) utf8_width_bounds [OF k(1)] by simp
qed simp

lemma trim_end_boundary:
  assumes "valid_utf8 s"
  shows "is_char_boundary s (length (trim_end s))"
proof -
  have "char_strs s = rev (dropWhile white (rev (char_strs s))) @ rev (takeWhile white (rev (char_strs s)))"
    by (metis rev_append rev_rev_ident takeWhile_dropWhile_id)
  from char_strs_boundary [OF assms this] show ?thesis by (simp add: trim_end_def)
qed

lemma indent_boundary:
  assumes "valid_utf8 s"
  shows "is_char_boundary s (length s - length (trim_start s))"
proof -
  have split: "char_strs s = takeWhile white (char_strs s) @ dropWhile white (char_strs s)" by simp
  have "length s = length (concat (takeWhile white (char_strs s))) + length (trim_start s)"
    unfolding trim_start_def by (metis char_strs_concat [OF assms] concat_append length_append takeWhile_dropWhile_id)
  then show ?thesis using char_strs_boundary [OF assms split] by simp
qed

section \<open>Lines\<close>

abbreviation NL :: char where
  "NL \<equiv> CHR 0x0A"

lemma ascii_newline [simp]: "ascii NL"
  by (simp add: ascii_def)

text \<open>A byte at a boundary that is a line start: the first of the text or the one after a newline.\<close>

lemma line_starts_props:
  assumes "valid_utf8 s" "x \<in> set (line_starts s)"
  shows "is_char_boundary s x"
  using assms boundary_after_ascii [OF assms(1)] by (auto simp: line_starts_def)

lemma sorted_line_starts: "sorted_wrt (<) (line_starts s)"
proof -
  have "sorted_wrt (<) (filter P [0..<n])" for P n by (intro sorted_wrt_filter) (simp add: sorted_wrt_upt)
  then show ?thesis by (simp add: line_starts_def sorted_wrt_map)
qed

lemma line_starts_nonempty [simp]: "line_starts s \<noteq> []" "hd (line_starts s) = 0"
  by (simp_all add: line_starts_def)

lemma line_of_bounds:
  fixes s :: string and x :: nat
  defines "l \<equiv> line_of (line_starts s) x"
  shows "l < length (line_starts s)" "line_starts s ! l \<le> x" "Suc l < length (line_starts s) \<Longrightarrow> x < line_starts s ! Suc l"
proof -
  let ?st = "line_starts s" and ?tw = "takeWhile (\<lambda>p. p \<le> x) (line_starts s)"
  have ne: "?tw \<noteq> []" by (simp add: line_starts_def)
  then have l: "length ?tw = Suc l" by (simp add: l_def line_of_def)
  then show "l < length ?st" using length_takeWhile_le [of "\<lambda>p. p \<le> x" ?st] by linarith
  show "?st ! l \<le> x" using l nth_mem [of l ?tw] takeWhile_nth [of l "\<lambda>p. p \<le> x" ?st] set_takeWhileD by (metis lessI)
  show "x < ?st ! Suc l" if "Suc l < length ?st"
    using nth_length_takeWhile [of "\<lambda>p. p \<le> x" ?st] l that by (simp add: not_le)
qed

text \<open>No newline between the start of its line and an offset.\<close>

lemma line_of_same_line:
  assumes "line_starts s ! line_of (line_starts s) x \<le> i" "i < x" "x \<le> length s"
  shows "s ! i \<noteq> NL"
proof
  let ?st = "line_starts s" and ?l = "line_of (line_starts s) x"
  assume "s ! i = NL"
  then have "Suc i \<in> set ?st" using assms by (auto simp: line_starts_def)
  then obtain k where k: "k < length ?st" "?st ! k = Suc i" by (auto simp: in_set_conv_nth)
  have "?l < k" using sorted_wrt_nth_less [OF sorted_line_starts, of k ?l s] line_of_bounds(1) [of s x] k assms(1)
    by (metis Suc_n_not_le_n leI le_Suc_eq le_trans less_imp_le_nat nat_neq_iff)
  then have "Suc ?l < length ?st" "?st ! Suc ?l \<le> ?st ! k"
    using k(1) sorted_wrt_nth_less [OF sorted_line_starts, of "Suc ?l" k s] by (auto simp: le_less dest: Suc_lessI)
  then show False using line_of_bounds(3) [of s x] k(2) assms(2) by simp
qed

text \<open>The end of the line that starts at \<open>b\<close>.\<close>

definition line_end :: "string \<Rightarrow> nat \<Rightarrow> nat" where
  "line_end s b = b + length (takeWhile (\<lambda>c. c \<noteq> NL) (drop b s))"

lemma line_end_le: "b \<le> length s \<Longrightarrow> line_end s b \<le> length s"
  using length_takeWhile_le [of "\<lambda>c. c \<noteq> NL" "drop b s"] by (simp add: line_end_def)

lemma line_end_at: "line_end s b < length s \<Longrightarrow> s ! line_end s b = NL"
  using nth_length_takeWhile [of "\<lambda>c. c \<noteq> NL" "drop b s"] by (simp add: line_end_def)

lemma line_end_boundary: "b \<le> length s \<Longrightarrow> is_char_boundary s (line_end s b)"
  using line_end_le [of b s] line_end_at [of s b] boundary_at_ascii [of "line_end s b" s] by (cases "line_end s b < length s") auto

lemma line_end_beyond:
  assumes "b \<le> x" "x \<le> length s" "\<And>i. b \<le> i \<Longrightarrow> i < x \<Longrightarrow> s ! i \<noteq> NL"
  shows "x \<le> line_end s b"
proof (rule ccontr)
  assume "\<not> x \<le> line_end s b"
  moreover have "b \<le> line_end s b" by (simp add: line_end_def)
  ultimately show False using line_end_at [of s b] assms by auto
qed

lemma find_newline_end: "b \<le> length s \<Longrightarrow> (case find_newline (drop b s) of None \<Rightarrow> length s | Some i \<Rightarrow> b + i) = line_end s b"
  using length_takeWhile_le [of "\<lambda>c. c \<noteq> NL" "drop b s"] by (auto simp: find_newline_def line_end_def Let_def)

lemma line_text_eq:
  assumes "valid_utf8 s" "l < length (line_starts s)"
  shows "line_text s (line_starts s) l = Some (take (line_end s (line_starts s ! l) - line_starts s ! l) (drop (line_starts s ! l) s))"
proof -
  let ?b = "line_starts s ! l"
  have b: "is_char_boundary s ?b" using line_starts_props [OF assms(1)] assms(2) by simp
  note le = boundary_le [OF b]
  have "str_slice s ?b (length s) = Some (drop ?b s)" using slice_Some [OF le b] by simp
  moreover have "?b \<le> line_end s ?b" by (simp add: line_end_def)
  then have "str_slice s ?b (line_end s ?b) = Some (take (line_end s ?b - ?b) (drop ?b s))"
    using slice_Some b line_end_boundary [OF le] by blast
  moreover have n: "nth_opt (line_starts s) l = Some ?b" using assms(2) by simp
  ultimately show ?thesis unfolding line_text_def n using find_newline_end [OF le] by simp
qed

lemma line_text_length:
  assumes "valid_utf8 s" "line_text s (line_starts s) l = Some t" "l < length (line_starts s)"
  shows "line_starts s ! l + length t = line_end s (line_starts s ! l)"
proof -
  have "line_starts s ! l \<le> length s" using line_starts_props [OF assms(1), of "line_starts s ! l"] assms(3) boundary_le by auto
  then show ?thesis using assms line_text_eq [OF assms(1,3)] line_end_le [of "line_starts s ! l" s] by (auto simp: line_end_def)
qed

section \<open>Locating an offset\<close>

lemma rfind_newline_Some: "rfind_newline t = Some i \<Longrightarrow> i < length t \<and> t ! i = NL \<and> (\<forall>k. i < k \<longrightarrow> k < length t \<longrightarrow> t ! k \<noteq> NL)"
proof -
  assume "rfind_newline t = Some i"
  then obtain n where n: "find_newline (rev t) = Some n" "i = length t - 1 - n" by (auto simp: rfind_newline_def)
  then have lt: "n < length t" "n = length (takeWhile (\<lambda>c. c \<noteq> NL) (rev t))" by (auto simp: find_newline_def Let_def split: if_splits)
  then have "t ! i = NL" using nth_length_takeWhile [of "\<lambda>c. c \<noteq> NL" "rev t"] n(2) by (simp add: rev_nth)
  moreover have "t ! k \<noteq> NL" if "i < k" "k < length t" for k
  proof -
    have "length t - 1 - k < n" using that n(2) lt(1) by linarith
    then have n': "length t - 1 - k < length (takeWhile (\<lambda>c. c \<noteq> NL) (rev t))" by (simp only: lt(2))
    have "rev t ! (length t - 1 - k) \<noteq> NL" using set_takeWhileD [OF nth_mem [OF n']] takeWhile_nth [OF n'] by simp
    then show ?thesis using that by (simp add: rev_nth)
  qed
  ultimately show ?thesis using n(2) lt(1) by auto
qed

lemma rfind_newline_None: "rfind_newline t = None \<Longrightarrow> k < length t \<Longrightarrow> t ! k \<noteq> NL"
proof -
  assume "rfind_newline t = None" "k < length t"
  then have "length (takeWhile (\<lambda>c. c \<noteq> NL) (rev t)) = length (rev t)"
    using length_takeWhile_le [of "\<lambda>c. c \<noteq> NL" "rev t"] by (auto simp: rfind_newline_def find_newline_def Let_def split: if_splits)
  then have "takeWhile (\<lambda>c. c \<noteq> NL) (rev t) = rev t" by (metis takeWhile_eq_take take_all order_refl)
  then have "\<forall>c \<in> set (rev t). c \<noteq> NL" by (simp only: takeWhile_eq_all_conv)
  then show ?thesis using \<open>k < length t\<close> nth_mem [of k t] by auto
qed

text \<open>The start of the line of an offset, found by scanning back, is the one the table of lines has.\<close>

lemma scanned_line_start:
  assumes "x \<le> length s"
  shows "(case rfind_newline (take x s) of None \<Rightarrow> 0 | Some i \<Rightarrow> i + 1) = line_starts s ! line_of (line_starts s) x"
proof -
  let ?b = "line_starts s ! line_of (line_starts s) x"
  have b: "?b \<in> set (line_starts s)" "?b \<le> x" using line_of_bounds(1,2) [of s x] by auto
  have none: "s ! i \<noteq> NL" if "?b \<le> i" "i < x" for i using line_of_same_line [OF that assms] .
  show ?thesis
  proof (cases "?b = 0")
    case True
    then have "rfind_newline (take x s) = None" using rfind_newline_Some [of "take x s"] none assms by (cases "rfind_newline (take x s)") auto
    then show ?thesis using True by simp
  next
    case False
    then obtain j where j: "?b = Suc j" "s ! j = NL" "j < length s" using b(1) by (auto simp: line_starts_def)
    then obtain i where i: "rfind_newline (take x s) = Some i"
      using rfind_newline_None [of "take x s" j] b(2) assms by (cases "rfind_newline (take x s)") auto
    from rfind_newline_Some [OF this] have "i < x" "s ! i = NL" "\<forall>k. i < k \<longrightarrow> k < x \<longrightarrow> s ! k \<noteq> NL" using assms by auto
    then have "i = j" using none [of i] j b(2) by (metis Suc_leI Suc_le_lessD linorder_neqE_nat)
    then show ?thesis using i j by simp
  qed
qed

text \<open>Counting newlines gives the index of the line.\<close>

lemma count_newlines: "length (filter (\<lambda>c. c = NL) (take b s)) = length (filter (\<lambda>i. s ! i = NL) [0..<min b (length s)])"
proof -
  have "take b s = map (\<lambda>i. s ! i) [0..<min b (length s)]" by (rule nth_equalityI) auto
  then show ?thesis by (simp add: filter_map comp_def)
qed

lemma line_index:
  assumes "l < length (line_starts s)"
  shows "length (filter (\<lambda>c. c = NL) (take (line_starts s ! l) s)) = l"
proof -
  let ?nl = "filter (\<lambda>i. s ! i = NL) [0..<length s]" and ?b = "line_starts s ! l"
  have sorted: "sorted_wrt (<) ?nl" by (intro sorted_wrt_filter) (simp add: sorted_wrt_upt)
  have "filter (\<lambda>i. i < ?b) ?nl = take l ?nl"
  proof (cases l)
    case 0
    then show ?thesis by (simp add: line_starts_def)
  next
    case (Suc k)
    then have k: "k < length ?nl" "?b = Suc (?nl ! k)" using assms by (auto simp: line_starts_def)
    have "i < ?b \<longleftrightarrow> i \<le> ?nl ! k" for i using k(2) by auto
    moreover have "filter (\<lambda>i. i \<le> ?nl ! k) ?nl = take (Suc k) ?nl"
    proof -
      have "?nl ! i \<le> ?nl ! k" if "i \<le> k" for i
        using that k(1) sorted_wrt_nth_less [OF sorted, of i k] by (cases "i = k") auto
      then have "filter (\<lambda>i. i \<le> ?nl ! k) (take (Suc k) ?nl) = take (Suc k) ?nl"
        by (intro filter_True) (auto simp: in_set_conv_nth less_Suc_eq_le)
      moreover have "filter (\<lambda>i. i \<le> ?nl ! k) (drop (Suc k) ?nl) = []"
        using sorted_wrt_nth_less [OF sorted, of k "Suc (k + _)"] by (auto simp: filter_empty_conv in_set_conv_nth not_le)
      ultimately show ?thesis by (metis append_Nil2 append_take_drop_id filter_append)
    qed
    ultimately show ?thesis using Suc by simp
  qed
  moreover have "l \<le> length ?nl" using assms by (simp add: line_starts_def)
  moreover have "filter (\<lambda>i. s ! i = NL) [0..<min ?b (length s)] = filter (\<lambda>i. i < ?b) ?nl"
  proof -
    have "[0..<min b n] = filter (\<lambda>i. i < b) [0..<n]" for b n :: nat by (induction n) (auto simp: min_def not_le le_Suc_eq)
    then show ?thesis by (simp add: filter_filter conj_commute)
  qed
  ultimately show ?thesis by (simp add: count_newlines)
qed

lemma line_end_same:
  assumes "b \<le> x" "x \<le> length s" "\<And>i. b \<le> i \<Longrightarrow> i < x \<Longrightarrow> s ! i \<noteq> NL"
  shows "line_end s x = line_end s b"
proof -
  have split: "drop b s = take (x - b) (drop b s) @ drop x s"
    using assms(1) by (metis append_take_drop_id drop_drop le_add_diff_inverse2)
  have "c \<noteq> NL" if "c \<in> set (take (x - b) (drop b s))" for c
    using that assms by (auto simp: in_set_conv_nth)
  then have "takeWhile (\<lambda>c. c \<noteq> NL) (drop b s) = take (x - b) (drop b s) @ takeWhile (\<lambda>c. c \<noteq> NL) (drop x s)"
    by (subst split) (rule takeWhile_append2, blast)
  then show ?thesis using assms(1,2) by (simp add: line_end_def)
qed

lemma locate_eq:
  fixes s :: string and x :: nat
  defines "b \<equiv> line_starts s ! line_of (line_starts s) x"
  assumes "valid_utf8 s" "is_char_boundary s x"
  shows "locate s x = Some (line_of (line_starts s) x + 1, length (chars (take (x - b) (drop b s))) + 1, take (line_end s b - b) (drop b s), b)"
proof -
  note le = boundary_le [OF assms(3)]
  have m: "min x (length s) = x" using le by simp
  have b: "b \<le> x" "is_char_boundary s b" using line_of_bounds [of s x] line_starts_props [OF assms(2)] by (auto simp: b_def)
  have same: "line_end s x = line_end s b" using line_end_same [OF b(1) le] line_of_same_line [of s x] le by (simp add: b_def)
  have e: "b \<le> line_end s b" "is_char_boundary s (line_end s b)" using line_end_boundary boundary_le b(2) by (auto simp: line_end_def)
  have slices: "str_slice s 0 x = Some (take x s)" "str_slice s x (length s) = Some (drop x s)" "str_slice s b x = Some (take (x - b) (drop b s))"
    "str_slice s 0 b = Some (take b s)" "str_slice s b (line_end s b) = Some (take (line_end s b - b) (drop b s))"
    using slice_Some [of 0 x s] slice_Some [of x "length s" s] slice_Some [OF b(1) b(2) assms(3)] slice_Some [of 0 b s] slice_Some [OF e(1) b(2) e(2)] assms(3) b le
    by simp_all
  show ?thesis
    unfolding locate_def m Let_def slices bind.bind_lunit scanned_line_start [OF le] find_newline_end [OF le] b_def [symmetric] same
    by (simp add: line_index [OF line_of_bounds(1), of s x, folded b_def])
qed

section \<open>Excerpts\<close>

text \<open>A mark at character boundaries of the source.\<close>

definition span_ok :: "string \<Rightarrow> Diagnostics.span \<Rightarrow> bool" where
  "span_ok s sp \<longleftrightarrow> is_char_boundary s (span_start sp) \<and> is_char_boundary s (span_end sp)"

definition segment_ok :: "string \<Rightarrow> nat \<Rightarrow> segment \<Rightarrow> bool" where
  "segment_ok s nm seg = (case seg of (l, a, e, m, _) \<Rightarrow>
     l < length (line_starts s) \<and> line_starts s ! l \<le> a \<and> a \<le> e \<and> is_char_boundary s a \<and> is_char_boundary s e \<and> m < nm)"

lemma start_boundary: "valid_utf8 s \<Longrightarrow> l < length (line_starts s) \<Longrightarrow> is_char_boundary s (line_starts s ! l)"
  using line_starts_props by simp

lemma excerpt_rows_total:
  assumes "valid_utf8 s"
  shows "list_all (segment_ok s (length marks)) segs \<Longrightarrow> \<exists>t. excerpt_rows s (line_starts s) width marks shown segs = Some t"
proof (induction segs arbitrary: shown)
  case (Cons seg segs)
  obtain l a e m z where seg: "seg = (l, a, e, m, z)" by (cases seg) auto
  have ok: "l < length (line_starts s)" "line_starts s ! l \<le> a" "a \<le> e" "is_char_boundary s a" "is_char_boundary s e" "m < length marks"
    using Cons.prems by (auto simp: seg segment_ok_def)
  note b = start_boundary [OF assms ok(1)]
  obtain t where rows: "excerpt_rows s (line_starts s) width marks (Some l) segs = Some t" using Cons by auto
  have n: "nth_opt (line_starts s) l = Some (line_starts s ! l)" "nth_opt marks m = Some (marks ! m)" using ok by simp_all
  show ?case unfolding seg excerpt_rows.simps Let_def line_text_eq [OF assms ok(1)] n bind.bind_lunit slice_Some [OF ok(2) b ok(4)] slice_Some [OF ok(3-5)] rows
    by blast
qed simp

lemma those_total: "(\<And>x. x \<in> set xs \<Longrightarrow> \<exists>y. f x = Some y \<and> P x y) \<Longrightarrow> \<exists>ys. those (map f xs) = Some ys \<and> list_all2 P xs ys"
  by (rule those_map_all2) blast

lemma elide_sub: "set (elide xs) \<subseteq> set xs"
  by (auto simp: elide_def MAX_SPAN_LINES_def dest: in_set_takeD intro!: last_in_set)

lemma mark_lines_total:
  assumes "valid_utf8 s" "final < length (line_starts s)"
  shows "\<exists>ls. mark_lines s (line_starts s) first final = Some ls \<and> set ls \<subseteq> {first..final}"
proof -
  let ?f = "\<lambda>l. if l = first \<or> l = final then Some (l, True) else map_option (\<lambda>t. (l, \<not> trimmed_empty t)) (line_text s (line_starts s) l)"
  have "\<exists>y. ?f l = Some y \<and> fst y = l" if "l \<in> set [first..<Suc final]" for l
    using that line_text_eq [OF assms(1), of l] assms(2) by auto
  then obtain keep where k: "those (map ?f [first..<Suc final]) = Some keep" "list_all2 (\<lambda>l y. fst y = l) [first..<Suc final] keep"
    using those_total [of "[first..<Suc final]" ?f "\<lambda>l y. fst y = l"] by blast
  then have "map fst keep = [first..<Suc final]" by (intro nth_equalityI) (auto simp: list_all2_conv_all_nth)
  then have "fst ` set keep \<subseteq> set [first..<Suc final]" by (metis list.set_map order_refl)
  then have "set (elide (map fst (filter snd keep))) \<subseteq> {first..final}" using elide_sub [of "map fst (filter snd keep)"] by fastforce
  then show ?thesis unfolding mark_lines_def k(1) by simp
qed

lemma mark_segments_total:
  assumes "valid_utf8 s" "span_ok s (mark_span mk)" "m < nm"
  shows "\<exists>segs. mark_segments s (line_starts s) (m, mk) = Some segs \<and> list_all (segment_ok s nm) segs"
proof -
  let ?st = "line_starts s" and ?sp = "mark_span mk"
  let ?first = "line_of ?st (span_start ?sp)"
  let ?final = "if span_start ?sp < span_end ?sp then line_of ?st (span_end ?sp - 1) else ?first"
  have final: "?final < length ?st" using line_of_bounds(1) by auto
  obtain ls where ls: "mark_lines s ?st ?first ?final = Some ls" "set ls \<subseteq> {?first..?final}" using mark_lines_total [OF assms(1) final] by blast
  have "\<exists>g. segment_at s ?st ?sp ?first ?final (length ls) m kl = Some g \<and> segment_ok s nm g" if mem: "kl \<in> set (enumerate 0 ls)" for kl
  proof -
    obtain k l where "kl = (k, l)" by fastforce
    then have kl: "kl = (k, l)" "l \<in> set ls" using mem by (auto simp: in_set_enumerate_eq)
    then have l: "l < length ?st" using ls(2) final by fastforce
    let ?b = "?st ! l"
    note b = start_boundary [OF assms(1) l]
    obtain t where t: "line_text s ?st l = Some t" "t = take (line_end s ?b - ?b) (drop ?b s)" using line_text_eq [OF assms(1) l] by blast
    have le: "?b + length t = line_end s ?b" using line_text_length [OF assms(1) t(1) l] .
    have e: "is_char_boundary s (line_end s ?b)" "?b \<le> line_end s ?b" using line_end_boundary boundary_le [OF b] by (auto simp: line_end_def)
    have ind: "is_char_boundary s (?b + (length t - length (trim_start t)))"
      using indent_boundary [OF slice_valid [OF assms(1) b e]] boundary_slice [OF assms(1) b e, of "length t - length (trim_start t)"] le t(2) by auto
    have first: "?st ! ?first \<le> span_start ?sp" by (rule line_of_bounds(2))
    have n: "nth_opt ?st l = Some ?b" using l by simp
    show ?thesis unfolding segment_at_def kl(1) prod.case t(1) n bind.bind_lunit Let_def le
      using assms(2,3) l ind first e(1) by (auto simp: segment_ok_def span_ok_def max_def min_def)
  qed
  then obtain segs where "those (map (segment_at s ?st ?sp ?first ?final (length ls) m) (enumerate 0 ls)) = Some segs"
    "list_all2 (\<lambda>_ g. segment_ok s nm g) (enumerate 0 ls) segs"
    using those_total [of "enumerate 0 ls" "segment_at s ?st ?sp ?first ?final (length ls) m" "\<lambda>_ g. segment_ok s nm g"] by blast
  moreover have "list_all (segment_ok s nm) segs" using calculation(2) by (simp add: list_all2_conv_all_nth list_all_length)
  ultimately show ?thesis unfolding mark_segments_def prod.case Let_def ls(1) by simp
qed

lemma excerpt_total:
  assumes "valid_utf8 s" "list_all (\<lambda>mk. span_ok s (mark_span mk)) marks"
  shows "\<exists>t. excerpt s marks = Some t"
proof -
  have "\<exists>y. mark_segments s (line_starts s) x = Some y \<and> list_all (segment_ok s (length marks)) y" if "x \<in> set (enumerate 0 marks)" for x
    using that assms mark_segments_total [OF assms(1), of "snd x" "fst x"] by (auto simp: in_set_enumerate_eq list_all_length)
  then obtain segs where segs: "those (map (mark_segments s (line_starts s)) (enumerate 0 marks)) = Some segs"
    "list_all2 (\<lambda>_ y. list_all (segment_ok s (length marks)) y) (enumerate 0 marks) segs"
    using those_total [of "enumerate 0 marks" "mark_segments s (line_starts s)" "\<lambda>_ y. list_all (segment_ok s (length marks)) y"] by blast
  then have "list_all (segment_ok s (length marks)) (sort_key (\<lambda>(l, _, _, m, _). (l, m)) (concat segs))"
    by (auto simp: list_all2_conv_all_nth list_all_iff in_set_conv_nth) (metis nth_mem)
  from excerpt_rows_total [OF assms(1) this] show ?thesis unfolding excerpt_def Let_def segs(1) by (simp add: Option.bind_eq_Some_conv)
qed

section \<open>Previews of fixes\<close>

text \<open>Edits in order, apart and at boundaries of the source, with texts of their own.\<close>

definition edits_ok :: "string \<Rightarrow> edit list \<Rightarrow> bool" where
  "edits_ok s es \<longleftrightarrow> placed 0 s es \<and> list_all (\<lambda>e. valid_utf8 (edit_text e)) es"

lemma placed_mem:
  "placed at s es \<Longrightarrow> e \<in> set es \<Longrightarrow> at \<le> edit_start e \<and> edit_start e \<le> edit_end e \<and> edit_end e \<le> length s
     \<and> is_char_boundary s (edit_start e) \<and> is_char_boundary s (edit_end e)"
  by (induction es arbitrary: at) (auto, (meson le_trans)+)

lemma placed_sorted: "placed at s es \<Longrightarrow> sorted_wrt (\<lambda>e f. edit_end e \<le> edit_start f) es"
  by (induction es arbitrary: at) (auto dest: placed_mem)

lemma placed_later: "placed at s es \<Longrightarrow> at' \<le> length s \<Longrightarrow> (\<And>e. e \<in> set es \<Longrightarrow> at' \<le> edit_start e) \<Longrightarrow> placed at' s es"
  by (cases es) auto

lemma placed_filter: "placed at s es \<Longrightarrow> placed at s (filter P es)"
proof (induction es arbitrary: at)
  case (Cons e es)
  then have rest: "placed (edit_end e) s (filter P es)" by simp
  have "edit_end e \<le> edit_start f" if "f \<in> set (filter P es)" for f using placed_mem [OF rest that] by simp
  then show ?case using Cons.prems rest placed_later [OF rest, of at] by fastforce
qed simp

lemma crosses_lines_total:
  assumes "\<And>e. e \<in> set es \<Longrightarrow> is_char_boundary s (edit_start e) \<and> is_char_boundary s (edit_end e) \<and> edit_start e \<le> edit_end e"
  shows "\<exists>b. crosses_lines s es = Some b
    \<and> (\<not> b \<longrightarrow> (\<forall>e \<in> set es. NL \<notin> set (take (edit_end e - edit_start e) (drop (edit_start e) s))))"
  using assms
proof (induction es)
  case (Cons e es)
  then have "span_slice (edit_span e) s = Some (take (edit_end e - edit_start e) (drop (edit_start e) s))"
    by (simp add: span_slice_def slice_Some)
  then show ?case using Cons by auto
qed auto

lemma splice_edits_total:
  assumes "valid_utf8 s"
  shows "placed c s es \<Longrightarrow> is_char_boundary s c
    \<Longrightarrow> \<exists>a m. splice_edits s es c = Some (a, m, if es = [] then c else edit_end (last es))"
proof (induction es arbitrary: c)
  case (Cons e es)
  then have "placed (edit_end e) s es" "is_char_boundary s (edit_end e)" by simp_all
  from Cons.IH [OF this] obtain a m where "splice_edits s es (edit_end e) = Some (a, m, if es = [] then edit_end e else edit_end (last es))" by blast
  then show ?case using Cons.prems by (simp add: slice_Some)
qed simp

lemma patched_line_total:
  assumes v: "valid_utf8 s" and p: "placed 0 s es" and l: "l < length (line_starts s)"
    and flat: "\<And>e. e \<in> set es \<Longrightarrow> NL \<notin> set (take (edit_end e - edit_start e) (drop (edit_start e) s))"
  shows "\<exists>t. patched_line s (line_starts s) es width l = Some t"
proof -
  let ?st = "line_starts s" and ?b = "line_starts s ! l"
  let ?on = "filter (\<lambda>e. line_of ?st (edit_start e) = l) es"
  note b = start_boundary [OF v l]
  have on: "placed 0 s ?on" using placed_filter [OF p] .
  have "sorted_wrt (\<lambda>e f. edit_start e \<le> edit_start f) ?on"
    by (rule sorted_wrt_mono_rel [OF _ placed_sorted [OF on]]) (use placed_mem [OF on] le_trans in blast)
  then have sorted: "sort_key edit_start ?on = ?on" by (intro sort_key_id_if_sorted) (simp add: sorted_map)
  have start: "?b \<le> edit_start e" if "e \<in> set ?on" for e using line_of_bounds(2) [of s "edit_start e"] that by auto
  have placed: "placed ?b s ?on" using placed_later [OF on boundary_le [OF b]] start by blast
  have within: "edit_end e \<le> line_end s ?b" if "e \<in> set ?on" for e
  proof (rule line_end_beyond)
    have e: "e \<in> set es" "line_of ?st (edit_start e) = l" using that by auto
    note m = placed_mem [OF p e(1)]
    show "?b \<le> edit_end e" "edit_end e \<le> length s" using start [OF that] m by auto
    fix i assume i: "?b \<le> i" "i < edit_end e"
    show "s ! i \<noteq> NL"
    proof (cases "i < edit_start e")
      case True
      then show ?thesis using line_of_same_line [of s "edit_start e" i] i e(2) m by auto
    next
      case False
      then have "take (edit_end e - edit_start e) (drop (edit_start e) s) ! (i - edit_start e) = s ! i" using i m by simp
      then show ?thesis using flat [OF e(1)] False i m nth_mem [of "i - edit_start e" "take (edit_end e - edit_start e) (drop (edit_start e) s)"] by force
    qed
  qed
  let ?c = "if ?on = [] then ?b else edit_end (last ?on)"
  obtain a m where sp: "splice_edits s ?on ?b = Some (a, m, ?c)" using splice_edits_total [OF v placed b] by blast
  have le: "?b \<le> line_end s ?b" by (simp add: line_end_def)
  have "?c \<le> line_end s ?b \<and> is_char_boundary s ?c"
    using b le within [OF last_in_set] placed_mem [OF on last_in_set] by auto
  then have kept: "str_slice s ?c (line_end s ?b) = Some (take (line_end s ?b - ?c) (drop ?c s))"
    using slice_Some line_end_boundary [OF boundary_le [OF b]] by blast
  obtain t where t: "line_text s ?st l = Some t" using line_text_eq [OF v l] by blast
  have n: "nth_opt ?st l = Some ?b" using l by simp
  show ?thesis unfolding patched_line_def n t bind.bind_lunit Let_def sorted sp prod.case line_text_length [OF v t l] kept by blast
qed

text \<open>The edits moved into a region of whole lines around them.\<close>

lemma placed_region:
  assumes v: "valid_utf8 s" and lo: "is_char_boundary s lo" and hi: "is_char_boundary s hi" "lo \<le> hi"
    and "lo \<le> at" "placed at s es" "\<And>e. e \<in> set es \<Longrightarrow> edit_end e \<le> hi" "at \<le> hi"
  shows "\<exists>fs. those (map (shift_edit lo) es) = Some fs \<and> placed (at - lo) (take (hi - lo) (drop lo s)) fs
    \<and> list_all2 (\<lambda>e f. edit_text f = edit_text e) es fs"
  using assms(5-8)
proof (induction es arbitrary: at)
  case Nil
  then show ?case using boundary_le [OF hi(1)] by auto
next
  case (Cons e es)
  let ?t = "take (hi - lo) (drop lo s)"
  have e: "at \<le> edit_start e" "edit_start e \<le> edit_end e" "edit_end e \<le> hi" "is_char_boundary s (edit_start e)" "is_char_boundary s (edit_end e)"
    "placed (edit_end e) s es" using Cons.prems by auto
  have len: "length ?t = hi - lo" using boundary_le [OF hi(1)] by simp
  obtain fs where fs: "those (map (shift_edit lo) es) = Some fs" "placed (edit_end e - lo) ?t fs" "list_all2 (\<lambda>e f. edit_text f = edit_text e) es fs"
    using Cons.IH [of "edit_end e"] Cons.prems e by fastforce
  let ?f = "\<lparr>edit_span = \<lparr>span_start = edit_start e - lo, span_end = edit_end e - lo\<rparr>, edit_text = edit_text e\<rparr>"
  have s: "shift_edit lo e = Some ?f" using e Cons.prems(1) by (simp add: shift_edit_def checked_sub_def span_new_def)
  have "is_char_boundary ?t (edit_start e - lo)" "is_char_boundary ?t (edit_end e - lo)"
    using boundary_slice [OF v lo hi, of "edit_start e - lo"] boundary_slice [OF v lo hi, of "edit_end e - lo"] e Cons.prems(1) by simp_all
  then have "placed (at - lo) ?t (?f # fs)" using e fs(2) len Cons.prems(1) by (simp add: diff_le_mono)
  then show ?case using s fs by auto
qed

lemma apply_edits_total:
  assumes "valid_utf8 s" "placed 0 s es" "list_all (\<lambda>e. valid_utf8 (edit_text e)) es"
  shows "\<exists>t. apply_edits s es = Some t"
proof -
  have "sorted_wrt (\<lambda>e f. (edit_start e, edit_end e) \<le> (edit_start f, edit_end f)) es"
    by (intro sorted_wrt_mono_rel [OF _ placed_sorted [OF assms(2)]]) (auto dest!: placed_mem [OF assms(2)] simp: less_eq_prod_def le_less)
  then have sorted: "sort_key (\<lambda>e. (edit_start e, edit_end e)) es = es" by (intro sort_key_id_if_sorted) (simp add: sorted_map)
  have "apart es" using placed_apart [OF assms(2)] .
  then show ?thesis using apply_rev_patches [OF assms(1,2,3)] by (simp add: apply_edits_def Let_def sorted)
qed

lemma patched_region_total:
  assumes v: "valid_utf8 s" and ok: "edits_ok s es" and "es \<noteq> []"
  shows "\<exists>t. patched_region s es = Some t"
proof -
  let ?st = "line_starts s"
  define first where "first = Min (set (map edit_start es))"
  define final where "final = fold max (map edit_end es) 0"
  have p: "placed 0 s es" "list_all (\<lambda>e. valid_utf8 (edit_text e)) es" using ok by (auto simp: edits_ok_def)
  have first: "first \<le> edit_start e" if "e \<in> set es" for e using that by (simp add: first_def)
  have max: "final = Max (insert 0 (edit_end ` set es))" by (simp add: final_def Max.set_eq_fold [symmetric])
  have ends: "edit_end e \<le> final" if "e \<in> set es" for e using that by (simp add: max)
  have "final \<in> insert 0 (edit_end ` set es)" unfolding max by (intro Max_in) auto
  then have fb: "is_char_boundary s final" using placed_mem [OF p(1)] by auto
  define lo where "lo = ?st ! line_of ?st first"
  have lo: "is_char_boundary s lo" "lo \<le> first" using line_of_bounds [of s first] start_boundary [OF v] by (auto simp: lo_def)
  let ?hi = "line_end s final"
  have hi: "is_char_boundary s ?hi" "final \<le> ?hi" using line_end_boundary [OF boundary_le [OF fb]] by (auto simp: line_end_def)
  obtain e where e: "e \<in> set es" using \<open>es \<noteq> []\<close> by (cases es) auto
  have lohi: "lo \<le> ?hi" using lo(2) first [OF e] placed_mem [OF p(1) e] ends [OF e] hi(2) by linarith
  have at: "placed lo s es" by (rule placed_later [OF p(1) boundary_le [OF lo(1)]]) (use first lo(2) le_trans in blast)
  have "edit_end f \<le> ?hi" if "f \<in> set es" for f using ends [OF that] hi(2) by linarith
  then obtain fs where fs: "those (map (shift_edit lo) es) = Some fs" "placed 0 (take (?hi - lo) (drop lo s)) fs"
      "list_all2 (\<lambda>e f. edit_text f = edit_text e) es fs"
    using placed_region [OF v lo(1) hi(1) lohi order_refl at _ lohi] by auto
  have "list_all (\<lambda>e. valid_utf8 (edit_text e)) fs" using p(2) fs(3) by (auto simp: list_all_length list_all2_conv_all_nth)
  then obtain t where t: "apply_edits (take (?hi - lo) (drop lo s)) fs = Some t"
    using apply_edits_total [OF slice_valid [OF v lo(1) hi(1) lohi] fs(2)] by blast
  have c: "(case es of [] \<Rightarrow> 0 | _ \<Rightarrow> Min (set (map edit_start es))) = first" using \<open>es \<noteq> []\<close> by (cases es) (auto simp: first_def)
  have n: "nth_opt ?st (line_of ?st first) = Some lo" using line_of_bounds(1) [of s first] by (simp add: lo_def)
  have tail: "str_slice s final (length s) = Some (drop final s)" using slice_Some [OF boundary_le [OF fb] fb] by simp
  show ?thesis unfolding patched_region_def Let_def c final_def [symmetric] n bind.bind_lunit tail find_newline_end [OF boundary_le [OF fb]] fs(1)
      slice_Some [OF lohi lo(1) hi(1)] t by blast
qed

lemma patched_total:
  assumes "valid_utf8 s" "edits_ok s es"
  shows "\<exists>t. patched s es = Some t"
proof (cases "es = []")
  case False
  have p: "placed 0 s es" using assms(2) by (simp add: edits_ok_def)
  obtain b where b: "crosses_lines s es = Some b"
    "\<not> b \<Longrightarrow> \<forall>e \<in> set es. NL \<notin> set (take (edit_end e - edit_start e) (drop (edit_start e) s))"
    using crosses_lines_total [of es s] placed_mem [OF p] by blast
  show ?thesis
  proof (cases b)
    case True
    then show ?thesis using patched_region_total [OF assms False] False b(1) by (simp add: patched_def)
  next
    case nb: False
    let ?lines = "remdups_adj (sort (map (\<lambda>e. line_of (line_starts s) (edit_start e)) es))"
    have "\<exists>t. patched_line s (line_starts s) es w l = Some t \<and> True" if "l \<in> set ?lines" for w l
      using that patched_line_total [OF assms(1) p] b(2) nb line_of_bounds(1) by auto
    then have "\<exists>ts. those (map (patched_line s (line_starts s) es w) ?lines) = Some ts" for w
      using those_total [of ?lines "patched_line s (line_starts s) es w" "\<lambda>_ _. True"] by blast
    then show ?thesis using b(1) nb False by (simp add: patched_def Let_def Option.bind_eq_Some_conv)
  qed
qed (simp add: patched_def)

section \<open>Rendering\<close>

definition at_boundaries :: "string \<Rightarrow> Diagnostics.span \<Rightarrow> bool" where
  "at_boundaries s sp \<longleftrightarrow> span_start sp \<le> span_end sp
     \<and> is_char_boundary s (min (span_start sp) (length s)) \<and> is_char_boundary s (min (span_end sp) (length s))"

text \<open>A diagnostic whose spans, clamped to the source, lie at its characters, and whose fixes are in order.\<close>

definition renderable :: "string \<Rightarrow> diagnostic \<Rightarrow> bool" where
  "renderable s d \<longleftrightarrow> frames d \<noteq> [] \<and> list_all (\<lambda>f. at_boundaries s (frame_span f)) (frames d)
     \<and> list_all (\<lambda>l. at_boundaries s (label_span l)) (labels d)
     \<and> list_all (\<lambda>h. case located_edits h of None \<Rightarrow> True | Some es \<Rightarrow> edits_ok s es) (helps d)"

lemma anchor_total:
  assumes "valid_utf8 s" "at_boundaries s sp"
  shows "\<exists>sp'. anchor s sp = Some sp' \<and> span_ok s sp'"
proof -
  have "min (span_start sp) (min (span_end sp) (length s)) = min (span_start sp) (length s)" using assms(2) by (auto simp: at_boundaries_def)
  then show ?thesis using assms(2) trim_end_boundary [OF assms(1)]
    by (auto simp: anchor_def Let_def span_ok_def at_boundaries_def span_at_def span_new_def)
qed

lemma render_frame_total:
  assumes v: "valid_utf8 s" and "at_boundaries s (frame_span fr)" "list_all (\<lambda>l. at_boundaries s (label_span l)) (labels d)"
  shows "\<exists>t. render_frame d ld s filename (depth, fr) = Some ((if depth = 0 then ld else ''note '') @ ''['' @ code_name_of (frame_code fr) @ '']: ''
    @ frame_msg fr @ [NL] @ ''  --> '' @ filename @ t)"
proof (cases "frame_span fr = span_at 0")
  case False
  obtain sp where sp: "anchor s (frame_span fr) = Some sp" "span_ok s sp" using anchor_total [OF v assms(2)] by blast
  obtain line col t b where loc: "locate s (span_start sp) = Some (line, col, t, b)" using locate_eq [OF v] sp(2) by (auto simp: span_ok_def)
  let ?mk = "\<lambda>l. map_option (\<lambda>s. \<lparr>mark_span = s, glyph = CHR ''-'', mark_msg = Some (label_msg l)\<rparr>) (anchor s (label_span l))"
  have "\<exists>m. ?mk l = Some m \<and> span_ok s (mark_span m)" if "l \<in> set (labels d)" for l
    using anchor_total [OF v, of "label_span l"] assms(3) that by (auto simp: list_all_iff)
  then obtain ms where ms: "those (map ?mk (labels d)) = Some ms" "list_all2 (\<lambda>_ m. span_ok s (mark_span m)) (labels d) ms"
    using those_total [of "labels d" ?mk "\<lambda>_ m. span_ok s (mark_span m)"] by blast
  have all: "list_all (\<lambda>m. span_ok s (mark_span m)) ms" using ms(2) by (simp add: list_all2_conv_all_nth list_all_length)
  let ?own = "\<lparr>mark_span = sp, glyph = CHR ''^'', mark_msg = None\<rparr>"
  have "list_all (\<lambda>m. span_ok s (mark_span m)) (?own # (if depth = 0 then ms else []))" using all sp(2) by simp
  from excerpt_total [OF v this] obtain body where "excerpt s (?own # (if depth = 0 then ms else [])) = Some body" by blast
  then show ?thesis using False sp(1) loc ms(1) by (auto simp: render_frame_def Let_def split: if_splits)
qed (simp add: render_frame_def Let_def)

lemma render_opens:
  assumes "valid_utf8 source" "renderable source d"
  shows "\<exists>t. render d source filename = Some (lead (diag_severity d) @ ''['' @ code_name_of (frame_code (hd (frames d))) @ '']: ''
    @ frame_msg (hd (frames d)) @ [CHR 0x0A] @ ''  --> '' @ filename @ t)"
proof -
  let ?fr = "render_frame d (lead (diag_severity d)) source filename"
  let ?P = "\<lambda>(depth, fr) t. \<exists>u. t = (if depth = 0 then lead (diag_severity d) else ''note '') @ ''['' @ code_name_of (frame_code fr) @ '']: ''
    @ frame_msg fr @ [NL] @ ''  --> '' @ filename @ u"
  have "\<exists>t. ?fr x = Some t \<and> ?P x t" if mem: "x \<in> set (enumerate 0 (frames d))" for x
  proof -
    obtain i fr where "x = (i, fr)" by fastforce
    then have x: "x = (i, fr)" "fr \<in> set (frames d)" using mem by (auto simp: in_set_enumerate_eq)
    then show ?thesis using render_frame_total [OF assms(1), of fr d "lead (diag_severity d)" filename i] assms(2)
      by (auto simp: renderable_def list_all_iff)
  qed
  then obtain fs where fs: "those (map ?fr (enumerate 0 (frames d))) = Some fs" "list_all2 ?P (enumerate 0 (frames d)) fs"
    using those_total [of "enumerate 0 (frames d)" ?fr ?P] by blast
  have "\<exists>t. render_help source h = Some t \<and> True" if "h \<in> set (helps d)" for h
    using assms(2) that patched_total [OF assms(1)] by (fastforce simp: renderable_def list_all_iff render_help_def split: option.splits)
  then obtain hs where hs: "those (map (render_help source) (helps d)) = Some hs"
    using those_total [of "helps d" "render_help source" "\<lambda>_ _. True"] by blast
  obtain r rs where r: "frames d = r # rs" using assms(2) by (cases "frames d") (auto simp: renderable_def)
  then obtain f fs' where "fs = f # fs'" "?P (0, r) f" using fs(2) by (cases fs) auto
  then show ?thesis using fs(1) hs r by (auto simp: render_def render_as_def)
qed

text \<open>
  C28: Rendering never panics: on UTF-8 source and a diagnostic whose spans, clamped to the
  source, lie at character boundaries and whose fixes are in order and apart, the
  report is produced, and it opens with the severity, the code, the message of the root
  cause and the file name.
\<close>

theorem render_total:
  assumes "valid_utf8 source" "renderable source d"
  shows "\<exists>t. render d source filename = Some (lead (diag_severity d) @ ''['' @ code_name_of (frame_code (hd (frames d))) @ '']: ''
    @ frame_msg (hd (frames d)) @ [CHR 0x0A] @ ''  --> '' @ filename @ t)"
  by (rule render_opens [OF assms])

text \<open>
  C29: The line and column reported for an offset agree with the lines of the excerpt: scanning
  back for a newline and counting gives the entry of the table of line starts that the
  search in the table gives, with the same text, and the column counts the characters
  from the start of that line.
\<close>

theorem locate_agrees:
  assumes "valid_utf8 source" "is_char_boundary source x"
  shows "\<exists>col t. locate source x = Some (line_of (line_starts source) x + 1, col + 1, t, line_starts source ! line_of (line_starts source) x)
    \<and> line_text source (line_starts source) (line_of (line_starts source) x) = Some t
    \<and> map_option (\<lambda>u. length (chars u)) (str_slice source (line_starts source ! line_of (line_starts source) x) x) = Some col"
  using locate_eq [OF assms] line_text_eq [OF assms(1) line_of_bounds(1)]
    slice_Some [OF line_of_bounds(2) start_boundary [OF assms(1) line_of_bounds(1)] assms(2)] by simp

text \<open>Two lines, a label on the first, an error on the second and a fix of it.\<close>

definition demo_text :: string where
  "demo_text = ''ab'' @ [CHR 0x0A, CHR 0xC3, CHR 0xA9] @ '' cd''"

definition demo_report :: diagnostic where
  "demo_report = (diag_error UnknownSymbol \<lparr>span_start = 6, span_end = 8\<rparr> 2 ''bad'')
     \<lparr>labels := [\<lparr>label_span = \<lparr>span_start = 0, span_end = 2\<rparr>, label_msg = ''here''\<rparr>],
      helps := [\<lparr>help_msg = ''write'', help_edits = [\<lparr>edit_span = \<lparr>span_start = 6, span_end = 8\<rparr>, edit_text = ''x''\<rparr>],
                 help_applicability = MaybeIncorrect\<rparr>]\<rparr>"

lemma demo_report_ok: "valid_utf8 demo_text" "renderable demo_text demo_report"
  by code_simp+

theorem render_total_witness: "\<exists>t. render demo_report demo_text ''f'' = Some (''error[UNKNOWN_SYMBOL]: bad'' @ [CHR 0x0A] @ ''  --> f'' @ t)"
  using render_total [OF demo_report_ok, of "''f''"] by (simp add: demo_report_def diag_error_def)

theorem locate_agrees_witness: "\<exists>t. locate demo_text 6 = Some (2, 3, t, 3)"
proof -
  have "is_char_boundary demo_text 6" "line_starts demo_text = [0, 3]" "line_of [0, 3] 6 = 1"
    "map_option (\<lambda>u. length (chars u)) (str_slice demo_text 3 6) = Some 2" by code_simp+
  then show ?thesis using locate_agrees [OF demo_report_ok(1), of 6] by auto
qed

text \<open>
  The fix that replaces a character and then inserts before it applies, but its preview
  sorts by the start only and panics.
\<close>

lemma preview_of_insertion_panics:
  "apply_edits ''ab'' [\<lparr>edit_span = \<lparr>span_start = 0, span_end = 1\<rparr>, edit_text = ''x''\<rparr>, \<lparr>edit_span = \<lparr>span_start = 0, span_end = 0\<rparr>, edit_text = ''y''\<rparr>] = Some ''yxb''
   \<and> patched ''ab'' [\<lparr>edit_span = \<lparr>span_start = 0, span_end = 1\<rparr>, edit_text = ''x''\<rparr>, \<lparr>edit_span = \<lparr>span_start = 0, span_end = 0\<rparr>, edit_text = ''y''\<rparr>] = None"
  by code_simp

end
