(* ===== verification/Spec2Isabelle.thy ===== *)
theory Spec2Isabelle
  imports Handle_Store C_Layout Usefulness_Sound Core_Terms De_Bruijn A_Normal_Form Match_Sound Eta_Sound Lowering Token_Cursor String_Decoding Edits Edit_Distance Rendering_Total
begin

text \<open>
  A verification development of the Thrax compiler: the utilities every stage rests on,
  the lexer and its diagnostics, and the whole middle end from merged Core to IR with
  explicit ownership. Paths are relative to \<^verbatim>\<open>src/crates\<close>.

  \<^bold>\<open>The program.\<close> \<^verbatim>\<open>frontend\<close> lexes and parses a module, checks its types and desugars it
  to Core; \<^verbatim>\<open>frontend/src/ir.rs\<close> merges the modules, compiles patterns, puts Core in
  A-normal form, indexes its variables, converts closures, infers which parameters are
  borrowed and marks moves, drops and reuse. \<^verbatim>\<open>interpreter\<close> runs the IR, \<^verbatim>\<open>ccg\<close> prints it
  as C, \<^verbatim>\<open>thrax\<close> is the driver, language server and shell. \<^verbatim>\<open>utilities\<close> has the handle
  store, the string interner, C layouts and diagnostics.

  \<^bold>\<open>Conventions.\<close> A panic of the source (an index out of range, a slice off a character
  boundary, an \<^verbatim>\<open>expect\<close>) is \<open>None\<close>; an error the code returns is \<open>Inl\<close> of a diagnostic.
  An interned string is its text, which \<open>Handle_Store\<close> justifies. A Core node is a tree
  with an annotation instead of a handle into a store of nodes; the source rebuilds nodes
  and never mutates one, so sharing does not show. Counters that only count are natural
  numbers; \<^verbatim>\<open>usize\<close> arithmetic that can wrap is on words (\<open>C_Layout\<close>). Supplies of fresh
  names are threaded numbers.

  \<^bold>\<open>Utilities.\<close>
  \<^item> \<open>Handle_Store\<close>: \<^verbatim>\<open>utilities/src/handle.rs\<close>, the store, its slices, the secondary map and
    the interner with its chunks and per-thread mirrors. Handles stay valid under every
    later operation, interning is injective, and a lagging mirror still reads the table.
  \<^item> \<open>C_Layout\<close>: \<^verbatim>\<open>utilities/src/cabi.rs\<close>, sizes, alignments, struct and union layouts on
    64-bit words: least aligned offsets, no overlap, no wrap below the stated bound.
  \<^item> \<open>Rust_Str\<close>, \<open>Rust_Num\<close>: what the sources use of \<^verbatim>\<open>str\<close> and of number parsing: UTF-8,
    boundaries, slices, code points, radix integers, decimal to double.
  \<^item> \<open>Diagnostics\<close>, \<open>Edits\<close>, \<open>Edit_Distance\<close>, \<open>Rendering\<close>, \<open>Rendering_Total\<close>:
    \<^verbatim>\<open>utilities/src/error.rs\<close>, spans, codes, frames, builders, fixes, the nearest name and
    the text of a report. Applying edits back to front equals the text with each span
    replaced; building keeps the root; the distance table computes the fewest edits;
    \<^verbatim>\<open>closest\<close> returns the nearest candidate; rendering a diagnostic whose spans lie at
    character boundaries never panics. The end of this theory composes it with the lexer:
    all its errors but the one for a non-ASCII byte can be rendered, and that one cannot.

  \<^bold>\<open>Lexer.\<close> \<open>Lexer_Data\<close> and \<open>Lexer\<close> are \<^verbatim>\<open>frontend/src/lexer/data.rs\<close> and \<^verbatim>\<open>lexer.rs\<close>, one
  definition a method. \<open>Lexer_Sound\<close> shows of each scanner what it consumes and emits;
  \<open>Lexer_Stream\<close> that tokenizing UTF-8 text ends, never panics and tiles the source, and
  how the three tokenizers agree; \<open>Token_Cursor\<close> states the parser's view of the lexer as a
  locale, a cursor over a token list with marks, and interprets it on the lexer;
  \<open>String_Decoding\<close> has the two decoders of string literals, their agreement and the round
  trips through escapes. The loops terminate by the distance to the end of the source.

  \<^bold>\<open>Match coverage.\<close> \<open>Usefulness\<close> is \<^verbatim>\<open>frontend/src/typing/usefulness.rs\<close>: the constructor
  algebra, column normalization, integer segments, the search for an unmatched value and
  the report of a match. \<open>Usefulness_Sound\<close> gives patterns a meaning over typed values, with
  the sequence view of a value as a parameter, and shows that the check never panics, that
  a match it accepts misses no value, and that what it calls unreachable is; a pattern
  that names a field twice is outside its hypotheses, and defeats it. The search ends by
  the size of the patterns of its rows and vector, then the number of columns.

  \<^bold>\<open>Core and its passes.\<close> \<open>Core_Terms\<close> is \<^verbatim>\<open>frontend/src/core.rs\<close> and the merge of
  \<^verbatim>\<open>ir.rs\<close>. \<open>Eta_Fold\<close> is \<^verbatim>\<open>passes/eta_fold.rs\<close>; \<open>Eta_Sound\<close> shows that it keeps the meaning
  of terms in every model where functions satisfy their definitions, given distinct
  parameters and no local named \<^verbatim>\<open>not\<close>, and that it does not without. \<open>Match_Compilation\<close> is \<^verbatim>\<open>passes/match_compilation.rs\<close>; \<open>Match_Sound\<close> shows that it
  leaves only one-constructor tests, and that its recursion at hooked literals is the one
  of the source. \<open>A_Normal_Form\<close> and \<open>De_Bruijn\<close> are \<^verbatim>\<open>passes/a_normal_form.rs\<close> and
  \<^verbatim>\<open>passes/de_bruijn.rs\<close>, with the shape they establish and the binder each index names.

  \<^bold>\<open>IR.\<close> \<open>IR_Data\<close> and \<open>Builtins\<close> are \<^verbatim>\<open>ir/data.rs\<close>. \<open>Closure_Conversion\<close> and
  \<open>IR_Simplify\<close> are \<^verbatim>\<open>ir/closure_conversion.rs\<close>; \<open>Conversion_Sound\<close> and \<open>Conversion_Program\<close>
  show that conversion of A-normal, scoped Core never panics and yields well-formed codes,
  \<open>IR_Simplify\<close> that the clean-up passes keep the meaning of a code in a semantics where
  calls and primitives are arbitrary functions. \<open>Ownership\<close> is \<^verbatim>\<open>ir/ownership.rs\<close>;
  \<open>Ownership_Safe\<close>, \<open>Ownership_Reuse\<close> and \<open>Ownership_Program\<close> follow every path through a
  marked body and show that no operand reads an empty slot; \<open>Ownership_Erase\<close> that
  forgetting the marks gives the code back. \<open>Borrow\<close> and \<open>Borrow_Sound\<close> are
  \<^verbatim>\<open>ir/borrow.rs\<close>: the loop ends in the greatest flags the facts allow, and a borrowed
  parameter is only read. \<open>Lowering\<close> composes the passes as \<^verbatim>\<open>passes_on\<close> and \<^verbatim>\<open>lower\<close> do:
  the contract of each pass is what the one before establishes, so lowering is total.

  \<^bold>\<open>Fuel.\<close> Only the arity loop of closure conversion takes fuel, the number of codes; it is
  enough because a closure refers to an older code, which \<open>curried_arity_ends\<close> uses. Every
  other loop is a total function with a measure, or an \<^verbatim>\<open>option\<close> whose \<open>None\<close> the theorems
  exclude.

  \<^bold>\<open>Not modelled.\<close> The parser, the desugarer and the formatter, which work on the syntax
  tree; the type checker but for match coverage, and the component search it uses; the
  context specialization that runs before the eta fold; the interpreter, whose machine and
  heap would need a model of their own; the C code generator, whose output is C text; the
  driver, language server and shell with their JSON, which are input and output. The bodies
  of primitives are not given a meaning: the theorems about IR hold for any. Case folding in
  \<^verbatim>\<open>closest\<close> is an argument, since its Unicode tables are not part of the sources. Debug and
  display formatting is left out.
\<close>

section \<open>Reports of the lexer\<close>

text \<open>
  C27: Every lexical error but one can be reported: on UTF-8 source, the diagnostic the
  tokenizer returns is rendered without a panic, unless its code is the one for a
  non-ASCII byte.
\<close>

theorem lexical_errors_render:
  assumes "valid_utf8 src" "tokenize src = Some (Inl d)" "frame_code (hd (frames d)) \<noteq> NonAsciiChar"
  shows "\<exists>t. render d src filename = Some t"
proof -
  obtain ts e where s: "stream (lexer_new src) = Some (ts, e)"
    "case e of None \<Rightarrow> ts \<noteq> [] \<and> tok_kind (last ts) = K_Eof | Some d \<Rightarrow> list_all (\<lambda>t. tok_kind t \<noteq> K_Eof) ts \<and> located src 0 1 d"
    by (rule stream_new [OF assms(1)])
  have "collect next_token (lexer_new src) [] = Some (outcome ([] @ code_tokens ts) e)"
    by (rule collect_next_token [OF s(1)]) (simp_all add: lexer_new_def assms(1))
  then have "e = Some d" using assms(2) by (cases e) (auto simp: tokenize_def)
  then have "located src 0 1 d" using s(2) by simp
  then obtain c i j msg where "d = diag_error c \<lparr>span_start = i, span_end = j\<rparr> (1 + newlines (between src 0 i)) msg"
    "i < j" "j \<le> length src" "is_char_boundary src i" "c = NonAsciiChar \<or> is_char_boundary src j" by (auto simp: located_def)
  then have "renderable src d" using assms(3) by (auto simp: renderable_def diag_error_def at_boundaries_def)
  from render_opens [OF assms(1) this] show ?thesis by blast
qed

theorem lexical_errors_render_witness: "\<exists>d t. tokenize ''0x_'' = Some (Inl d) \<and> render d ''0x_'' ''f'' = Some t"
proof -
  have "map_option (map_sum (\<lambda>d. frame_code (hd (frames d))) id) (tokenize ''0x_'') = Some (Inl IntLiteralRange)" "valid_utf8 ''0x_''"
    by code_simp+
  then obtain d where "tokenize ''0x_'' = Some (Inl d)" "frame_code (hd (frames d)) = IntLiteralRange" "valid_utf8 ''0x_''"
    by (cases "tokenize ''0x_''"; cases "the (tokenize ''0x_'')") auto
  then show ?thesis using lexical_errors_render [of "''0x_''" d "''f''"] by auto
qed


end
